(* ===== verification/Prelude.thy ===== *)
theory Prelude
  imports Main "HOL-Library.Word"
begin

text \<open>
  What every component of the model shares: the machine integer types of
  \<open>kernel/include/types.h\<close>, the error values that stand for \<open>panic\<close> and for undefined
  behaviour of C, sequencing of fallible steps, and the constants of
  \<open>kernel/include/param.h\<close>.
\<close>

unbundle bit_operations_syntax

section \<open>Machine integers\<close>

text \<open>
  C's unsigned types are words of their width; the signed \<open>int\<close> is a 32-bit word that is
  read with \<^const>\<open>sint\<close>.  Pointers are 64-bit words.
\<close>

type_synonym u8 = "8 word"
type_synonym u16 = "16 word"
type_synonym u32 = "32 word"
type_synonym u64 = "64 word"
type_synonym i32 = "32 word"

section \<open>Errors and sequencing\<close>

text \<open>
  \<open>panic\<close> prints a message and never returns: it is the value \<open>Panic msg\<close>.  A step whose
  behaviour C leaves undefined (a null dereference, a walk along a list that does not come
  back to its head) is \<open>Fault what\<close>, so that no theorem can hide it.
\<close>

datatype kerror = Panic string | Fault string

type_synonym 'a res = "kerror + 'a"

definition bindE :: "'a res \<Rightarrow> ('a \<Rightarrow> 'b res) \<Rightarrow> 'b res" where
  "bindE m f = (case m of Inl e \<Rightarrow> Inl e | Inr x \<Rightarrow> f x)"

lemma bindE_Inr [simp]: "bindE (Inr x) f = f x"
  by (simp add: bindE_def)

lemma bindE_Inl [simp]: "bindE (Inl e) f = Inl e"
  by (simp add: bindE_def)

lemma bindE_eq_Inr: "bindE m f = Inr y \<longleftrightarrow> (\<exists>x. m = Inr x \<and> f x = Inr y)"
  by (cases m) simp_all

lemma bindE_eq_Inl: "bindE m f = Inl e \<longleftrightarrow> m = Inl e \<or> (\<exists>x. m = Inr x \<and> f x = Inl e)"
  by (cases m) simp_all

lemma bindE_assoc: "bindE (bindE m f) g = bindE m (\<lambda>x. bindE (f x) g)"
  by (cases m) simp_all

lemma bindE_cong [fundef_cong]:
  "m = m' \<Longrightarrow> (\<And>x. m' = Inr x \<Longrightarrow> f x = g x) \<Longrightarrow> bindE m f = bindE m' g"
  by (cases m') simp_all

text \<open>
  Facts of one collection: unfolding a fallible computation that is known to have
  returned.
\<close>

named_theorems returns "what it means that a fallible computation returned"

declare bindE_eq_Inr [returns]

section \<open>Constants of param.h\<close>

definition NPROC :: nat where [simp]: "NPROC = 64"
definition NOFILE :: nat where [simp]: "NOFILE = 16"
definition NFILE :: nat where [simp]: "NFILE = 100"
definition NINODE :: nat where [simp]: "NINODE = 50"
definition ROOTDEV :: u32 where [simp]: "ROOTDEV = 1"
definition NBUF :: nat where [simp]: "NBUF = 30"
definition MAXPATH :: nat where [simp]: "MAXPATH = 128"

section \<open>Generic lemmas\<close>

lemma find_SomeD: "find P xs = Some x \<Longrightarrow> P x \<and> x \<in> set xs"
  by (induction xs) (auto split: if_splits)

lemma find_Some_split:
  "find P xs = Some x \<Longrightarrow> \<exists>as bs. xs = as @ x # bs \<and> P x \<and> (\<forall>a\<in>set as. \<not> P a)"
proof (induction xs)
  case Nil
  then show ?case by simp
next
  case (Cons y ys)
  show ?case
  proof (cases "P y")
    case True
    with Cons.prems have "y # ys = [] @ x # ys \<and> P x \<and> (\<forall>a\<in>set []. \<not> P a)" by simp
    then show ?thesis by blast
  next
    case False
    with Cons obtain as bs where "ys = as @ x # bs" and "P x" and "\<forall>a\<in>set as. \<not> P a"
      by auto
    with False have "y # ys = (y # as) @ x # bs \<and> P x \<and> (\<forall>a\<in>set (y # as). \<not> P a)" by simp
    then show ?thesis by blast
  qed
qed

lemma find_None_all: "find P xs = None \<longleftrightarrow> (\<forall>x\<in>set xs. \<not> P x)"
  by (induction xs) auto

end
