(* ===== verification/Bytes.thy ===== *)
theory Bytes
  imports Prelude
begin

text \<open>
  How the machine (RISC-V, little endian) lays an unsigned integer out in bytes.  Physical
  memory and disk blocks both use it: a \<open>uint64\<close> in memory, a \<open>uint\<close> or a \<open>short\<close> inside
  the \<open>data\<close> array of a buffer.  The round trips proved here are what a C assignment
  through a cast pointer relies on.
\<close>

section \<open>Bytes of a word\<close>

text \<open>Byte \<open>i\<close> of \<open>v\<close>, byte 0 the least significant.\<close>

definition byte_of :: "'a::len word \<Rightarrow> nat \<Rightarrow> u8" where
  "byte_of v i = ucast (drop_bit (8 * i) v)"

text \<open>The word whose byte \<open>i\<close> is \<open>f i\<close>, for \<open>i < n\<close>.\<close>

definition of_le :: "nat \<Rightarrow> (nat \<Rightarrow> u8) \<Rightarrow> 'a::len word" where
  "of_le n f = word_rcat (rev (map f [0..<n]))"

lemma bit_byte_of: "bit (byte_of (v :: 'a::len word) i) k \<longleftrightarrow> k < 8 \<and> bit v (8 * i + k)"
  by (auto simp: byte_of_def bit_simps dest: bit_imp_le_length)

lemma bit_of_le:
  "bit (of_le n f :: 'a::len word) k \<longleftrightarrow>
     k < LENGTH('a) \<and> k div 8 < n \<and> bit (f (k div 8)) (k mod 8)"
  by (auto simp: of_le_def word_rcat_def bit_word_of_int_iff
      bit_horner_sum_uint_exp_iff [where 'a = 8, simplified])

lemma of_le_cong: "(\<And>i. i < n \<Longrightarrow> f i = g i) \<Longrightarrow> of_le n f = of_le n g"
proof -
  assume "\<And>i. i < n \<Longrightarrow> f i = g i"
  then have "map f [0..<n] = map g [0..<n]" by auto
  then show ?thesis by (simp only: of_le_def)
qed

lemma of_le_byte_of: "LENGTH('a) = 8 * n \<Longrightarrow> of_le n (byte_of v) = (v :: 'a::len word)"
  by (rule bit_word_eqI) (auto simp: bit_of_le bit_byte_of)

lemma byte_of_of_le:
  "LENGTH('a) = 8 * n \<Longrightarrow> i < n \<Longrightarrow> byte_of (of_le n f :: 'a::len word) i = f i"
  by (rule bit_word_eqI) (auto simp: bit_of_le bit_byte_of)

lemma byte_of_0 [simp]: "byte_of 0 i = 0"
  by (simp add: byte_of_def)

lemma of_le_zero [simp]: "of_le n (\<lambda>_. 0) = 0"
  by (rule bit_word_eqI) (simp add: bit_of_le)

section \<open>Integers inside an array of bytes\<close>

text \<open>
  The \<open>data\<close> array of a disk buffer, indexed from 0.  A cast such as
  \<open>((uint *)bp->data)[k]\<close> reads and writes 4 bytes at offset \<open>4 * k\<close>.
\<close>

type_synonym block = "nat \<Rightarrow> u8"

definition get_le :: "nat \<Rightarrow> block \<Rightarrow> nat \<Rightarrow> 'a::len word" where
  "get_le n d off = of_le n (\<lambda>i. d (off + i))"

definition put_le :: "nat \<Rightarrow> block \<Rightarrow> nat \<Rightarrow> 'a::len word \<Rightarrow> block" where
  "put_le n d off v = (\<lambda>i. if off \<le> i \<and> i < off + n then byte_of v (i - off) else d i)"

lemma get_put_le_same:
  "LENGTH('a) = 8 * n \<Longrightarrow> get_le n (put_le n d off v) off = (v :: 'a::len word)"
proof -
  assume len: "LENGTH('a) = 8 * n"
  have "get_le n (put_le n d off v) off = (of_le n (byte_of v) :: 'a word)"
    unfolding get_le_def by (rule of_le_cong) (simp add: put_le_def)
  then show ?thesis by (simp add: of_le_byte_of len)
qed

lemma get_put_le_other:
  "off' + m \<le> off \<or> off + n \<le> off' \<Longrightarrow> get_le m (put_le n d off v) off' = get_le m d off'"
  unfolding get_le_def by (rule of_le_cong) (auto simp: put_le_def)

lemma put_le_outside: "i < off \<or> off + n \<le> i \<Longrightarrow> put_le n d off v i = d i"
  by (auto simp: put_le_def)

lemma put_get_le_same:
  "LENGTH('a) = 8 * n \<Longrightarrow> put_le n d off (get_le n d off :: 'a::len word) = d"
  by (rule ext) (auto simp: put_le_def get_le_def byte_of_of_le)

lemma get_le_zero [simp]: "get_le n (\<lambda>_. 0) off = 0"
  by (simp add: get_le_def)

end
