(* ===== verification/Machine.thy ===== *)
theory Machine
  imports Bytes
begin

text \<open>
  The machine under the kernel: physical memory, byte addressed, and the bytes that the
  UART has been given to print.  The kernel accesses memory through \<open>uint64 *\<close> and
  \<open>int *\<close> pointers, which are the loads and stores here; the page tables, the free list
  of the page allocator and the trap frames all live in this one memory, so that whatever
  overlaps in the kernel overlaps in the model.  The addresses that only the linker knows
  are a parameter, the record \<open>symbols\<close>.
\<close>

section \<open>State\<close>

type_synonym mem = "u64 \<Rightarrow> u8"

record machine =
  memory :: mem
  console_out :: "u8 list"

text \<open>
  Symbols that \<open>kernel.ld\<close> and the compiler place: the ends of the kernel's code and of its
  data, and the addresses of the entry points that the C code stores in registers.
\<close>

record symbols =
  etext :: u64
  end_address :: u64
  forkret_addr :: u64
  usertrap_addr :: u64
  sys_trap_vector_addr :: u64
  user_trap_entry_addr :: u64

section \<open>Memory layout: memlayout.h\<close>

definition KERNBASE :: u64 where [simp]: "KERNBASE = 0x80000000"
definition PHYSTOP :: u64 where [simp]: "PHYSTOP = 0x88000000"
definition UART0 :: u64 where [simp]: "UART0 = 0x10000000"
definition VIRTIO0 :: u64 where [simp]: "VIRTIO0 = 0x10001000"
definition PLIC :: u64 where [simp]: "PLIC = 0x0c000000"
definition MAXVA :: u64 where [simp]: "MAXVA = 0x4000000000"
definition PGSIZE :: u64 where [simp]: "PGSIZE = 4096"

definition PGROUNDUP :: "u64 \<Rightarrow> u64" where
  "PGROUNDUP sz = (sz + PGSIZE - 1) AND NOT (PGSIZE - 1)"

definition PGROUNDDOWN :: "u64 \<Rightarrow> u64" where
  "PGROUNDDOWN a = a AND NOT (PGSIZE - 1)"

section \<open>Addresses as numbers\<close>

lemma unat_lt64: "unat (a :: u64) < 2 ^ 64"
  using unsigned_less [of a] by simp

lemma unat_of_nat64: "i < 2 ^ 64 \<Longrightarrow> unat (of_nat i :: u64) = i"
  by (simp add: unsigned_of_nat take_bit_nat_eq_self)

lemma unat_add64: "unat (a + b :: u64) = (unat a + unat b) mod 2 ^ 64"
  by (simp add: unat_word_ariths)

lemma unat_sub64:
  "unat (a - b :: u64) = (if unat b \<le> unat a then unat a - unat b else unat a + 2 ^ 64 - unat b)"
  by (simp add: unat_sub_if_size word_size)

lemmas unat_arith64 = unat_add64 unat_sub64 unat_of_nat64 word_le_nat_alt word_less_nat_alt

lemma unat_eqD: "unat a = unat b \<Longrightarrow> a = (b :: 'a::len word)"
  by (simp add: word_unat_eq_iff)

lemma and_neg_4096: "a AND - 4096 = (a :: u64) - a mod 4096"
proof -
  have m: "- 4096 = NOT (mask 12 :: u64)" by (simp add: mask_eq_exp_minus_1)
  have "a AND NOT (mask 12) = push_bit 12 (drop_bit 12 a)"
    by (rule bit_word_eqI) (auto simp: bit_simps)
  moreover have "push_bit 12 (drop_bit 12 a) + take_bit 12 a = a" by (rule bits_ident)
  moreover have "take_bit 12 a = a mod 4096" by (simp add: take_bit_eq_mod)
  ultimately show ?thesis by (simp add: m eq_diff_eq)
qed

lemma unat_mod_4096: "unat (a mod 4096 :: u64) = unat a mod 4096"
  by (simp add: unat_mod_distrib)

lemma unat_PGROUNDDOWN: "unat (PGROUNDDOWN a) = unat a - unat a mod 4096"
  by (simp add: PGROUNDDOWN_def and_neg_4096 unat_sub64 unat_mod_4096)

lemma unat_PGROUNDUP:
  assumes "unat a + 4095 < 2 ^ 64"
  shows "unat (PGROUNDUP a) = (unat a + 4095) - (unat a + 4095) mod 4096"
proof -
  have "unat (a + 4095) = unat a + 4095" using assms by (simp add: unat_add64)
  moreover have "PGROUNDUP a = (a + 4095) AND - 4096"
    by (simp add: PGROUNDUP_def add.commute)
  ultimately show ?thesis by (simp only: and_neg_4096 unat_sub64 unat_mod_4096) simp
qed

section \<open>Pages\<close>

definition page_aligned :: "u64 \<Rightarrow> bool" where
  "page_aligned p \<longleftrightarrow> unat p mod 4096 = 0"

lemma page_aligned_mod: "page_aligned p \<longleftrightarrow> p mod PGSIZE = 0"
  by (simp add: page_aligned_def flip: unat_mod_4096) (simp add: unsigned_eq_0_iff)

lemma page_alignedE:
  assumes "page_aligned p" obtains k where "unat p = 4096 * k" "k < 2 ^ 52"
proof -
  from assms obtain k where k: "unat p = 4096 * k"
    by (auto simp: page_aligned_def mod_eq_0_iff_dvd)
  moreover have "k < 2 ^ 52" using unat_lt64 [of p] k by simp
  ultimately show ?thesis by (rule that)
qed

lemma page_aligned_le: "page_aligned p \<Longrightarrow> unat p \<le> 2 ^ 64 - 4096"
  by (erule page_alignedE) simp

definition in_page :: "u64 \<Rightarrow> u64 \<Rightarrow> bool" where
  "in_page p x \<longleftrightarrow> unat (x - p) < 4096"

lemma in_page_self: "in_page p p"
  by (simp add: in_page_def)

lemma in_page_iff:
  "page_aligned p \<Longrightarrow> in_page p x \<longleftrightarrow> unat p \<le> unat x \<and> unat x < unat p + 4096"
  using page_aligned_le [of p] unat_lt64 [of x] by (auto simp: in_page_def unat_sub64)

lemma in_page_unique:
  assumes "page_aligned p" "page_aligned q" "in_page p x" "in_page q x"
  shows "p = q"
proof -
  obtain k l where k: "unat p = 4096 * k" and l: "unat q = 4096 * l"
    using assms(1,2) by (metis page_alignedE)
  have "k = l"
    using assms(3,4) unfolding in_page_iff [OF assms(1)] in_page_iff [OF assms(2)] k l by simp
  then show ?thesis by (simp add: unat_eqD k l)
qed

text \<open>The \<open>i\<close>-th doubleword of a page: what \<open>((uint64 *)p)[i]\<close> addresses.\<close>

definition entry :: "u64 \<Rightarrow> nat \<Rightarrow> u64" where
  "entry t i = t + 8 * of_nat i"

lemma unat_entry:
  assumes "page_aligned t" "i < 512"
  shows "unat (entry t i) = unat t + 8 * i"
proof -
  have "unat (8 * of_nat i :: u64) = 8 * i"
    using assms(2) by (simp add: unat_word_ariths unat_of_nat64)
  then show ?thesis
    using page_aligned_le [OF assms(1)] assms(2) by (simp add: entry_def unat_add64)
qed

lemma entry_0 [simp]: "entry t 0 = t"
  by (simp add: entry_def)

lemma entry_inj:
  assumes "page_aligned t" "page_aligned u" "i < 512" "j < 512" "entry t i = entry u j"
  shows "t = u \<and> i = j"
proof -
  obtain k l where k: "unat t = 4096 * k" and l: "unat u = 4096 * l"
    using assms(1,2) by (metis page_alignedE)
  have eq: "4096 * k + 8 * i = 4096 * l + 8 * j"
    using assms by (metis unat_entry k l)
  then have "k = l" using assms(3,4) by simp
  with eq show ?thesis by (simp add: unat_eqD k l)
qed

text \<open>
  The linker script places \<open>.text\<close> at \<open>KERNBASE\<close>, aligns \<open>etext\<close> to a page and puts
  \<open>end_address\<close> after the data; the image has to fit below \<open>PHYSTOP\<close>, or there would be no
  page to allocate.
\<close>

definition linked_ok :: "symbols \<Rightarrow> bool" where
  "linked_ok lk \<longleftrightarrow> KERNBASE < etext lk \<and> etext lk mod PGSIZE = 0 \<and>
     etext lk \<le> end_address lk \<and> end_address lk \<le> PHYSTOP"

text \<open>An image that satisfies it: the linker parameters the examples run with.\<close>

definition demo_symbols :: symbols where
  "demo_symbols = \<lparr>etext = 0x80001000, end_address = 0x87FF0010, forkret_addr = 0x80000100,
     usertrap_addr = 0x80000200, sys_trap_vector_addr = 0x80000300,
     user_trap_entry_addr = 0x80000400\<rparr>"

lemma demo_symbols_linked: "linked_ok demo_symbols"
  by (simp add: demo_symbols_def linked_ok_def)

section \<open>Loads and stores\<close>

definition load_le :: "nat \<Rightarrow> mem \<Rightarrow> u64 \<Rightarrow> 'a::len word" where
  "load_le n m a = of_le n (\<lambda>i. m (a + of_nat i))"

definition store_le :: "nat \<Rightarrow> mem \<Rightarrow> u64 \<Rightarrow> 'a::len word \<Rightarrow> mem" where
  "store_le n m a v = (\<lambda>x. if unat (x - a) < n then byte_of v (unat (x - a)) else m x)"

abbreviation load64 :: "mem \<Rightarrow> u64 \<Rightarrow> u64" where
  "load64 \<equiv> load_le 8"

abbreviation store64 :: "mem \<Rightarrow> u64 \<Rightarrow> u64 \<Rightarrow> mem" where
  "store64 \<equiv> store_le 8"

abbreviation store32 :: "mem \<Rightarrow> u64 \<Rightarrow> u32 \<Rightarrow> mem" where
  "store32 \<equiv> store_le 4"

lemma load_store_same:
  assumes "LENGTH('a) = 8 * n" and "n < 2 ^ 64"
  shows "load_le n (store_le n m a v) a = (v :: 'a::len word)"
proof -
  have "unat (of_nat i :: u64) = i" if "i < n" for i
    using that assms(2) by (simp add: unat_of_nat64)
  then have "load_le n (store_le n m a v) a = (of_le n (byte_of v) :: 'a word)"
    unfolding load_le_def store_le_def by (intro of_le_cong) simp
  then show ?thesis by (simp add: of_le_byte_of assms(1))
qed

lemma load64_store64_same [simp]: "load64 (store64 m a v) a = v"
  by (rule load_store_same) simp_all

lemma store_le_outside: "\<not> unat (x - a) < n \<Longrightarrow> store_le n m a v x = m x"
  by (simp add: store_le_def)

lemma load_le_cong: "(\<And>i. i < n \<Longrightarrow> m (a + of_nat i) = m' (a + of_nat i)) \<Longrightarrow> load_le n m a = load_le n m' a"
  unfolding load_le_def by (rule of_le_cong)

lemma load_le_store_le_sep:
  assumes "\<And>i. i < k \<Longrightarrow> \<not> unat (b + of_nat i - a) < n"
  shows "load_le k (store_le n m a v) b = load_le k m b"
  using assms by (intro load_le_cong) (simp add: store_le_outside)

text \<open>Two aligned doublewords are the same doubleword or do not overlap.\<close>

lemma aligned8_sep:
  fixes a b :: u64
  assumes "unat a mod 8 = 0" "unat b mod 8 = 0" "i < 8" "unat (b + of_nat i - a) < 8"
  shows "a = b"
proof -
  obtain x where x: "unat a = 8 * x" using assms(1) by (auto simp: mod_eq_0_iff_dvd)
  obtain y where y: "unat b = 8 * y" using assms(2) by (auto simp: mod_eq_0_iff_dvd)
  have "unat a < 2 ^ 64" "unat b < 2 ^ 64" by (rule unat_lt64)+
  then have l: "x < 2 ^ 61" "y < 2 ^ 61" using x y by simp_all
  have "unat (b + of_nat i) = 8 * y + i"
    using l assms(3) by (simp add: unat_add64 unat_of_nat64 y)
  then have "y = x" using assms(3,4) l by (auto simp: unat_sub64 x split: if_splits)
  then show ?thesis by (simp add: x y unat_eqD)
qed

lemma load64_store64_other:
  "unat a mod 8 = 0 \<Longrightarrow> unat b mod 8 = 0 \<Longrightarrow> a \<noteq> b \<Longrightarrow>
     load64 (store64 m a v) b = load64 m b"
  by (rule load_le_store_le_sep) (metis aligned8_sep)

lemma entry_aligned8: "page_aligned t \<Longrightarrow> i < 512 \<Longrightarrow> unat (entry t i) mod 8 = 0"
  by (erule page_alignedE) (simp add: unat_entry page_aligned_def mod_add_eq)

lemma load64_entry_other:
  assumes "page_aligned t" "page_aligned u" "i < 512" "j < 512" "(t, i) \<noteq> (u, j)"
  shows "load64 (store64 m (entry t i) v) (entry u j) = load64 m (entry u j)"
  using assms entry_inj [OF assms(1-4)]
  by (intro load64_store64_other entry_aligned8) auto

lemma store64_entry_outside:
  assumes "page_aligned t" "i < 512" "\<not> in_page t x"
  shows "store64 m (entry t i) v x = m x"
proof (rule store_le_outside)
  show "\<not> unat (x - entry t i) < 8"
    using assms(2,3) unat_lt64 [of x] page_aligned_le [OF assms(1)]
    unfolding in_page_iff [OF assms(1)] unat_sub64 unat_entry [OF assms(1,2)]
    by (auto split: if_splits)
qed

text \<open>
  A doubleword of a page only depends on that page, so two memories that agree on a page
  hold the same doublewords in it.
\<close>

lemma load64_entry_cong:
  assumes "page_aligned t" "i < 512" "\<And>x. in_page t x \<Longrightarrow> m x = m' x"
  shows "load64 m (entry t i) = load64 m' (entry t i)"
proof (rule load_le_cong, rule assms(3))
  fix k :: nat assume "k < 8"
  then have "unat (entry t i + of_nat k) = unat t + 8 * i + k"
    using assms(2) page_aligned_le [OF assms(1)]
    by (simp add: unat_add64 unat_of_nat64 unat_entry [OF assms(1,2)])
  with \<open>k < 8\<close> assms(2) show "in_page t (entry t i + of_nat k)"
    by (simp add: in_page_iff [OF assms(1)])
qed

section \<open>The clearing loop\<close>

text \<open>
  \<open>for (int i = 0; i < PGSIZE / 8; i++) p[i] = 0;\<close> as \<open>kalloc\<close>, \<open>walk\<close>, \<open>kvmininit\<close> and
  \<open>userinit\<close> have it.
\<close>

definition zero_page :: "u64 \<Rightarrow> mem \<Rightarrow> mem" where
  "zero_page p m = fold (\<lambda>i m. store64 m (entry p i) 0) [0..<512] m"

lemma zero_words:
  "n \<le> 512 \<Longrightarrow> fold (\<lambda>i m. store64 m (entry p i) 0) [0..<n] m =
     (\<lambda>x. if unat (x - p) < 8 * n then 0 else m x)"
proof (induction n)
  case 0
  then show ?case by simp
next
  case (Suc n)
  have "unat (x - entry p n) < 8 \<longleftrightarrow> 8 * n \<le> unat (x - p) \<and> unat (x - p) < 8 * Suc n" for x
  proof -
    have u: "unat (8 * of_nat n :: u64) = 8 * n"
      using Suc.prems by (simp add: unat_word_ariths unat_of_nat64)
    have "x - entry p n = (x - p) - 8 * of_nat n" by (simp add: entry_def)
    then show ?thesis
      using Suc.prems unat_lt64 [of "x - p"]
      by (simp only: unat_sub64 [of "x - p"] u) (auto split: if_splits)
  qed
  with Suc show ?case by (auto simp: store_le_def fun_eq_iff)
qed

lemma zero_page_eq: "zero_page p m = (\<lambda>x. if in_page p x then 0 else m x)"
  by (simp add: zero_page_def zero_words in_page_def)

lemma load64_zero_page:
  assumes "page_aligned p" "i < 512"
  shows "load64 (zero_page p m) (entry p i) = 0"
proof -
  have "load64 (zero_page p m) (entry p i) = load64 (\<lambda>_. 0) (entry p i)"
    using assms by (intro load64_entry_cong) (simp_all add: zero_page_eq)
  then show ?thesis by (simp add: load_le_def)
qed

lemma load64_zero_page_other:
  assumes "page_aligned p" "page_aligned t" "t \<noteq> p" "i < 512"
  shows "load64 (zero_page p m) (entry t i) = load64 m (entry t i)"
  using assms in_page_unique by (intro load64_entry_cong) (auto simp: zero_page_eq)

end
