(* ===== verification/Kalloc.thy ===== *)
theory Kalloc
  imports Machine
begin

text \<open>
  The physical page allocator, \<open>kernel/mm/kalloc.c\<close>.  The free pages form a singly linked
  list whose nodes are the first 8 bytes of the free pages themselves, so the list is a
  property of the physical memory: \<open>free_list m p ps\<close> says that following \<open>next\<close> from \<open>p\<close>
  visits exactly the pages \<open>ps\<close>.  The invariant \<open>kmem_inv\<close> adds that the pages are distinct
  and are the ones \<open>kfree\<close> accepts.
\<close>

section \<open>State and operations\<close>

record kmem = machine +
  free_mem_list :: u64

definition kfree :: "symbols \<Rightarrow> u64 \<Rightarrow> 'a kmem_scheme \<Rightarrow> 'a kmem_scheme res" where
  "kfree lk pa s =
     (if pa mod PGSIZE \<noteq> 0 \<or> pa < end_address lk \<or> PHYSTOP \<le> pa
      then Inl (Panic ''kfree: invalid address'')
      else Inr (s\<lparr>memory := store64 (memory s) pa (free_mem_list s), free_mem_list := pa\<rparr>))"

definition kalloc :: "'a kmem_scheme \<Rightarrow> u64 \<times> 'a kmem_scheme" where
  "kalloc s =
     (let r = free_mem_list s in
      if r \<noteq> 0
      then (r, s\<lparr>free_mem_list := load64 (memory s) r, memory := zero_page r (memory s)\<rparr>)
      else (0, s))"

text \<open>
  The loop of \<open>kinit\<close> runs while a whole page is left below \<open>PHYSTOP\<close>.  Its pointer
  arithmetic could only wrap at a page that \<open>kfree\<close> refuses, so the loop ends for every
  start address.
\<close>

function kinit_loop :: "symbols \<Rightarrow> u64 \<Rightarrow> 'a kmem_scheme \<Rightarrow> 'a kmem_scheme res" where
  "kinit_loop lk p s =
     (if p + PGSIZE \<le> PHYSTOP
      then bindE (kfree lk p s) (\<lambda>s'. kinit_loop lk (p + PGSIZE) s')
      else Inr s)"
  by pat_completeness auto
termination
proof (relation "measure (\<lambda>(lk, p, s). unat PHYSTOP - unat p)")
  fix lk p and s s' :: "'a kmem_scheme"
  assume "kfree lk p s = Inr s'"
  then have "p < PHYSTOP"
    by (auto simp: kfree_def not_le split: if_splits)
  then have "unat p < unat PHYSTOP" and "unat (p + PGSIZE) = unat p + 4096"
    by (simp_all add: word_less_nat_alt unat_add64)
  then show "((lk, p + PGSIZE, s'), (lk, p, s)) \<in> measure (\<lambda>(lk, p, s). unat PHYSTOP - unat p)"
    by simp
qed simp

declare kinit_loop.simps [simp del]

definition kinit :: "symbols \<Rightarrow> 'a kmem_scheme \<Rightarrow> 'a kmem_scheme res" where
  "kinit lk s = kinit_loop lk (PGROUNDUP (end_address lk)) s"

section \<open>The free list\<close>

primrec free_list :: "mem \<Rightarrow> u64 \<Rightarrow> u64 list \<Rightarrow> bool" where
  "free_list m p [] \<longleftrightarrow> p = 0"
| "free_list m p (q # qs) \<longleftrightarrow> p = q \<and> q \<noteq> 0 \<and> free_list m (load64 m q) qs"

definition page_ok :: "symbols \<Rightarrow> u64 \<Rightarrow> bool" where
  "page_ok lk p \<longleftrightarrow> page_aligned p \<and> end_address lk \<le> p \<and> p < PHYSTOP"

definition kmem_inv :: "symbols \<Rightarrow> 'a kmem_scheme \<Rightarrow> u64 list \<Rightarrow> bool" where
  "kmem_inv lk s ps \<longleftrightarrow> linked_ok lk \<and> free_list (memory s) (free_mem_list s) ps \<and>
     distinct ps \<and> (\<forall>p\<in>set ps. page_ok lk p)"

lemma page_ok_aligned: "page_ok lk p \<Longrightarrow> page_aligned p"
  by (simp add: page_ok_def)

lemma page_ok_nonzero: "linked_ok lk \<Longrightarrow> page_ok lk p \<Longrightarrow> p \<noteq> 0"
  by (auto simp: page_ok_def linked_ok_def word_le_nat_alt word_less_nat_alt)

lemma kfree_eq_Inr:
  "kfree lk pa s = Inr s' \<longleftrightarrow>
     page_ok lk pa \<and> s' = s\<lparr>memory := store64 (memory s) pa (free_mem_list s), free_mem_list := pa\<rparr>"
  by (auto simp: kfree_def page_ok_def page_aligned_mod)

lemma free_list_cong:
  assumes "\<And>q x. q \<in> set ps \<Longrightarrow> in_page q x \<Longrightarrow> m x = m' x" and "\<forall>q\<in>set ps. page_aligned q"
  shows "free_list m p ps = free_list m' p ps"
  using assms
proof (induction ps arbitrary: p)
  case Nil
  then show ?case by simp
next
  case (Cons q qs)
  have "load64 m q = load64 m' q"
    using Cons.prems by (intro load64_entry_cong [of q 0, simplified]) auto
  moreover have "free_list m (load64 m' q) qs = free_list m' (load64 m' q) qs"
    using Cons.prems by (intro Cons.IH) auto
  ultimately show ?case by simp
qed

lemma free_list_same_pages:
  assumes "kmem_inv lk s ps" "\<And>q x. q \<in> set ps \<Longrightarrow> in_page q x \<Longrightarrow> memory s x = m' x"
  shows "free_list m' (free_mem_list s) ps"
  using assms free_list_cong [of ps "memory s" m'] by (auto simp: kmem_inv_def page_ok_def)

lemma kmem_inv_Cons:
  assumes "kmem_inv lk s (p # ps)"
  shows "free_mem_list s = p" "p \<noteq> 0" "page_ok lk p" "p \<notin> set ps"
    "free_list (memory s) (load64 (memory s) p) ps" "distinct ps" "\<forall>q\<in>set ps. page_ok lk q"
  using assms by (auto simp: kmem_inv_def)

section \<open>Allocation and release keep the invariant\<close>

lemma other_page:
  "page_ok lk p \<Longrightarrow> page_ok lk q \<Longrightarrow> p \<noteq> q \<Longrightarrow> in_page q x \<Longrightarrow> \<not> in_page p x"
  using in_page_unique page_ok_aligned by blast

lemma kalloc_Cons:
  assumes inv: "kmem_inv lk s (p # ps)"
  shows "kalloc s = (p, s\<lparr>free_mem_list := load64 (memory s) p, memory := zero_page p (memory s)\<rparr>)"
    and "kmem_inv lk (snd (kalloc s)) ps"
proof -
  note c = kmem_inv_Cons [OF inv]
  show k: "kalloc s =
      (p, s\<lparr>free_mem_list := load64 (memory s) p, memory := zero_page p (memory s)\<rparr>)"
    using c(1,2) by (simp add: kalloc_def)
  have "free_list (zero_page p (memory s)) (load64 (memory s) p) ps =
      free_list (memory s) (load64 (memory s) p) ps"
  proof (rule free_list_cong)
    fix q x assume "q \<in> set ps" "in_page q x"
    with c show "zero_page p (memory s) x = memory s x"
      by (metis other_page zero_page_eq)
  qed (use c(7) page_ok_aligned in blast)
  then show "kmem_inv lk (snd (kalloc s)) ps"
    using inv c by (simp add: k kmem_inv_def)
qed

lemma kalloc_Nil: "kmem_inv lk s [] \<Longrightarrow> kalloc s = (0, s)"
  by (simp add: kmem_inv_def kalloc_def)

lemma kfree_inv:
  assumes inv: "kmem_inv lk s ps" and ok: "page_ok lk pa" and new: "pa \<notin> set ps"
    and ret: "kfree lk pa s = Inr s'"
  shows "kmem_inv lk s' (pa # ps)"
proof -
  have s': "s' = s\<lparr>memory := store64 (memory s) pa (free_mem_list s), free_mem_list := pa\<rparr>"
    using ret by (simp add: kfree_eq_Inr)
  have "free_list (store64 (memory s) pa (free_mem_list s)) (free_mem_list s) ps"
  proof (rule free_list_same_pages [OF inv])
    fix q x assume q: "q \<in> set ps" "in_page q x"
    then have "\<not> in_page pa x"
      using inv ok new by (metis kmem_inv_def other_page)
    then show "memory s x = store64 (memory s) pa (free_mem_list s) x"
      using store64_entry_outside [of pa 0 x] page_ok_aligned [OF ok] by simp
  qed
  moreover have "linked_ok lk" using inv by (simp add: kmem_inv_def)
  ultimately show ?thesis
    using inv ok new page_ok_nonzero [OF _ ok] by (simp add: s' kmem_inv_def)
qed

section \<open>The interface other components rely on\<close>

text \<open>
  What \<open>walk\<close>, \<open>allocproc\<close>, \<open>userinit\<close>, \<open>fork\<close> and \<open>wait\<close> expect of the allocator: a
  pool of valid, distinct pages, from which \<open>alloc\<close> takes one (or returns the null pointer
  when there is none) and to which \<open>free\<close> returns one.
\<close>

locale page_allocator =
  fixes alloc :: "'s \<Rightarrow> 'p \<times> 's"
    and free :: "'p \<Rightarrow> 's \<Rightarrow> 's res"
    and pool :: "'s \<Rightarrow> 'p list \<Rightarrow> bool"
    and valid :: "'p \<Rightarrow> bool"
    and null :: 'p
  assumes alloc_first: "pool s (p # ps) \<Longrightarrow> \<exists>s'. alloc s = (p, s') \<and> pool s' ps"
    and alloc_empty: "pool s [] \<Longrightarrow> alloc s = (null, s)"
    and free_back: "pool s ps \<Longrightarrow> valid p \<Longrightarrow> p \<notin> set ps \<Longrightarrow> \<exists>s'. free p s = Inr s' \<and> pool s' (p # ps)"
    and pool_distinct: "pool s ps \<Longrightarrow> distinct ps"
    and pool_valid: "pool s ps \<Longrightarrow> p \<in> set ps \<Longrightarrow> valid p \<and> p \<noteq> null"
begin

lemma alloc_cases:
  assumes "pool s ps" and "alloc s = (p, s')"
  shows "(p = null \<and> ps = [] \<and> s' = s) \<or> (p \<noteq> null \<and> valid p \<and> p \<notin> set (tl ps) \<and> ps = p # tl ps \<and> pool s' (tl ps))"
proof (cases ps)
  case Nil
  with assms alloc_empty show ?thesis by auto
next
  case (Cons q qs)
  with assms(1) alloc_first obtain t where "alloc s = (q, t)" "pool t qs" by blast
  with assms Cons pool_distinct pool_valid show ?thesis by fastforce
qed

lemma alloc_null_iff: "pool s ps \<Longrightarrow> fst (alloc s) = null \<longleftrightarrow> ps = []"
  using alloc_cases [of s ps "fst (alloc s)" "snd (alloc s)"] by auto

lemma alloc_twice_distinct:
  assumes "pool s ps" "alloc s = (p, s1)" "alloc s1 = (q, s2)" "q \<noteq> null"
  shows "p \<noteq> q"
proof (cases "p = null")
  case False
  with alloc_cases [OF assms(1,2)] have p: "p \<notin> set (tl ps)" "pool s1 (tl ps)" by auto
  from alloc_cases [OF p(2) assms(3)] assms(4) have "q \<in> set (tl ps)" by (metis list.set_intros(1))
  with p(1) show ?thesis by blast
qed (use assms(4) in simp)

lemma alloc_free_roundtrip:
  assumes "pool s ps" "alloc s = (p, s1)" "p \<noteq> null"
  shows "\<exists>s2. free p s1 = Inr s2 \<and> pool s2 ps"
  using alloc_cases [OF assms(1,2)] assms(3) free_back by metis

lemma free_alloc_roundtrip:
  assumes "pool s ps" "valid p" "p \<notin> set ps" "free p s = Inr s1"
  shows "\<exists>s2. alloc s1 = (p, s2) \<and> pool s2 ps"
  using assms free_back alloc_first by (metis sum.inject(2))

end

lemma pool_props:
  assumes "kmem_inv lk s ps"
  shows "distinct ps" and "p \<in> set ps \<Longrightarrow> page_ok lk p \<and> p \<noteq> 0"
  using assms page_ok_nonzero by (auto simp: kmem_inv_def)

interpretation kmem_pool: page_allocator kalloc "kfree lk" "kmem_inv lk" "page_ok lk" 0 for lk
proof unfold_locales
  show "kmem_inv lk s (p # ps) \<Longrightarrow> \<exists>s'. kalloc s = (p, s') \<and> kmem_inv lk s' ps" for s p ps
    using kalloc_Cons by (metis snd_conv)
  show "kmem_inv lk s ps \<Longrightarrow> page_ok lk p \<Longrightarrow> p \<notin> set ps \<Longrightarrow>
      \<exists>s'. kfree lk p s = Inr s' \<and> kmem_inv lk s' (p # ps)" for s ps p
    using kfree_inv [of lk s ps p] by (auto simp: kfree_eq_Inr)
qed (use kalloc_Nil pool_props in blast)+

section \<open>What kinit builds\<close>

lemma page_above:
  assumes "page_aligned p" "page_aligned q" "p \<noteq> q" "p \<le> q"
  shows "unat p + 4096 \<le> unat q"
proof -
  obtain k l where k: "unat p = 4096 * k" and l: "unat q = 4096 * l"
    using assms(1,2) by (metis page_alignedE)
  with assms(3,4) have "k < l"
    by (metis mult_le_cancel1 nat_less_le unat_eqD word_le_nat_alt zero_less_numeral)
  with k l show ?thesis by simp
qed

text \<open>
  Each round adds the page at \<open>p\<close>; when the loop stops, every page from its start up to
  \<open>PHYSTOP\<close> has joined the list, and no other byte of memory has changed.
\<close>

lemma kinit_loop_fills:
  assumes "kmem_inv lk s ps" "page_aligned p" "end_address lk \<le> p" "unat p \<le> unat PHYSTOP"
    and "\<forall>q\<in>set ps. q < p"
  shows "\<exists>s' qs. kinit_loop lk p s = Inr s' \<and> kmem_inv lk s' qs \<and>
           set qs = set ps \<union> {q. page_aligned q \<and> p \<le> q \<and> q < PHYSTOP} \<and>
           (\<forall>x. (\<forall>q\<in>set qs. \<not> in_page q x) \<longrightarrow> memory s' x = memory s x)"
  using assms
proof (induction lk p s arbitrary: ps rule: kinit_loop.induct)
  case (1 lk p s)
  have stop: "page_aligned PHYSTOP" by (simp add: page_aligned_def)
  show ?case
  proof (cases "p + PGSIZE \<le> PHYSTOP")
    case False
    have none: "{q. page_aligned q \<and> p \<le> q \<and> q < PHYSTOP} = {}"
    proof (intro equals0I)
      fix q assume "q \<in> {q. page_aligned q \<and> p \<le> q \<and> q < PHYSTOP}"
      then have "page_aligned q" "p \<le> q" "q < PHYSTOP" by auto
      then have "unat q + 4096 \<le> unat PHYSTOP" using stop by (intro page_above) auto
      with \<open>p \<le> q\<close> False show False
        by (simp add: word_le_nat_alt unat_add64)
    qed
    have "kinit_loop lk p s = Inr s"
      using False by (simp add: kinit_loop.simps [of lk p s])
    with "1.prems"(1) show ?thesis unfolding none by auto
  next
    case True
    have lt: "unat p + 4096 \<le> unat PHYSTOP"
      using True "1.prems"(4) by (simp add: word_le_nat_alt unat_add64)
    then have up: "unat (p + PGSIZE) = unat p + 4096" by (simp add: unat_add64)
    have ok: "page_ok lk p"
      using "1.prems" lt by (simp add: page_ok_def word_less_nat_alt)
    have new: "p \<notin> set ps" using "1.prems"(5) by blast
    obtain s1 where s1: "kfree lk p s = Inr s1" and inv1: "kmem_inv lk s1 (p # ps)"
      using kmem_pool.free_back [OF "1.prems"(1) ok new] by blast
    have "\<exists>s' qs. kinit_loop lk (p + PGSIZE) s1 = Inr s' \<and> kmem_inv lk s' qs \<and>
        set qs = set (p # ps) \<union> {q. page_aligned q \<and> p + PGSIZE \<le> q \<and> q < PHYSTOP} \<and>
        (\<forall>x. (\<forall>q\<in>set qs. \<not> in_page q x) \<longrightarrow> memory s' x = memory s1 x)"
    proof (rule "1.IH" [OF True s1 inv1])
      show "page_aligned (p + PGSIZE)" using "1.prems"(2) up by (simp add: page_aligned_def)
      show "end_address lk \<le> p + PGSIZE" "\<forall>q\<in>set (p # ps). q < p + PGSIZE"
        using "1.prems"(3,5) up by (auto simp: word_le_nat_alt word_less_nat_alt)
      show "unat (p + PGSIZE) \<le> unat PHYSTOP" using lt up by simp
    qed
    then obtain s' qs where r: "kinit_loop lk (p + PGSIZE) s1 = Inr s'" "kmem_inv lk s' qs"
      "set qs = set (p # ps) \<union> {q. page_aligned q \<and> p + PGSIZE \<le> q \<and> q < PHYSTOP}"
      and fr: "\<forall>x. (\<forall>q\<in>set qs. \<not> in_page q x) \<longrightarrow> memory s' x = memory s1 x" by blast
    have split: "{q. page_aligned q \<and> p \<le> q \<and> q < PHYSTOP} =
        insert p {q. page_aligned q \<and> p + PGSIZE \<le> q \<and> q < PHYSTOP}"
      using "1.prems"(2) lt up page_above [of p]
      by (fastforce simp: word_le_nat_alt word_less_nat_alt)
    have "memory s1 x = memory s x" if "\<not> in_page p x" for x
      using s1 that "1.prems"(2) store64_entry_outside [of p 0 x] by (auto simp: kfree_eq_Inr)
    then have "\<forall>x. (\<forall>q\<in>set qs. \<not> in_page q x) \<longrightarrow> memory s' x = memory s x"
      using fr r(3) by auto
    moreover have "set qs = set ps \<union> {q. page_aligned q \<and> p \<le> q \<and> q < PHYSTOP}"
      unfolding split r(3) by auto
    ultimately show ?thesis
      using r(1,2) s1 True by (auto simp: kinit_loop.simps [of lk p s])
  qed
qed

lemma kinit_fills:
  assumes "linked_ok lk" and "free_mem_list s = 0"
  shows "\<exists>s' ps. kinit lk s = Inr s' \<and> kmem_inv lk s' ps \<and> set ps = {p. page_ok lk p} \<and>
           (\<forall>x. (\<forall>p\<in>set ps. \<not> in_page p x) \<longrightarrow> memory s' x = memory s x)"
proof -
  let ?p = "PGROUNDUP (end_address lk)"
  have e: "unat (end_address lk) \<le> 0x88000000"
    using assms(1) by (simp add: linked_ok_def word_le_nat_alt)
  then have u: "unat ?p = 4096 * ((unat (end_address lk) + 4095) div 4096)"
    by (simp add: unat_PGROUNDUP minus_mod_eq_mult_div)
  have al: "page_aligned ?p" by (simp add: page_aligned_def u)
  have ge: "end_address lk \<le> ?p" unfolding word_le_nat_alt u by simp
  have "(unat (end_address lk) + 4095) div 4096 \<le> (0x88000000 + 4095) div 4096"
    using e by (intro div_le_mono) simp
  then have le: "unat ?p \<le> unat PHYSTOP" unfolding u by simp
  have "{p. page_ok lk p} = {q. page_aligned q \<and> ?p \<le> q \<and> q < PHYSTOP}"
  proof -
    have "?p \<le> q" if "page_aligned q" "end_address lk \<le> q" for q
    proof -
      from that(1) obtain k where k: "unat q = 4096 * k" by (rule page_alignedE)
      have "unat (end_address lk) \<le> 4096 * k" using that(2) k by (simp add: word_le_nat_alt)
      then have "(unat (end_address lk) + 4095) div 4096 \<le> (4096 * k + 4095) div 4096"
        by (intro div_le_mono) simp
      then show ?thesis by (simp add: word_le_nat_alt u k)
    qed
    then show ?thesis using ge by (auto simp: page_ok_def)
  qed
  moreover have "kmem_inv lk s []" using assms by (simp add: kmem_inv_def)
  ultimately show ?thesis
    using kinit_loop_fills [OF _ al ge le, of s "[]"] by (auto simp: kinit_def)
qed

section \<open>Properties\<close>

text \<open>
  C26: After \<open>kinit\<close> the free list is well formed and holds exactly the pages that \<open>kfree\<close>
  accepts: every aligned page from \<open>end_address\<close> up to \<open>PHYSTOP\<close>, each of them once.  The loop
  never panics and changes no byte outside those pages.
\<close>

theorem kinit_builds_free_list:
  assumes "linked_ok lk" and "free_mem_list s = 0"
  shows "\<exists>s' ps. kinit lk s = Inr s' \<and> kmem_inv lk s' ps \<and> set ps = {p. page_ok lk p} \<and>
           (\<forall>x. (\<forall>p\<in>set ps. \<not> in_page p x) \<longrightarrow> memory s' x = memory s x)"
  by (rule kinit_fills [OF assms])

definition demo_kmem :: kmem where
  "demo_kmem = \<lparr>memory = (\<lambda>_. 0), console_out = [], free_mem_list = 0\<rparr>"

theorem kinit_builds_free_list_witness:
  "linked_ok demo_symbols \<and> free_mem_list demo_kmem = 0 \<and>
   (\<exists>s' ps. kinit demo_symbols demo_kmem = Inr s' \<and> kmem_inv demo_symbols s' ps \<and>
      set ps = {p. page_ok demo_symbols p})"
proof -
  have h: "free_mem_list demo_kmem = 0" by (simp add: demo_kmem_def)
  then show ?thesis
    using kinit_builds_free_list [OF demo_symbols_linked h] demo_symbols_linked by blast
qed

text \<open>
  \<open>kalloc\<close> hands out the first page of the list, all of it zero, leaves every other byte of
  memory alone and keeps the list well formed; with an empty list it returns 0 and changes
  nothing.
\<close>

theorem kalloc_spec:
  assumes "kmem_inv lk s ps"
  shows "case ps of
      [] \<Rightarrow> kalloc s = (0, s)
    | p # qs \<Rightarrow> (\<exists>s'. kalloc s = (p, s') \<and> p \<noteq> 0 \<and> p \<notin> set qs \<and> kmem_inv lk s' qs \<and>
        (\<forall>x. memory s' x = (if in_page p x then 0 else memory s x)))"
proof (cases ps)
  case Nil
  with assms kalloc_Nil show ?thesis by auto
next
  case (Cons p qs)
  with assms have inv: "kmem_inv lk s (p # qs)" by simp
  show ?thesis
    using kalloc_Cons [OF inv] kmem_inv_Cons [OF inv] by (simp add: Cons zero_page_eq)
qed

text \<open>One free page, the page at \<open>0x87FFE000\<close>.\<close>

definition demo_one_page :: kmem where
  "demo_one_page = demo_kmem\<lparr>free_mem_list := 0x87FFE000\<rparr>"

lemma demo_one_page_inv: "kmem_inv demo_symbols demo_one_page [0x87FFE000]"
proof -
  have "load64 (\<lambda>_. 0) 0x87FFE000 = (0 :: u64)" by (simp add: load_le_def)
  moreover have "page_ok demo_symbols 0x87FFE000"
    by (simp add: page_ok_def page_aligned_def demo_symbols_def)
  ultimately show ?thesis
    by (simp add: kmem_inv_def demo_symbols_linked demo_one_page_def demo_kmem_def)
qed

theorem kalloc_spec_witness:
  "kmem_inv demo_symbols demo_one_page [0x87FFE000] \<and>
   (\<exists>s'. kalloc demo_one_page = (0x87FFE000, s') \<and> kmem_inv demo_symbols s' [] \<and>
      memory s' 0x87FFE123 = 0)"
  using kalloc_spec [OF demo_one_page_inv] demo_one_page_inv
  by (auto simp: in_page_def)

text \<open>
  \<open>kfree\<close> panics exactly for an address that is unaligned, inside the kernel image or at
  or above \<open>PHYSTOP\<close>; otherwise it makes the page the new head of the list, writes nothing
  but the page's first 8 bytes, and \<open>kalloc\<close> would give the same page back.
\<close>

theorem kfree_spec:
  assumes "kmem_inv lk s ps" and "pa \<notin> set ps"
  shows "if page_ok lk pa
    then \<exists>s'. kfree lk pa s = Inr s' \<and> kmem_inv lk s' (pa # ps) \<and>
           (\<forall>x. \<not> unat (x - pa) < 8 \<longrightarrow> memory s' x = memory s x) \<and>
           (\<exists>s2. kalloc s' = (pa, s2) \<and> kmem_inv lk s2 ps)
    else kfree lk pa s = Inl (Panic ''kfree: invalid address'')"
proof (cases "page_ok lk pa")
  case True
  with assms obtain s' where s': "kfree lk pa s = Inr s'" "kmem_inv lk s' (pa # ps)"
    using kmem_pool.free_back by blast
  then have "\<forall>x. \<not> unat (x - pa) < 8 \<longrightarrow> memory s' x = memory s x"
    by (auto simp: kfree_eq_Inr store_le_outside)
  with True s' kmem_pool.free_alloc_roundtrip [OF assms(1) True assms(2) s'(1)]
  show ?thesis by simp
next
  case False
  then have "pa mod PGSIZE \<noteq> 0 \<or> pa < end_address lk \<or> PHYSTOP \<le> pa"
    unfolding page_ok_def page_aligned_mod by (meson not_le)
  with False show ?thesis by (simp only: kfree_def if_True if_False)
qed

theorem kfree_spec_witness:
  "kmem_inv demo_symbols demo_one_page [0x87FFE000] \<and> 0x87FFF000 \<notin> set [0x87FFE000 :: u64] \<and>
   (\<exists>s'. kfree demo_symbols 0x87FFF000 demo_one_page = Inr s' \<and>
      kmem_inv demo_symbols s' [0x87FFF000, 0x87FFE000])"
proof -
  have ok: "page_ok demo_symbols 0x87FFF000"
    by (simp add: page_ok_def page_aligned_def demo_symbols_def)
  have new: "0x87FFF000 \<notin> set [0x87FFE000 :: u64]" by simp
  show ?thesis
    using kfree_spec [OF demo_one_page_inv new] ok demo_one_page_inv by auto
qed

text \<open>
  C27: The allocator does not notice a double free: a page that is released twice in a row is
  handed out by each of the next two \<open>kalloc\<close> calls, so two owners share it.
\<close>

theorem kfree_twice_shares_page:
  assumes "kfree lk pa s = Inr s1" and "pa \<noteq> 0"
  shows "\<exists>s2 s3 s4. kfree lk pa s1 = Inr s2 \<and> kalloc s2 = (pa, s3) \<and> kalloc s3 = (pa, s4)"
proof -
  have "free_mem_list s1 = pa" "page_ok lk pa"
    using assms(1) by (auto simp: kfree_eq_Inr)
  then show ?thesis
    using assms(2) by (simp add: kfree_eq_Inr kalloc_def Let_def)
qed

theorem kfree_twice_shares_page_witness:
  "\<exists>s1 s2 s3 s4. kfree demo_symbols 0x87FFF000 demo_one_page = Inr s1 \<and>
     kfree demo_symbols 0x87FFF000 s1 = Inr s2 \<and>
     kalloc s2 = (0x87FFF000, s3) \<and> kalloc s3 = (0x87FFF000, s4)"
proof -
  obtain s1 where "kfree demo_symbols 0x87FFF000 demo_one_page = Inr s1"
    by (simp add: kfree_def demo_symbols_def)
  then show ?thesis using kfree_twice_shares_page by fastforce
qed

end
