(* ===== verification/Vm.thy ===== *)
theory Vm
  imports Kalloc
begin

text \<open>
  Sv39 page tables, \<open>kernel/mm/vm.c\<close> with the page-table macros of
  \<open>kernel/include/riscv.h\<close>.  Page tables are pages of the physical memory of
  \<^theory_text>\<open>Machine\<close>: \<open>walk\<close> reads and writes their entries and takes new tables from
  \<open>kalloc\<close>.  \<open>table\<close> follows a path of indices through them, \<open>leaf\<close> is the translation they
  describe, and the invariant \<open>pt_inv\<close> says that they form a tree of pages that are neither
  shared nor free.
\<close>

section \<open>Page-table entries\<close>

definition PTE_V :: u64 where [simp]: "PTE_V = 1"
definition PTE_R :: u64 where [simp]: "PTE_R = 2"
definition PTE_W :: u64 where [simp]: "PTE_W = 4"
definition PTE_X :: u64 where [simp]: "PTE_X = 8"
definition PTE_U :: u64 where [simp]: "PTE_U = 16"

definition PX :: "nat \<Rightarrow> u64 \<Rightarrow> u64" where
  "PX level va = drop_bit (12 + 9 * level) va AND 0x1FF"

definition PA2PTE :: "u64 \<Rightarrow> u64" where
  "PA2PTE pa = push_bit 10 (drop_bit 12 pa)"

definition PTE2PA :: "u64 \<Rightarrow> u64" where
  "PTE2PA pte = push_bit 12 (drop_bit 10 pte)"

definition MAKE_SATP :: "u64 \<Rightarrow> u64" where
  "MAKE_SATP pagetable = push_bit 60 8 OR drop_bit 12 pagetable"

section \<open>State and operations\<close>

record vm = kmem +
  kernel_pagetable :: u64
  satp :: u64

text \<open>
  The loop of \<open>walk\<close>, from \<open>level\<close> down to 1.  \<open>None\<close> is an early \<open>return 0\<close>: a table is
  missing and must not, or cannot, be allocated.
\<close>

primrec walk_levels :: "nat \<Rightarrow> u64 \<Rightarrow> u64 \<Rightarrow> bool \<Rightarrow> 'a kmem_scheme \<Rightarrow> u64 option \<times> 'a kmem_scheme" where
  "walk_levels 0 pagetable va alloc s = (Some pagetable, s)"
| "walk_levels (Suc l) pagetable va alloc s =
     (let pte = entry pagetable (unat (PX (Suc l) va)); v = load64 (memory s) pte in
      if v AND PTE_V \<noteq> 0 then walk_levels l (PTE2PA v) va alloc s
      else if \<not> alloc then (None, s)
      else let (p, s1) = kalloc s in
        if p = 0 then (None, s1)
        else let s2 = s1\<lparr>memory := zero_page p (memory s1)\<rparr>;
                 s3 = s2\<lparr>memory := store64 (memory s2) pte (PA2PTE p OR PTE_V)\<rparr>
             in walk_levels l p va alloc s3)"

definition walk :: "u64 \<Rightarrow> u64 \<Rightarrow> bool \<Rightarrow> 'a kmem_scheme \<Rightarrow> (u64 \<times> 'a kmem_scheme) res" where
  "walk pagetable va alloc s =
     (if MAXVA \<le> va then Inl (Panic ''walk: virtual address out of range'')
      else case walk_levels 2 pagetable va alloc s of
        (None, s') \<Rightarrow> Inr (0, s')
      | (Some t, s') \<Rightarrow> Inr (entry t (unat (PX 0 va)), s'))"

text \<open>
  The \<open>for (;;)\<close> of \<open>mappages\<close>.  It ends because \<open>walk\<close> panics once \<open>a\<close> reaches \<open>MAXVA\<close>.  The
  \<open>int\<close> permission is sign extended when it is or-ed into the 64-bit entry.
\<close>

function map_loop :: "u64 \<Rightarrow> u64 \<Rightarrow> u64 \<Rightarrow> u64 \<Rightarrow> i32 \<Rightarrow> 'a kmem_scheme \<Rightarrow> (i32 \<times> 'a kmem_scheme) res" where
  "map_loop pagetable a last_va pa perm s =
     bindE (walk pagetable a True s) (\<lambda>(pte, s1).
       if pte = 0 then Inr (-1, s1)
       else if load64 (memory s1) pte AND PTE_V \<noteq> 0 then Inl (Panic ''mappages: remap'')
       else let s2 = s1\<lparr>memory := store64 (memory s1) pte (PA2PTE pa OR scast perm OR PTE_V)\<rparr> in
         if a = last_va then Inr (0, s2)
         else map_loop pagetable (a + PGSIZE) last_va (pa + PGSIZE) perm s2)"
  by pat_completeness auto
termination
proof (relation "measure (\<lambda>(pagetable, a, last_va, pa, perm, s). 2 ^ 39 - unat a)")
  fix pagetable a last_va pa :: u64 and perm :: i32 and s :: "'a kmem_scheme" and x
  assume "walk pagetable a True s = Inr x"
  then have "a < MAXVA" by (auto simp: walk_def not_le split: if_splits)
  then have "unat a < 2 ^ 38" "unat (a + PGSIZE) = unat a + 4096"
    by (simp_all add: word_less_nat_alt unat_add64)
  then show "((pagetable, a + PGSIZE, last_va, pa + PGSIZE, perm, s2), pagetable, a, last_va, pa, perm, s)
      \<in> measure (\<lambda>(pagetable, a, last_va, pa, perm, s). 2 ^ 39 - unat a)" for s2
    by simp
qed simp

declare map_loop.simps [simp del]

definition mappages :: "u64 \<Rightarrow> u64 \<Rightarrow> u64 \<Rightarrow> u64 \<Rightarrow> i32 \<Rightarrow> 'a kmem_scheme \<Rightarrow> (i32 \<times> 'a kmem_scheme) res" where
  "mappages pagetable pa va sz perm s =
     (if sz = 0 then Inl (Panic ''mappages: size is 0'')
      else map_loop pagetable (PGROUNDDOWN va) (PGROUNDDOWN (va + sz - 1)) pa perm s)"

text \<open>\<open>kvmininit\<close> ignores what the five calls of \<open>mappages\<close> return.\<close>

definition kvmininit :: "symbols \<Rightarrow> 'a vm_scheme \<Rightarrow> 'a vm_scheme res" where
  "kvmininit lk s =
     (let (r, s1) = kalloc s; s2 = s1\<lparr>kernel_pagetable := r\<rparr> in
      if r = 0 then Inl (Panic ''kvmininit: out of memory'')
      else
        bindE (mappages r UART0 UART0 PGSIZE 6 (s2\<lparr>memory := zero_page r (memory s2)\<rparr>)) (\<lambda>(_, s3).
        bindE (mappages r PLIC PLIC 0x400000 6 s3) (\<lambda>(_, s4).
        bindE (mappages r VIRTIO0 VIRTIO0 PGSIZE 6 s4) (\<lambda>(_, s5).
        bindE (mappages r KERNBASE KERNBASE (etext lk - KERNBASE) 10 s5) (\<lambda>(_, s6).
        bindE (mappages r (etext lk) (etext lk) (PHYSTOP - etext lk) 6 s6) (\<lambda>(_, s7).
        Inr s7))))))"

definition kvminithart :: "'a vm_scheme \<Rightarrow> 'a vm_scheme" where
  "kvminithart s = s\<lparr>satp := MAKE_SATP (kernel_pagetable s)\<rparr>"

section \<open>Facts about entries\<close>

lemma pte_valid_iff: "v AND PTE_V \<noteq> 0 \<longleftrightarrow> odd (v :: u64)"
  by (simp add: and_one_eq odd_iff_mod_2_eq_one)

lemma PX_less: "unat (PX l va) < 512"
proof -
  have "PX l va = take_bit 9 (drop_bit (12 + 9 * l) va)"
    by (simp add: PX_def take_bit_eq_mask mask_eq_exp_minus_1)
  then show ?thesis by (simp add: unsigned_take_bit_eq take_bit_nat_less_exp [of 9, simplified])
qed

text \<open>The physical address survives the trip through an entry, whatever the flag bits are.\<close>

lemma PTE2PA_PA2PTE:
  assumes "page_aligned pa" "unat f < 1024"
  shows "PTE2PA (PA2PTE pa OR f) = pa"
proof (rule bit_word_eqI)
  fix n assume "n < LENGTH(64)"
  have f: "f = take_bit 10 f"
    using assms(2) by (intro unat_eqD) (simp add: unsigned_take_bit_eq take_bit_nat_eq_self)
  have "take_bit 12 pa = 0"
    using assms(1) unfolding page_aligned_mod by (simp add: take_bit_eq_mod)
  then have low: "n < 12 \<Longrightarrow> \<not> bit pa n" by (metis bit_0_eq bit_take_bit_iff bot_apply bot_bool_def)
  show "bit (PTE2PA (PA2PTE pa OR f)) n = bit pa n"
    using \<open>n < LENGTH(64)\<close> low
    by (subst f, cases "n < 12") (auto simp: PTE2PA_def PA2PTE_def bit_simps)
qed

section \<open>Page tables as a tree\<close>

text \<open>Index \<open>i\<close> of the table at \<open>t\<close> leads to the table that a valid entry points to.\<close>

definition next_table :: "mem \<Rightarrow> u64 \<Rightarrow> nat \<Rightarrow> u64 option" where
  "next_table m t i =
     (let e = load64 m (entry t i) in if e AND PTE_V \<noteq> 0 then Some (PTE2PA e) else None)"

primrec table :: "mem \<Rightarrow> u64 \<Rightarrow> nat list \<Rightarrow> u64 option" where
  "table m t [] = Some t"
| "table m t (i # is) = (case next_table m t i of None \<Rightarrow> None | Some u \<Rightarrow> table m u is)"

text \<open>What the hardware finds for a virtual address: the valid entry of the last level.\<close>

definition leaf :: "mem \<Rightarrow> u64 \<Rightarrow> u64 \<Rightarrow> u64 option" where
  "leaf m r va =
     (case table m r [unat (PX 2 va), unat (PX 1 va)] of
        None \<Rightarrow> None
      | Some t \<Rightarrow> let e = load64 m (entry t (unat (PX 0 va))) in
          if e AND PTE_V \<noteq> 0 then Some e else None)"

lemma leaf_table:
  "table m r [unat (PX 2 va), unat (PX 1 va)] = Some t \<Longrightarrow>
   leaf m r va = (if load64 m (entry t (unat (PX 0 va))) AND PTE_V \<noteq> 0
     then Some (load64 m (entry t (unat (PX 0 va)))) else None)"
  unfolding leaf_def by (simp only: option.case Let_def)

lemma leaf_no_table:
  "table m r [unat (PX 2 va), unat (PX 1 va)] = None \<Longrightarrow> leaf m r va = None"
  unfolding leaf_def by (simp only: option.case)

lemma leaf_same_index:
  "PX 2 va' = PX 2 va \<Longrightarrow> PX 1 va' = PX 1 va \<Longrightarrow> PX 0 va' = PX 0 va \<Longrightarrow> leaf m r va' = leaf m r va"
  unfolding leaf_def by (simp only:)

definition path_ok :: "nat list \<Rightarrow> bool" where
  "path_ok is \<longleftrightarrow> length is \<le> 2 \<and> (\<forall>i\<in>set is. i < 512)"

text \<open>
  Every table that a path reaches is a page of the allocator's range that is not free, and
  two paths never reach the same one.
\<close>

definition pt_inv :: "symbols \<Rightarrow> 'a kmem_scheme \<Rightarrow> u64 list \<Rightarrow> u64 \<Rightarrow> bool" where
  "pt_inv lk s ps r \<longleftrightarrow> kmem_inv lk s ps \<and>
     (\<forall>is t. path_ok is \<longrightarrow> table (memory s) r is = Some t \<longrightarrow> page_ok lk t \<and> t \<notin> set ps) \<and>
     (\<forall>is js t. path_ok is \<longrightarrow> path_ok js \<longrightarrow>
        table (memory s) r is = Some t \<longrightarrow> table (memory s) r js = Some t \<longrightarrow> is = js)"

lemma table_snoc:
  "table m r (is @ [i]) = (case table m r is of None \<Rightarrow> None | Some t \<Rightarrow> next_table m t i)"
  by (induction "is" arbitrary: r) (auto split: option.splits)

lemma path_ok_snoc: "path_ok (is @ [i]) \<longleftrightarrow> length is \<le> 1 \<and> (\<forall>j\<in>set is. j < 512) \<and> i < 512"
  by (auto simp: path_ok_def)

lemma path_ok_butlast: "path_ok (is @ [i]) \<Longrightarrow> path_ok is"
  by (auto simp: path_ok_def)

lemma pt_inv_kmem: "pt_inv lk s ps r \<Longrightarrow> kmem_inv lk s ps"
  by (simp add: pt_inv_def)

lemma pt_inv_table:
  "pt_inv lk s ps r \<Longrightarrow> path_ok is \<Longrightarrow> table (memory s) r is = Some t \<Longrightarrow>
     page_ok lk t \<and> page_aligned t \<and> t \<notin> set ps"
  by (auto simp: pt_inv_def page_ok_def)

lemma pt_inv_inj:
  "pt_inv lk s ps r \<Longrightarrow> path_ok is \<Longrightarrow> path_ok js \<Longrightarrow>
     table (memory s) r is = Some t \<Longrightarrow> table (memory s) r js = Some t \<Longrightarrow> is = js"
  by (auto simp: pt_inv_def)

lemma pt_inv_same_tables:
  assumes "pt_inv lk s ps r" "kmem_inv lk s' ps'" "set ps' \<subseteq> set ps"
    and "\<And>is. path_ok is \<Longrightarrow> table (memory s') r is = table (memory s) r is"
  shows "pt_inv lk s' ps' r"
  unfolding pt_inv_def
proof (intro conjI allI impI)
  show "kmem_inv lk s' ps'" by (rule assms(2))
next
  fix "is" t assume "path_ok is" "table (memory s') r is = Some t"
  then show "page_ok lk t" "t \<notin> set ps'"
    using assms(3,4) pt_inv_table [OF assms(1), of "is" t] by auto
next
  fix "is" js t
  assume "path_ok is" "path_ok js" "table (memory s') r is = Some t" "table (memory s') r js = Some t"
  then show "is = js" using assms(4) pt_inv_inj [OF assms(1), of "is" js t] by simp
qed

text \<open>Memories that agree on the entries along a path reach the same table by it.\<close>

lemma table_agree:
  assumes "\<And>js t i ks. is = js @ i # ks \<Longrightarrow> table m r js = Some t \<Longrightarrow>
             load64 m' (entry t i) = load64 m (entry t i)"
  shows "table m' r is = table m r is"
  using assms
proof (induction "is" rule: rev_induct)
  case Nil
  then show ?case by simp
next
  case (snoc i js)
  have IH: "table m' r js = table m r js"
    using snoc.prems by (intro snoc.IH) auto
  show ?case
  proof (cases "table m r js")
    case None
    then show ?thesis by (simp add: table_snoc IH)
  next
    case (Some t)
    then have "load64 m' (entry t i) = load64 m (entry t i)"
      using snoc.prems by auto
    then show ?thesis by (simp add: table_snoc IH Some next_table_def)
  qed
qed

lemma leaf_agree:
  assumes "\<And>is. path_ok is \<Longrightarrow> table m' r is = table m r is"
    and "\<And>is t i. path_ok is \<Longrightarrow> length is = 2 \<Longrightarrow> table m r is = Some t \<Longrightarrow> i < 512 \<Longrightarrow>
           load64 m' (entry t i) = load64 m (entry t i)"
  shows "leaf m' r va = leaf m r va"
proof -
  let ?is = "[unat (PX 2 va), unat (PX 1 va)]"
  have ok: "path_ok ?is" by (simp add: path_ok_def PX_less)
  show ?thesis
    unfolding leaf_def assms(1) [OF ok]
    using assms(2) [OF ok] PX_less [of 0 va] by (auto split: option.splits simp: Let_def)
qed

lemma kmem_inv_frame:
  assumes "kmem_inv lk s ps" "\<And>q x. q \<in> set ps \<Longrightarrow> in_page q x \<Longrightarrow> memory s x = m' x"
  shows "kmem_inv lk (s\<lparr>memory := m'\<rparr>) ps"
  using assms free_list_same_pages [OF assms] by (simp add: kmem_inv_def)

lemma path_ok_prefix: "path_ok (js @ ks) \<Longrightarrow> path_ok js"
  by (auto simp: path_ok_def)

text \<open>Clearing a page that is no table changes no table and no translation.\<close>

lemma zero_page_tables:
  assumes inv: "pt_inv lk s ps r" and p: "page_aligned p"
    and fresh: "\<And>is. path_ok is \<Longrightarrow> table (memory s) r is \<noteq> Some p"
  shows "path_ok is \<Longrightarrow> table (zero_page p (memory s)) r is = table (memory s) r is"
    and "leaf (zero_page p (memory s)) r va = leaf (memory s) r va"
proof -
  have same: "load64 (zero_page p (memory s)) (entry t i) = load64 (memory s) (entry t i)"
    if "path_ok js" "table (memory s) r js = Some t" "i < 512" for js t i
    using that fresh pt_inv_table [OF inv] p by (intro load64_zero_page_other) auto
  show T: "table (zero_page p (memory s)) r is = table (memory s) r is" if "path_ok is" for "is"
    using that path_ok_prefix by (intro table_agree same) (auto simp: path_ok_def)
  show "leaf (zero_page p (memory s)) r va = leaf (memory s) r va"
    by (intro leaf_agree T same) auto
qed

text \<open>Writing one entry changes only what lies behind it.\<close>

lemma store_entry_tables:
  assumes inv: "pt_inv lk s ps r" and path: "path_ok p" "i < 512"
    and t: "table (memory s) r p = Some t"
    and m': "m' = store64 (memory s) (entry t i) v"
  shows "path_ok is \<Longrightarrow> (\<And>ks. is \<noteq> p @ i # ks) \<Longrightarrow> table m' r is = table (memory s) r is"
    and "path_ok js \<Longrightarrow> table (memory s) r js = Some u \<Longrightarrow> j < 512 \<Longrightarrow> (js, j) \<noteq> (p, i) \<Longrightarrow>
           load64 m' (entry u j) = load64 (memory s) (entry u j)"
proof -
  have same: "load64 m' (entry u j) = load64 (memory s) (entry u j)"
    if "path_ok js" "table (memory s) r js = Some u" "j < 512" "(js, j) \<noteq> (p, i)" for js u j
    unfolding m'
    using that path pt_inv_table [OF inv] t pt_inv_inj [OF inv that(1) path(1)]
    by (intro load64_entry_other) auto
  then show "path_ok js \<Longrightarrow> table (memory s) r js = Some u \<Longrightarrow> j < 512 \<Longrightarrow> (js, j) \<noteq> (p, i) \<Longrightarrow>
      load64 m' (entry u j) = load64 (memory s) (entry u j)" .
  assume ok: "path_ok is" and off: "\<And>ks. is \<noteq> p @ i # ks"
  show "table m' r is = table (memory s) r is"
  proof (intro table_agree same)
    fix js u j ks assume "is = js @ j # ks" "table (memory s) r js = Some u"
    with ok off show "path_ok js" "table (memory s) r js = Some u" "j < 512" "(js, j) \<noteq> (p, i)"
      by (auto simp: path_ok_def)
  qed
qed

lemma store_entry_free_pages:
  assumes inv: "pt_inv lk s ps r" and path: "path_ok p" "i < 512"
    and t: "table (memory s) r p = Some t"
  shows "kmem_inv lk (s\<lparr>memory := store64 (memory s) (entry t i) v\<rparr>) ps"
proof (rule kmem_inv_frame [OF pt_inv_kmem [OF inv]])
  fix q x assume q: "q \<in> set ps" "in_page q x"
  have "page_aligned q"
    using q(1) pool_props(2) [OF pt_inv_kmem [OF inv]] page_ok_aligned by blast
  then have "\<not> in_page t x"
    using pt_inv_table [OF inv path(1) t] q in_page_unique by blast
  then show "memory s x = store64 (memory s) (entry t i) v x"
    using store64_entry_outside pt_inv_table [OF inv path(1) t] path(2) by simp
qed

text \<open>An entry of the last level: no table moves, and one page gets a new translation.\<close>

lemma store_leaf:
  assumes inv: "pt_inv lk s ps r"
    and t: "table (memory s) r [unat (PX 2 va), unat (PX 1 va)] = Some t"
    and m': "m' = store64 (memory s) (entry t (unat (PX 0 va))) e"
  shows "pt_inv lk (s\<lparr>memory := m'\<rparr>) ps r"
    and "path_ok is \<Longrightarrow> table m' r is = table (memory s) r is"
    and "leaf m' r va' = (if PX 2 va' = PX 2 va \<and> PX 1 va' = PX 1 va \<and> PX 0 va' = PX 0 va
           then if e AND PTE_V \<noteq> 0 then Some e else None else leaf (memory s) r va')"
proof -
  let ?p = "[unat (PX 2 va), unat (PX 1 va)]" and ?i = "unat (PX 0 va)"
  have p: "path_ok ?p" "?i < 512" by (simp_all add: path_ok_def PX_less)
  note st = store_entry_tables [OF inv p t m']
  show T: "table m' r is = table (memory s) r is" if "path_ok is" for "is"
    using that by (intro st(1)) (auto simp: path_ok_def)
  show "pt_inv lk (s\<lparr>memory := m'\<rparr>) ps r"
    by (rule pt_inv_same_tables [OF inv])
      (use store_entry_free_pages [OF inv p t] m' T in simp_all)
  let ?q = "[unat (PX 2 va'), unat (PX 1 va')]"
  have q: "path_ok ?q" by (simp add: path_ok_def PX_less)
  show "leaf m' r va' = (if PX 2 va' = PX 2 va \<and> PX 1 va' = PX 1 va \<and> PX 0 va' = PX 0 va
      then if e AND PTE_V \<noteq> 0 then Some e else None else leaf (memory s) r va')"
  proof (cases "(?q, unat (PX 0 va')) = (?p, ?i)")
    case True
    then have eq: "PX 2 va' = PX 2 va \<and> PX 1 va' = PX 1 va \<and> PX 0 va' = PX 0 va"
      by (auto intro: unat_eqD)
    then have "leaf m' r va' = leaf m' r va" by (blast intro: leaf_same_index)
    with eq leaf_table [OF T [OF p(1), unfolded t]] show ?thesis by (simp add: m')
  next
    case False
    then have "load64 m' (entry u (unat (PX 0 va'))) = load64 (memory s) (entry u (unat (PX 0 va')))"
      if "table (memory s) r ?q = Some u" for u
      using st(2) [OF q that PX_less] by blast
    then have "leaf m' r va' = leaf (memory s) r va'"
      unfolding leaf_def T [OF q] by (simp split: option.splits)
    with False show ?thesis by auto
  qed
qed

text \<open>
  The allocating step of \<open>walk\<close>: the first free page, cleared, becomes the table behind an
  invalid entry.  Nothing is behind the new table yet, so no translation changes.
\<close>

lemma link_table:
  assumes inv: "pt_inv lk s ps r" and path: "path_ok (p @ [i])"
    and t: "table (memory s) r p = Some t" and unused: "next_table (memory s) t i = None"
    and new: "page_ok lk p0" "p0 \<notin> set ps"
      "\<And>is. path_ok is \<Longrightarrow> table (memory s) r is \<noteq> Some p0"
      "\<And>j. j < 512 \<Longrightarrow> load64 (memory s) (entry p0 j) = 0"
    and m': "m' = store64 (memory s) (entry t i) (PA2PTE p0 OR PTE_V)"
  shows "pt_inv lk (s\<lparr>memory := m'\<rparr>) ps r"
    and "table m' r (p @ [i]) = Some p0"
    and "path_ok is \<Longrightarrow> table m' r is = (if is = p @ [i] then Some p0 else table (memory s) r is)"
    and "leaf m' r va = leaf (memory s) r va"
proof -
  have p: "path_ok p" "i < 512" using path by (auto simp: path_ok_def)
  have al: "page_aligned t" "page_aligned p0" "t \<noteq> p0"
    using pt_inv_table [OF inv p(1) t] page_ok_aligned [OF new(1)] new(3) [OF p(1)] t by auto
  note st = store_entry_tables [OF inv p t m']
  have e: "load64 m' (entry t i) = PA2PTE p0 OR PTE_V" by (simp add: m')
  have "(PA2PTE p0 OR PTE_V) AND PTE_V \<noteq> 0"
    unfolding pte_valid_iff by (simp add: even_or_iff)
  then have nt: "next_table m' t i = Some p0"
    using PTE2PA_PA2PTE [OF al(2), of PTE_V] by (simp only: next_table_def e Let_def) simp
  have tp: "table m' r p = Some t"
    using st(1) [OF p(1)] t by auto
  then show here: "table m' r (p @ [i]) = Some p0"
    by (simp add: table_snoc nt)
  have empty: "next_table m' p0 j = None" if "j < 512" for j
    using new(4) [OF that] al p(2) that by (simp add: next_table_def m' load64_entry_other)
  have behind: "table m' r (p @ i # ks) = (if ks = [] then Some p0 else None)"
    if "path_ok (p @ i # ks)" for ks
  proof (cases ks)
    case Nil
    then show ?thesis using here by simp
  next
    case (Cons j ks')
    have "table m' r ((p @ [i]) @ [j]) = None"
      unfolding table_snoc [of m' r "p @ [i]" j] here
      using that Cons empty [of j] by (simp add: path_ok_def)
    moreover have "ks' = []" using that Cons by (auto simp: path_ok_def)
    ultimately show ?thesis by (simp add: Cons)
  qed
  have was: "table (memory s) r (p @ i # ks) = None" for ks
    using t unused by (induction p arbitrary: r) (auto split: option.splits)
  have T: "table m' r is = (if is = p @ [i] then Some p0 else table (memory s) r is)"
    if "path_ok is" for "is"
  proof (cases "\<exists>ks. is = p @ i # ks")
    case True
    then obtain ks where "is = p @ i # ks" by blast
    with that behind was show ?thesis by simp
  next
    case False
    with st(1) [OF that] show ?thesis by auto
  qed
  show "table m' r is = (if is = p @ [i] then Some p0 else table (memory s) r is)"
    if "path_ok is" for "is" using that by (rule T)
  have "kmem_inv lk (s\<lparr>memory := m'\<rparr>) ps"
    unfolding m' by (rule store_entry_free_pages [OF inv p t])
  then show "pt_inv lk (s\<lparr>memory := m'\<rparr>) ps r"
    using inv new(1-3) unfolding pt_inv_def by (auto simp: T split: if_splits)
  show "leaf m' r va = leaf (memory s) r va"
  proof -
    let ?q = "[unat (PX 2 va), unat (PX 1 va)]"
    have q: "path_ok ?q" by (simp add: path_ok_def PX_less)
    show ?thesis
    proof (cases "?q = p @ [i]")
      case True
      have "load64 m' (entry p0 (unat (PX 0 va))) = 0"
        using new(4) [OF PX_less] al p(2) PX_less by (simp add: m' load64_entry_other)
      moreover have "table m' r ?q = Some p0" unfolding True by (rule here)
      moreover have "table (memory s) r ?q = None" unfolding True using was [of "[]"] by simp
      ultimately show ?thesis by (simp add: leaf_table leaf_no_table)
    next
      case False
      have "load64 m' (entry u (unat (PX 0 va))) = load64 (memory s) (entry u (unat (PX 0 va)))"
        if "table (memory s) r ?q = Some u" for u
      proof (rule st(2) [OF q that PX_less])
        show "(?q, unat (PX 0 va)) \<noteq> (p, i)" using path by (auto simp: path_ok_def)
      qed
      moreover have "table m' r ?q = table (memory s) r ?q"
        using False by (simp only: T [OF q] if_False)
      ultimately show ?thesis
        by (cases "table (memory s) r ?q") (simp_all only: leaf_table leaf_no_table)
    qed
  qed
qed

section \<open>walk\<close>

text \<open>The indices \<open>walk\<close> follows from level \<open>l\<close> down to level 1.\<close>

primrec walk_path :: "nat \<Rightarrow> u64 \<Rightarrow> nat list" where
  "walk_path 0 va = []"
| "walk_path (Suc l) va = unat (PX (Suc l) va) # walk_path l va"

text \<open>A page that is neither free nor a table: one that some other part of the kernel owns.\<close>

definition owned_elsewhere :: "'a kmem_scheme \<Rightarrow> u64 list \<Rightarrow> u64 \<Rightarrow> u64 \<Rightarrow> bool" where
  "owned_elsewhere s ps r q \<longleftrightarrow> page_aligned q \<and> q \<notin> set ps \<and>
     (\<forall>is. path_ok is \<longrightarrow> table (memory s) r is \<noteq> Some q)"

text \<open>What a call that only grows the tree guarantees.\<close>

definition tree_grows :: "symbols \<Rightarrow> u64 \<Rightarrow> 'a kmem_scheme \<Rightarrow> u64 list \<Rightarrow> 'a kmem_scheme \<Rightarrow> u64 list \<Rightarrow> bool" where
  "tree_grows lk r s ps s' ps' \<longleftrightarrow> pt_inv lk s' ps' r \<and> set ps' \<subseteq> set ps \<and>
     (\<forall>q. owned_elsewhere s ps r q \<longrightarrow> owned_elsewhere s' ps' r q \<and>
        (\<forall>x. in_page q x \<longrightarrow> memory s' x = memory s x))"

lemma tree_grows_trans:
  "tree_grows lk r s ps s1 ps1 \<Longrightarrow> tree_grows lk r s1 ps1 s2 ps2 \<Longrightarrow> tree_grows lk r s ps s2 ps2"
  unfolding tree_grows_def by (metis subset_trans)

lemma tree_grows_refl: "pt_inv lk s ps r \<Longrightarrow> tree_grows lk r s ps s ps"
  by (simp add: tree_grows_def)

text \<open>\<open>kalloc\<close> takes a page out of the pool; the tree does not move.\<close>

lemma kalloc_tree:
  assumes inv: "pt_inv lk s (p0 # ps) r" and k: "kalloc s = (p, s1)"
  shows "p = p0" "tree_grows lk r s (p0 # ps) s1 ps" "leaf (memory s1) r va = leaf (memory s) r va"
    and "page_ok lk p0" "p0 \<noteq> 0" "p0 \<notin> set ps" "memory s1 = zero_page p0 (memory s)"
    and "path_ok is \<Longrightarrow> table (memory s1) r is = table (memory s) r is"
    and "path_ok is \<Longrightarrow> table (memory s) r is \<noteq> Some p0"
proof -
  note kinv = pt_inv_kmem [OF inv]
  note c = kmem_inv_Cons [OF kinv] and kc = kalloc_Cons [OF kinv]
  show "p = p0" and m1: "memory s1 = zero_page p0 (memory s)"
    using k kc(1) by auto
  show ok: "page_ok lk p0" "p0 \<noteq> 0" "p0 \<notin> set ps" by (fact c)+
  show fresh: "table (memory s) r is \<noteq> Some p0" if "path_ok is" for "is"
    using pt_inv_table [OF inv that] by fastforce
  note z = zero_page_tables [OF inv page_ok_aligned [OF ok(1)] fresh]
  show T: "table (memory s1) r is = table (memory s) r is" if "path_ok is" for "is"
    using z(1) [OF _ that] by (simp add: m1)
  show "leaf (memory s1) r va = leaf (memory s) r va"
    using z(2) by (simp add: m1)
  have "kmem_inv lk s1 ps" using kc(2) k by simp
  then have "pt_inv lk s1 ps r"
    by (rule pt_inv_same_tables [OF inv]) (auto simp: T)
  moreover have "memory s1 x = memory s x" if "owned_elsewhere s (p0 # ps) r q" "in_page q x" for q x
    using that in_page_unique page_ok_aligned [OF ok(1)]
    by (auto simp: m1 zero_page_eq owned_elsewhere_def)
  ultimately show "tree_grows lk r s (p0 # ps) s1 ps"
    by (auto simp: tree_grows_def owned_elsewhere_def T)
qed

lemma link_tree:
  assumes inv: "pt_inv lk s (p0 # ps) r" and path: "path_ok (path @ [i])"
    and t: "table (memory s) r path = Some t" and unused: "next_table (memory s) t i = None"
    and k: "kalloc s = (p0, s1)"
    and m': "m' = store64 (zero_page p0 (memory s1)) (entry t i) (PA2PTE p0 OR PTE_V)"
  shows "tree_grows lk r s (p0 # ps) (s1\<lparr>memory := m'\<rparr>) ps"
    and "table m' r (path @ [i]) = Some p0"
    and "leaf m' r va = leaf (memory s) r va"
proof -
  note kt = kalloc_tree [OF inv k]
  have p: "path_ok path" "i < 512" using path by (auto simp: path_ok_def)
  have al: "page_aligned t" "t \<noteq> p0"
    using pt_inv_table [OF inv p(1) t] by auto
  have inv1: "pt_inv lk s1 ps r" using kt(2) by (simp add: tree_grows_def)
  have t1: "table (memory s1) r path = Some t" using kt(8) [OF p(1)] t by simp
  have zz: "zero_page p0 (memory s1) = memory s1" by (auto simp: kt(7) zero_page_eq)
  have u1: "next_table (memory s1) t i = None"
    using unused load64_zero_page_other [OF page_ok_aligned [OF kt(4)] al p(2)]
    by (simp add: next_table_def kt(7))
  have fresh: "table (memory s1) r is \<noteq> Some p0" if "path_ok is" for "is"
    using kt(8,9) [OF that] by simp
  have zero: "load64 (memory s1) (entry p0 j) = 0" if "j < 512" for j
    using load64_zero_page [OF page_ok_aligned [OF kt(4)] that] by (simp add: kt(7))
  note lt = link_table [OF inv1 path t1 u1 kt(4) kt(6) fresh zero m' [unfolded zz]]
  show "table m' r (path @ [i]) = Some p0" by (rule lt(2))
  show "leaf m' r va = leaf (memory s) r va" using lt(4) kt(3) by simp
  have out: "m' x = memory s1 x" if "owned_elsewhere s1 ps r q" "in_page q x" for q x
  proof -
    have "\<not> in_page t x"
      using that al(1) t1 p(1) in_page_unique by (auto simp: owned_elsewhere_def)
    then show ?thesis
      using store64_entry_outside [OF al(1) p(2)] by (simp add: m' zz)
  qed
  have "owned_elsewhere (s1\<lparr>memory := m'\<rparr>) ps r q" if "owned_elsewhere s (p0 # ps) r q" for q
    using that lt(3) kt(8) by (auto simp: owned_elsewhere_def)
  with lt(1) kt(2) out show "tree_grows lk r s (p0 # ps) (s1\<lparr>memory := m'\<rparr>) ps"
    by (auto simp: tree_grows_def)
qed

lemma walk_levels_grows:
  assumes "pt_inv lk s ps r" "table (memory s) r path = Some pt" "length path + l = 2"
    "\<forall>i\<in>set path. i < 512" "walk_levels l pt va True s = (res, s')"
  shows "\<exists>ps'. tree_grows lk r s ps s' ps' \<and> (\<forall>va'. leaf (memory s') r va' = leaf (memory s) r va') \<and>
           (case res of None \<Rightarrow> ps' = [] | Some t \<Rightarrow> table (memory s') r (path @ walk_path l va) = Some t)"
  using assms
proof (induction l arbitrary: pt path s ps)
  case 0
  then have "res = Some pt" "s' = s" "tree_grows lk r s ps s ps"
    by (simp_all add: tree_grows_refl)
  with "0.prems"(2) show ?case by (intro exI [of _ ps]) simp
next
  case (Suc l)
  let ?i = "unat (PX (Suc l) va)" and ?e = "load64 (memory s) (entry pt (unat (PX (Suc l) va)))"
  have path: "path_ok (path @ [?i])"
    using Suc.prems(3,4) PX_less [of "Suc l" va] by (auto simp: path_ok_def)
  have len: "length (path @ [?i]) + l = 2" and bound: "\<forall>i\<in>set (path @ [?i]). i < 512"
    using Suc.prems(3,4) PX_less [of "Suc l" va] by auto
  have app: "(path @ [?i]) @ walk_path l va = path @ walk_path (Suc l) va" by simp
  show ?case
  proof (cases "?e AND PTE_V \<noteq> 0")
    case True
    have "table (memory s) r (path @ [?i]) = Some (PTE2PA ?e)"
      using True Suc.prems(2) by (simp add: table_snoc next_table_def)
    moreover have "walk_levels l (PTE2PA ?e) va True s = (res, s')"
      using True Suc.prems(5) by (simp add: Let_def)
    ultimately show ?thesis
      using Suc.IH [OF Suc.prems(1) _ len bound] unfolding app by blast
  next
    case False
    obtain p s1 where k: "kalloc s = (p, s1)" by fastforce
    show ?thesis
    proof (cases ps)
      case Nil
      then have "kalloc s = (0, s)" using kalloc_Nil pt_inv_kmem [OF Suc.prems(1)] by simp
      then have "res = None" "s' = s" using False Suc.prems(5) by (simp_all add: Let_def)
      with Nil Suc.prems(1) show ?thesis by (auto intro: tree_grows_refl)
    next
      case (Cons p0 ps1)
      have inv: "pt_inv lk s (p0 # ps1) r" using Suc.prems(1) Cons by simp
      have k0: "kalloc s = (p0, s1)" and nz: "p0 \<noteq> 0"
        using kalloc_tree(1,5) [OF inv k] k by simp_all
      define m' where "m' = store64 (zero_page p0 (memory s1)) (entry pt ?i) (PA2PTE p0 OR PTE_V)"
      have unused: "next_table (memory s) pt ?i = None"
        using False by (simp add: next_table_def)
      note link = link_tree [OF inv path Suc.prems(2) unused k0 m'_def]
      have w: "walk_levels l p0 va True (s1\<lparr>memory := m'\<rparr>) = (res, s')"
        using Suc.prems(5) False k0 nz by (simp add: Let_def m'_def)
      have "pt_inv lk (s1\<lparr>memory := m'\<rparr>) ps1 r" using link(1) by (simp add: tree_grows_def)
      from Suc.IH [OF this _ len bound w] link(2)
      obtain ps' where "tree_grows lk r (s1\<lparr>memory := m'\<rparr>) ps1 s' ps'"
        "\<forall>va'. leaf (memory s') r va' = leaf m' r va'"
        "case res of None \<Rightarrow> ps' = [] | Some t \<Rightarrow> table (memory s') r ((path @ [?i]) @ walk_path l va) = Some t"
        by auto
      then show ?thesis
        using tree_grows_trans [OF link(1)] link(3) unfolding app Cons by auto
    qed
  qed
qed

lemma table_entry_nonzero:
  assumes "pt_inv lk s ps r" "path_ok is" "table (memory s) r is = Some t" "i < 512"
  shows "entry t i \<noteq> 0"
proof -
  have "page_aligned t" "t \<noteq> 0"
    using pt_inv_table [OF assms(1-3)] page_ok_nonzero pt_inv_kmem [OF assms(1)]
    by (auto simp: kmem_inv_def)
  then have "unat (entry t i) \<noteq> 0"
    using assms(4) by (simp add: unat_entry unsigned_eq_0_iff)
  then show ?thesis by auto
qed

lemma walk_grows:
  assumes inv: "pt_inv lk s ps r" and va: "va < MAXVA"
  shows "\<exists>pte s' ps'. walk r va True s = Inr (pte, s') \<and> tree_grows lk r s ps s' ps' \<and>
           (\<forall>va'. leaf (memory s') r va' = leaf (memory s) r va') \<and>
           (if pte = 0 then ps' = []
            else \<exists>t. table (memory s') r [unat (PX 2 va), unat (PX 1 va)] = Some t \<and>
                   pte = entry t (unat (PX 0 va)))"
proof -
  obtain res s' where w: "walk_levels 2 r va True s = (res, s')" by fastforce
  have wp: "[] @ walk_path 2 va = [unat (PX 2 va), unat (PX 1 va)]"
    by (simp add: numeral_2_eq_2)
  from walk_levels_grows [OF inv _ _ _ w, of "[]"]
  obtain ps' where g: "tree_grows lk r s ps s' ps'" "\<forall>va'. leaf (memory s') r va' = leaf (memory s) r va'"
    "case res of None \<Rightarrow> ps' = []
      | Some t \<Rightarrow> table (memory s') r [unat (PX 2 va), unat (PX 1 va)] = Some t"
    unfolding wp by auto
  show ?thesis
  proof (cases res)
    case None
    with w va g show ?thesis by (auto simp: walk_def)
  next
    case (Some t)
    have "pt_inv lk s' ps' r" using g(1) by (simp add: tree_grows_def)
    then have "entry t (unat (PX 0 va)) \<noteq> 0"
      using g(3) Some PX_less table_entry_nonzero [of lk s' ps' r "[unat (PX 2 va), unat (PX 1 va)]"]
      by (auto simp: path_ok_def)
    moreover have "walk r va True s = Inr (entry t (unat (PX 0 va)), s')"
      using w va Some by (simp add: walk_def)
    ultimately show ?thesis using g Some by auto
  qed
qed

section \<open>Pages of virtual addresses\<close>

lemma unat_PX: "unat (PX l va) = unat va div 2 ^ (12 + 9 * l) mod 512"
proof -
  have "PX l va = take_bit 9 (drop_bit (12 + 9 * l) va)"
    by (simp add: PX_def take_bit_eq_mask mask_eq_exp_minus_1)
  then have "unat (PX l va) = take_bit 9 (drop_bit (12 + 9 * l) (unat va))"
    by (simp only: unsigned_take_bit_eq unat_drop_bit_eq)
  then show ?thesis by (simp only: take_bit_eq_mod drop_bit_eq_div) simp
qed

text \<open>Below \<open>MAXVA\<close> the three indices are the page number.\<close>

lemma same_index_iff:
  assumes "va < MAXVA" "va' < MAXVA"
  shows "PX 2 va' = PX 2 va \<and> PX 1 va' = PX 1 va \<and> PX 0 va' = PX 0 va \<longleftrightarrow>
           unat va' div 4096 = unat va div 4096"
proof -
  let ?v = "unat va div 4096" and ?w = "unat va' div 4096"
  have px: "unat (PX 0 x) = unat x div 4096 mod 512"
    "unat (PX 1 x) = unat x div 4096 div 512 mod 512"
    "unat (PX 2 x) = unat x div 4096 div 512 div 512 mod 512" for x
    by (simp_all add: unat_PX div_mult2_eq [symmetric])
  have lt: "?v div 512 div 512 < 512" "?w div 512 div 512 < 512"
    using assms by (simp_all add: word_less_nat_alt div_less_iff_less_mult)
  have "?v = ?w" if "?v mod 512 = ?w mod 512" "?v div 512 mod 512 = ?w div 512 mod 512"
    "?v div 512 div 512 mod 512 = ?w div 512 div 512 mod 512"
  proof -
    have "?v div 512 div 512 = ?w div 512 div 512" using that(3) lt by simp
    with that(2) have "?v div 512 = ?w div 512" by (metis div_mult_mod_eq)
    with that(1) show ?thesis by (metis div_mult_mod_eq)
  qed
  then show ?thesis
    unfolding word_unat_eq_iff px by metis
qed

section \<open>mappages\<close>

text \<open>The entry \<open>mappages\<close> writes for the page of \<open>va\<close> in a range that starts at \<open>a\<close>.\<close>

definition map_entry :: "u64 \<Rightarrow> u64 \<Rightarrow> i32 \<Rightarrow> u64 \<Rightarrow> u64" where
  "map_entry a pa perm va = PA2PTE (pa + (PGROUNDDOWN va - a)) OR scast perm OR PTE_V"

lemma map_entry_next: "map_entry (a + PGSIZE) (pa + PGSIZE) perm va = map_entry a pa perm va"
  by (simp add: map_entry_def algebra_simps)

lemma entry_is_valid: "(x OR y OR PTE_V) AND PTE_V \<noteq> (0 :: u64)"
  unfolding pte_valid_iff by (simp add: even_or_iff)

lemma PGROUNDDOWN_page:
  assumes "page_aligned a" "unat va div 4096 = unat a div 4096"
  shows "PGROUNDDOWN va = a"
proof (rule unat_eqD)
  have "unat a mod 4096 = 0" using assms(1) by (simp add: page_aligned_def)
  then have "unat a = unat a div 4096 * 4096" by (metis add.right_neutral div_mult_mod_eq)
  then show "unat (PGROUNDDOWN va) = unat a"
    using assms(2) by (simp add: unat_PGROUNDDOWN minus_mod_eq_div_mult)
qed

text \<open>One round of the loop when the page is not mapped yet.\<close>

lemma map_round:
  assumes inv: "pt_inv lk s ps r" and a: "a < MAXVA" "page_aligned a"
    and free: "leaf (memory s) r a = None" and w: "walk r a True s = Inr (pte, s1)" and pte: "pte \<noteq> 0"
    and s2: "s2 = s1\<lparr>memory := store64 (memory s1) pte (PA2PTE pa OR scast perm OR PTE_V)\<rparr>"
  shows "load64 (memory s1) pte AND PTE_V = 0"
    and "\<exists>ps'. tree_grows lk r s ps s2 ps'"
    and "va < MAXVA \<Longrightarrow> leaf (memory s2) r va =
           (if unat va div 4096 = unat a div 4096 then Some (map_entry a pa perm va)
            else leaf (memory s) r va)"
proof -
  obtain ps' t where g: "tree_grows lk r s ps s1 ps'"
    and same: "\<And>va'. leaf (memory s1) r va' = leaf (memory s) r va'"
    and t: "table (memory s1) r [unat (PX 2 a), unat (PX 1 a)] = Some t"
    and p: "pte = entry t (unat (PX 0 a))"
    using walk_grows [OF inv a(1)] w pte by auto
  have inv1: "pt_inv lk s1 ps' r" using g by (simp add: tree_grows_def)
  show "load64 (memory s1) pte AND PTE_V = 0"
    using free same [of a] leaf_table [OF t] unfolding p by (metis option.distinct(1))
  note st = store_leaf [OF inv1 t, of "memory s2" "PA2PTE pa OR scast perm OR PTE_V"]
  have m2: "memory s2 = store64 (memory s1) (entry t (unat (PX 0 a))) (PA2PTE pa OR scast perm OR PTE_V)"
    by (simp add: s2 p)
  have al: "page_aligned t"
    using pt_inv_table [OF inv1 _ t] by (simp add: path_ok_def PX_less)
  have out: "memory s2 x = memory s1 x" if "owned_elsewhere s1 ps' r q" "in_page q x" for q x
  proof -
    have "path_ok [unat (PX 2 a), unat (PX 1 a)]" by (simp add: path_ok_def PX_less)
    with that(1) t have "page_aligned q" "q \<noteq> t" unfolding owned_elsewhere_def by blast+
    with al that(2) have "\<not> in_page t x" using in_page_unique by blast
    then show ?thesis using store64_entry_outside [OF al PX_less] by (simp add: m2)
  qed
  have "s1\<lparr>memory := memory s2\<rparr> = s2" by (simp add: s2)
  then have "tree_grows lk r s1 ps' s2 ps'"
    using st(1,2) [OF m2] out by (simp add: tree_grows_def owned_elsewhere_def)
  then show "\<exists>ps'. tree_grows lk r s ps s2 ps'" using tree_grows_trans [OF g] by blast
  assume va: "va < MAXVA"
  have "PGROUNDDOWN va = a" if "unat va div 4096 = unat a div 4096"
    using PGROUNDDOWN_page [OF a(2) that] .
  then show "leaf (memory s2) r va =
      (if unat va div 4096 = unat a div 4096 then Some (map_entry a pa perm va)
       else leaf (memory s) r va)"
    unfolding st(3) [OF m2] same_index_iff [OF a(1) va] same
    by (simp only: entry_is_valid if_True map_entry_def) simp
qed

text \<open>
  What the loop guarantees for a range that starts at \<open>a\<close> and ends before \<open>e\<close>: it returns 0
  with every page of the range mapped, or -1 with no page left to allocate; addresses
  outside the range keep their translation either way.
\<close>

definition maps_range :: "symbols \<Rightarrow> u64 \<Rightarrow> u64 \<Rightarrow> nat \<Rightarrow> u64 \<Rightarrow> i32 \<Rightarrow> 'a kmem_scheme \<Rightarrow> u64 list \<Rightarrow>
    (i32 \<times> 'a kmem_scheme) res \<Rightarrow> bool" where
  "maps_range lk r a e pa perm s ps res \<longleftrightarrow>
     (\<exists>rv s' ps'. res = Inr (rv, s') \<and> tree_grows lk r s ps s' ps' \<and> (rv = 0 \<or> rv = -1 \<and> ps' = []) \<and>
        (\<forall>va. va < MAXVA \<longrightarrow> unat a \<le> unat va \<and> unat va < e \<longrightarrow> rv = 0 \<longrightarrow>
           leaf (memory s') r va = Some (map_entry a pa perm va)) \<and>
        (\<forall>va. va < MAXVA \<longrightarrow> \<not> (unat a \<le> unat va \<and> unat va < e) \<longrightarrow>
           leaf (memory s') r va = leaf (memory s) r va))"

lemma same_page_iff:
  "page_aligned a \<Longrightarrow> unat va div 4096 = unat a div 4096 \<longleftrightarrow> unat a \<le> unat va \<and> unat va < unat a + 4096"
  by (erule page_alignedE) auto

lemma map_loop_round:
  fixes s :: "'a kmem_scheme"
  assumes inv: "pt_inv lk s ps r" and al: "page_aligned a" and lt: "unat a < 2 ^ 38"
    and free: "leaf (memory s) r a = None" and e: "unat a + 4096 \<le> e"
    and last: "a = last_va \<Longrightarrow> e = unat a + 4096"
    and more: "\<And>(s2 :: 'a kmem_scheme) ps2. a \<noteq> last_va \<Longrightarrow> pt_inv lk s2 ps2 r \<Longrightarrow>
      (\<And>va. va < MAXVA \<Longrightarrow> leaf (memory s2) r va =
         (if unat va div 4096 = unat a div 4096 then Some (map_entry a pa perm va)
          else leaf (memory s) r va)) \<Longrightarrow>
      maps_range lk r (a + PGSIZE) e (pa + PGSIZE) perm s2 ps2
        (map_loop r (a + PGSIZE) last_va (pa + PGSIZE) perm s2)"
  shows "maps_range lk r a e pa perm s ps (map_loop r a last_va pa perm s)"
proof -
  have a: "a < MAXVA" using lt by (simp add: word_less_nat_alt)
  obtain pte s1 ps1 where w: "walk r a True s = Inr (pte, s1)" and g: "tree_grows lk r s ps s1 ps1"
    and same: "\<And>va'. leaf (memory s1) r va' = leaf (memory s) r va'" and oom: "pte = 0 \<Longrightarrow> ps1 = []"
    using walk_grows [OF inv a] by auto
  show ?thesis
  proof (cases "pte = 0")
    case True
    then have "map_loop r a last_va pa perm s = Inr (-1, s1)"
      by (simp add: map_loop.simps [of r a] w)
    with g same oom True show ?thesis unfolding maps_range_def by auto
  next
    case False
    define s2 where "s2 = s1\<lparr>memory := store64 (memory s1) pte (PA2PTE pa OR scast perm OR PTE_V)\<rparr>"
    note round = map_round [OF inv a al free w False s2_def]
    obtain ps2 where g2: "tree_grows lk r s ps s2 ps2" using round(2) by blast
    have ml: "map_loop r a last_va pa perm s =
        (if a = last_va then Inr (0, s2) else map_loop r (a + PGSIZE) last_va (pa + PGSIZE) perm s2)"
      using w False round(1) by (simp add: map_loop.simps [of r a] s2_def)
    show ?thesis
    proof (cases "a = last_va")
      case True
      then show ?thesis
        using g2 round(3) last same_page_iff [OF al] unfolding ml maps_range_def by auto
    next
      case neq: False
      have up: "unat (a + PGSIZE) = unat a + 4096" using lt by (simp add: unat_add64)
      have "pt_inv lk s2 ps2 r" using g2 by (simp add: tree_grows_def)
      from more [OF neq this round(3)] obtain rv s' ps' where
        r: "map_loop r (a + PGSIZE) last_va (pa + PGSIZE) perm s2 = Inr (rv, s')"
        and g': "tree_grows lk r s2 ps2 s' ps'" and rv: "rv = 0 \<or> rv = -1 \<and> ps' = []"
        and ins: "\<And>va. va < MAXVA \<Longrightarrow> unat a + 4096 \<le> unat va \<Longrightarrow> unat va < e \<Longrightarrow> rv = 0 \<Longrightarrow>
          leaf (memory s') r va = Some (map_entry a pa perm va)"
        and out: "\<And>va. va < MAXVA \<Longrightarrow> \<not> (unat a + 4096 \<le> unat va \<and> unat va < e) \<Longrightarrow>
          leaf (memory s') r va = leaf (memory s2) r va"
        unfolding maps_range_def up map_entry_next by auto
      have "leaf (memory s') r va = Some (map_entry a pa perm va)"
        if "va < MAXVA" "unat a \<le> unat va" "unat va < e" "rv = 0" for va
        using that ins out round(3) same_page_iff [OF al, of va]
        by (cases "unat a + 4096 \<le> unat va") auto
      moreover have "leaf (memory s') r va = leaf (memory s) r va"
        if "va < MAXVA" "\<not> (unat a \<le> unat va \<and> unat va < e)" for va
        using that out round(3) same_page_iff [OF al, of va] e by auto
      ultimately show ?thesis
        using neq r rv tree_grows_trans [OF g2 g'] unfolding ml maps_range_def by auto
    qed
  qed
qed

lemma map_loop_spec:
  fixes s :: "'a kmem_scheme"
  assumes "pt_inv lk s ps r" "page_aligned a" "unat last_va = unat a + 4096 * n"
    "unat last_va < 2 ^ 38"
    "\<And>va. va < MAXVA \<Longrightarrow> unat a \<le> unat va \<Longrightarrow> unat va < unat last_va + 4096 \<Longrightarrow>
       leaf (memory s) r va = None"
  shows "maps_range lk r a (unat last_va + 4096) pa perm s ps (map_loop r a last_va pa perm s)"
  using assms
proof (induction n arbitrary: a pa s ps)
  case (0 a pa s ps)
  then have eq: "a = last_va" by (simp add: unat_eqD)
  have lt: "unat a < 2 ^ 38" using "0.prems" by simp
  have free: "leaf (memory s) r a = None"
    using "0.prems"(3-5) lt by (simp add: word_less_nat_alt)
  show ?case
    by (rule map_loop_round [OF "0.prems"(1,2) lt free]) (use eq in simp_all)
next
  case (Suc n a pa s ps)
  have lt: "unat a < 2 ^ 38" using Suc.prems by simp
  then have up: "unat (a + PGSIZE) = unat a + 4096" by (simp add: unat_add64)
  have neq: "a \<noteq> last_va" using Suc.prems(3) by auto
  have free: "leaf (memory s) r a = None"
    using Suc.prems(3-5) lt by (simp add: word_less_nat_alt)
  show ?case
  proof (rule map_loop_round [OF Suc.prems(1,2) lt free])
    fix s2 :: "'a kmem_scheme" and ps2 :: "u64 list"
    assume inv2: "pt_inv lk s2 ps2 r" and l2: "\<And>va. va < MAXVA \<Longrightarrow> leaf (memory s2) r va =
      (if unat va div 4096 = unat a div 4096 then Some (map_entry a pa perm va)
       else leaf (memory s) r va)"
    show "maps_range lk r (a + PGSIZE) (unat last_va + 4096) (pa + PGSIZE) perm s2 ps2
        (map_loop r (a + PGSIZE) last_va (pa + PGSIZE) perm s2)"
    proof (rule Suc.IH [OF inv2])
      show "page_aligned (a + PGSIZE)" using Suc.prems(2) up by (simp add: page_aligned_def)
      show "unat last_va = unat (a + PGSIZE) + 4096 * n" using Suc.prems(3) up by simp
      fix va assume "va < MAXVA" "unat (a + PGSIZE) \<le> unat va" "unat va < unat last_va + 4096"
      then show "leaf (memory s2) r va = None"
        using l2 Suc.prems(5) same_page_iff [OF Suc.prems(2), of va] up by auto
    qed (rule Suc.prems(4))
  qed (use Suc.prems(3) neq in auto)
qed

lemma PGROUNDDOWN_aligned: "page_aligned (PGROUNDDOWN a)"
  by (simp add: page_aligned_def unat_PGROUNDDOWN minus_mod_eq_mult_div)

lemma mappages_range:
  assumes inv: "pt_inv lk s ps r" and sz: "sz \<noteq> 0" and fits: "unat va + unat sz \<le> 2 ^ 38"
    and free: "\<And>v. v < MAXVA \<Longrightarrow> unat (PGROUNDDOWN va) \<le> unat v \<Longrightarrow>
      unat v < unat (PGROUNDDOWN (va + sz - 1)) + 4096 \<Longrightarrow> leaf (memory s) r v = None"
  shows "maps_range lk r (PGROUNDDOWN va) (unat (PGROUNDDOWN (va + sz - 1)) + 4096) pa perm s ps
           (mappages r pa va sz perm s)"
proof -
  let ?a = "PGROUNDDOWN va" and ?l = "PGROUNDDOWN (va + sz - 1)"
  have pos: "0 < unat sz" using sz by (simp add: unat_gt_0)
  moreover have "unat (va + sz) = unat va + unat sz" using fits by (simp add: unat_add64)
  ultimately have u: "unat (va + sz - 1) = unat va + (unat sz - 1)"
    by (simp add: unat_sub64)
  have d: "unat ?a = 4096 * (unat va div 4096)" "unat ?l = 4096 * ((unat va + (unat sz - 1)) div 4096)"
    by (simp_all add: unat_PGROUNDDOWN u minus_mod_eq_mult_div)
  define n where "n = (unat va + (unat sz - 1)) div 4096 - unat va div 4096"
  have "unat va div 4096 \<le> (unat va + (unat sz - 1)) div 4096" by (simp add: div_le_mono)
  then have "(unat va + (unat sz - 1)) div 4096 = unat va div 4096 + n" unfolding n_def by simp
  then have "unat ?l = unat ?a + 4096 * n" unfolding d by (simp only: distrib_left)
  moreover have "unat ?l < 2 ^ 38"
    unfolding unat_PGROUNDDOWN u using fits pos by linarith
  ultimately show ?thesis
    using map_loop_spec [OF inv PGROUNDDOWN_aligned, of ?l va n] free sz
    by (simp add: mappages_def)
qed

section \<open>The kernel page table\<close>

text \<open>
  A state whose translations are described by \<open>M\<close>: exactly \<open>M\<close> unless the pool has run dry
  on the way, and nothing outside the domain of \<open>M\<close> in any case.
\<close>

definition described :: "symbols \<Rightarrow> u64 \<Rightarrow> 'a kmem_scheme \<Rightarrow> u64 list \<Rightarrow> (u64 \<Rightarrow> u64 option) \<Rightarrow> bool" where
  "described lk r s ps M \<longleftrightarrow> pt_inv lk s ps r \<and>
     (\<forall>va. va < MAXVA \<longrightarrow> M va = None \<longrightarrow> leaf (memory s) r va = None) \<and>
     (ps \<noteq> [] \<longrightarrow> (\<forall>va. va < MAXVA \<longrightarrow> leaf (memory s) r va = M va))"

lemma described_mappages:
  assumes d: "described lk r s ps M" and al: "page_aligned va" "page_aligned (va + sz)"
    and sz: "sz \<noteq> 0" and fits: "unat va + unat sz \<le> 2 ^ 38"
    and new: "\<And>v. unat va \<le> unat v \<Longrightarrow> unat v < unat va + unat sz \<Longrightarrow> M v = None"
  shows "\<exists>rv s' ps'. mappages r va va sz perm s = Inr (rv, s') \<and> set ps' \<subseteq> set ps \<and>
    described lk r s' ps' (\<lambda>v. if unat va \<le> unat v \<and> unat v < unat va + unat sz
      then Some (PA2PTE (PGROUNDDOWN v) OR scast perm OR PTE_V) else M v)"
proof -
  have up: "unat (va + sz) = unat va + unat sz" using fits by (simp add: unat_add64)
  obtain k j where k: "unat va = 4096 * k" and j: "unat va + unat sz = 4096 * j"
    using al up by (metis page_alignedE)
  have pos: "0 < unat sz" using sz by (simp add: unat_gt_0)
  have "unat (va + sz - 1) = 4096 * j - 1"
    using up j pos by (simp add: unat_sub64)
  moreover have "4096 * j - 1 = 4096 * (j - 1) + 4095" using j pos by (cases j) auto
  ultimately have "unat (PGROUNDDOWN (va + sz - 1)) = 4096 * (j - 1)"
    by (simp add: unat_PGROUNDDOWN)
  then have e: "unat (PGROUNDDOWN (va + sz - 1)) + 4096 = unat va + unat sz"
    using j pos by (cases j) auto
  have a: "PGROUNDDOWN va = va" by (rule unat_eqD) (simp add: unat_PGROUNDDOWN k)
  have me: "map_entry va va perm v = PA2PTE (PGROUNDDOWN v) OR scast perm OR PTE_V" for v
    by (simp add: map_entry_def)
  have "maps_range lk r va (unat va + unat sz) va perm s ps (mappages r va va sz perm s)"
    using mappages_range [OF _ sz fits, of lk s ps r va perm] d new unfolding a e
    by (simp add: described_def)
  then obtain rv s' ps' where *: "mappages r va va sz perm s = Inr (rv, s')"
    "tree_grows lk r s ps s' ps'" "rv = 0 \<or> rv = -1 \<and> ps' = []"
    "\<And>v. v < MAXVA \<Longrightarrow> unat va \<le> unat v \<Longrightarrow> unat v < unat va + unat sz \<Longrightarrow> rv = 0 \<Longrightarrow>
       leaf (memory s') r v = Some (map_entry va va perm v)"
    "\<And>v. v < MAXVA \<Longrightarrow> \<not> (unat va \<le> unat v \<and> unat v < unat va + unat sz) \<Longrightarrow>
       leaf (memory s') r v = leaf (memory s) r v"
    unfolding maps_range_def by auto
  have sub: "set ps' \<subseteq> set ps" using *(2) by (simp add: tree_grows_def)
  have "described lk r s' ps' (\<lambda>v. if unat va \<le> unat v \<and> unat v < unat va + unat sz
      then Some (PA2PTE (PGROUNDDOWN v) OR scast perm OR PTE_V) else M v)"
    using d *(2-5) sub unfolding described_def me by (auto simp: tree_grows_def)
  with *(1) sub show ?thesis by blast
qed

text \<open>A page fresh from \<open>kalloc\<close>, cleared, is an empty tree.\<close>

lemma fresh_root:
  assumes inv: "kmem_inv lk s (r # ps)" and k: "kalloc s = (r, s1)"
  shows "described lk r (s1\<lparr>memory := zero_page r (memory s1)\<rparr>) ps (\<lambda>_. None)"
proof -
  note c = kmem_inv_Cons [OF inv] and kc = kalloc_Cons [OF inv]
  have m1: "memory s1 = zero_page r (memory s)" using kc(1) k by auto
  then have zz: "zero_page r (memory s1) = memory s1" by (auto simp: zero_page_eq)
  have empty: "next_table (memory s1) r i = None" if "i < 512" for i
    using load64_zero_page [OF page_ok_aligned [OF c(3)] that] by (simp add: next_table_def m1)
  have T: "table (memory s1) r is = (if is = [] then Some r else None)" if "path_ok is" for "is"
    using that empty by (cases "is") (auto simp: path_ok_def)
  have "kmem_inv lk s1 ps" using kc(2) k by simp
  then have "pt_inv lk s1 ps r" using c by (auto simp: pt_inv_def T)
  moreover have "leaf (memory s1) r va = None" for va
    by (rule leaf_no_table, subst T) (simp_all add: path_ok_def PX_less)
  ultimately show ?thesis by (simp add: described_def zz)
qed

text \<open>The address space the kernel means to run in.\<close>

definition kernel_map :: "symbols \<Rightarrow> u64 \<Rightarrow> u64 option" where
  "kernel_map lk va =
     (if UART0 \<le> va \<and> va < UART0 + PGSIZE \<or> PLIC \<le> va \<and> va < PLIC + 0x400000 \<or>
         VIRTIO0 \<le> va \<and> va < VIRTIO0 + PGSIZE \<or> etext lk \<le> va \<and> va < PHYSTOP
      then Some (PA2PTE (PGROUNDDOWN va) OR (PTE_R OR PTE_W) OR PTE_V)
      else if KERNBASE \<le> va \<and> va < etext lk
      then Some (PA2PTE (PGROUNDDOWN va) OR (PTE_R OR PTE_X) OR PTE_V)
      else None)"

text \<open>The page-table code changes the memory and the free list and nothing else.\<close>

definition only_memory :: "'a kmem_scheme \<Rightarrow> 'a kmem_scheme \<Rightarrow> bool" where
  "only_memory s s' \<longleftrightarrow> s' = s\<lparr>memory := memory s', free_mem_list := free_mem_list s'\<rparr>"

lemma only_memory_refl: "only_memory s s"
  by (simp add: only_memory_def)

lemma only_memory_trans: "only_memory s s1 \<Longrightarrow> only_memory s1 s2 \<Longrightarrow> only_memory s s2"
  unfolding only_memory_def by (metis kmem.surjective kmem.update_convs machine.update_convs(1))

lemma only_memory_upd: "only_memory s s1 \<Longrightarrow> only_memory s (s1\<lparr>memory := m\<rparr>)"
  by (cases s, cases s1) (auto simp: only_memory_def)

lemma kalloc_only_memory: "only_memory s (snd (kalloc s))"
  by (cases s) (simp add: kalloc_def only_memory_def Let_def)

lemma walk_levels_only_memory:
  "walk_levels l pt va alloc s = (res, s') \<Longrightarrow> only_memory s s'"
proof (induction l arbitrary: pt s)
  case 0
  then show ?case by (simp add: only_memory_refl)
next
  case (Suc l)
  let ?pte = "entry pt (unat (PX (Suc l) va))"
  obtain p s1 where k: "kalloc s = (p, s1)" by fastforce
  then have s1: "only_memory s s1" using kalloc_only_memory [of s] by simp
  let ?s2 = "s1\<lparr>memory := zero_page p (memory s1)\<rparr>"
  let ?s3 = "?s2\<lparr>memory := store64 (memory ?s2) ?pte (PA2PTE p OR PTE_V)\<rparr>"
  have s3: "only_memory s ?s3" by (intro only_memory_upd s1)
  consider "walk_levels l (PTE2PA (load64 (memory s) ?pte)) va alloc s = (res, s')"
    | "s' = s" | "s' = s1" | "walk_levels l p va alloc ?s3 = (res, s')"
    using Suc.prems k by (auto simp: Let_def split: if_splits)
  then show ?case
  proof cases
    case 4
    then show ?thesis by (rule only_memory_trans [OF s3 Suc.IH])
  qed (use s1 Suc.IH in \<open>simp_all add: only_memory_refl\<close>)
qed

lemma walk_only_memory: "walk r va alloc s = Inr (p, s') \<Longrightarrow> only_memory s s'"
  by (auto simp: walk_def intro: walk_levels_only_memory split: if_splits prod.splits option.splits)

lemma map_loop_only_memory:
  "map_loop r a last_va pa perm s = Inr (rv, s') \<Longrightarrow> only_memory s s'"
proof (induction r a last_va pa perm s arbitrary: s' rule: map_loop.induct)
  case (1 r a last_va pa perm s)
  from "1.prems" obtain pte s1 where w: "walk r a True s = Inr (pte, s1)"
    by (auto simp: map_loop.simps [of r a] bindE_eq_Inr)
  note s1 = walk_only_memory [OF w]
  let ?s2 = "s1\<lparr>memory := store64 (memory s1) pte (PA2PTE pa OR scast perm OR PTE_V)\<rparr>"
  have s2: "only_memory s ?s2" by (rule only_memory_upd [OF s1])
  from "1.prems" w consider "s' = s1" | "s' = ?s2" |
      "a \<noteq> last_va" "pte \<noteq> 0" "load64 (memory s1) pte AND PTE_V = 0"
      "map_loop r (a + PGSIZE) last_va (pa + PGSIZE) perm ?s2 = Inr (rv, s')"
    by (auto simp: map_loop.simps [of r a] Let_def split: if_splits)
  then show ?case
  proof cases
    case 3
    have "only_memory ?s2 s'" by (rule "1.IH" [OF w refl _ _ refl]) (use 3 in simp_all)
    then show ?thesis using s2 only_memory_trans by blast
  qed (use s1 s2 in simp_all)
qed

lemma mappages_only_memory: "mappages r pa va sz perm s = Inr (rv, s') \<Longrightarrow> only_memory s s'"
  by (auto simp: mappages_def intro: map_loop_only_memory split: if_splits)

lemma only_memory_kernel_pagetable:
  "only_memory s s' \<Longrightarrow> kernel_pagetable s' = kernel_pagetable (s :: 'a vm_scheme)"
  by (cases s, cases s') (auto simp: only_memory_def)

section \<open>Properties\<close>

text \<open>
  With \<open>alloc\<close> 0, \<open>walk\<close> is a pure lookup: it panics exactly at or above \<open>MAXVA\<close>, changes
  nothing, and returns the address of the last-level entry when both upper tables exist and
  0 when one is missing.
\<close>

theorem walk_lookup:
  "walk r va False s =
     (if MAXVA \<le> va then Inl (Panic ''walk: virtual address out of range'')
      else Inr (case table (memory s) r [unat (PX 2 va), unat (PX 1 va)] of
                  None \<Rightarrow> 0
                | Some t \<Rightarrow> entry t (unat (PX 0 va)), s))"
proof -
  have "walk_levels l pt va False s = (table (memory s) pt (walk_path l va), s)" for l pt
    by (induction l arbitrary: pt) (simp_all add: Let_def next_table_def)
  then show ?thesis
    by (simp add: walk_def numeral_2_eq_2 split: option.splits)
qed

text \<open>
  C14: With \<open>alloc\<close> 1, \<open>walk\<close> keeps the tables a tree of pages that are neither shared nor free,
  changes no translation and no page that belongs to another part of the kernel, and returns
  the last-level entry of \<open>va\<close>; it returns 0 only when the page pool is used up.
\<close>

theorem walk_alloc_safe:
  assumes "pt_inv lk s ps r" and "va < MAXVA"
  shows "\<exists>pte s' ps'. walk r va True s = Inr (pte, s') \<and> pt_inv lk s' ps' r \<and> set ps' \<subseteq> set ps \<and>
     (\<forall>va'. leaf (memory s') r va' = leaf (memory s) r va') \<and>
     (\<forall>q x. owned_elsewhere s ps r q \<longrightarrow> in_page q x \<longrightarrow> memory s' x = memory s x) \<and>
     (if pte = 0 then ps' = []
      else \<exists>t. table (memory s') r [unat (PX 2 va), unat (PX 1 va)] = Some t \<and>
             pte = entry t (unat (PX 0 va)))"
proof -
  from walk_grows [OF assms] obtain pte s' ps' where w: "walk r va True s = Inr (pte, s')"
    "tree_grows lk r s ps s' ps'" "\<forall>va'. leaf (memory s') r va' = leaf (memory s) r va'"
    "if pte = 0 then ps' = []
     else \<exists>t. table (memory s') r [unat (PX 2 va), unat (PX 1 va)] = Some t \<and>
            pte = entry t (unat (PX 0 va))"
    by auto
  then show ?thesis
    by (intro exI [of _ pte] exI [of _ s'] exI [of _ ps']) (simp add: tree_grows_def)
qed

text \<open>Two free pages and an empty root table.\<close>

definition demo_tree :: kmem where
  "demo_tree = \<lparr>memory = store64 (\<lambda>_. 0) 0x87FFD000 0x87FFE000, console_out = [],
     free_mem_list = 0x87FFD000\<rparr>"

lemma demo_tree_inv:
  "pt_inv demo_symbols demo_tree [0x87FFD000, 0x87FFE000] 0x87FFF000"
  "leaf (memory demo_tree) 0x87FFF000 va = None"
proof -
  have ok: "page_ok demo_symbols 0x87FFD000" "page_ok demo_symbols 0x87FFF000"
    by (simp_all add: page_ok_def page_aligned_def demo_symbols_def)
  have al: "page_aligned 0x87FFD000" "page_aligned 0x87FFF000" using ok page_ok_aligned by auto
  have "kfree demo_symbols 0x87FFD000 demo_one_page = Inr demo_tree"
    using ok by (simp add: kfree_eq_Inr demo_one_page_def demo_kmem_def demo_tree_def)
  then have inv: "kmem_inv demo_symbols demo_tree [0x87FFD000, 0x87FFE000]"
    using kfree_inv [OF demo_one_page_inv ok(1)] by simp
  have "load64 (memory demo_tree) (entry 0x87FFF000 i) = load64 (\<lambda>_. 0) (entry 0x87FFF000 i)"
    if "i < 512" for i
  proof -
    have "load64 (store64 (\<lambda>_. 0) (entry 0x87FFD000 0) 0x87FFE000) (entry 0x87FFF000 i) =
        load64 (\<lambda>_. 0) (entry 0x87FFF000 i)"
      by (rule load64_entry_other) (use al that in simp_all)
    then show ?thesis by (simp add: demo_tree_def)
  qed
  then have "next_table (memory demo_tree) 0x87FFF000 i = None" if "i < 512" for i
    using that by (simp add: next_table_def load_le_def)
  then have T: "table (memory demo_tree) 0x87FFF000 is = (if is = [] then Some 0x87FFF000 else None)"
    if "path_ok is" for "is"
    using that by (cases "is") (auto simp: path_ok_def)
  show "pt_inv demo_symbols demo_tree [0x87FFD000, 0x87FFE000] 0x87FFF000"
    using inv ok(2) by (auto simp: pt_inv_def T)
  show "leaf (memory demo_tree) 0x87FFF000 va = None"
    by (rule leaf_no_table, subst T) (simp_all add: path_ok_def PX_less)
qed

theorem walk_alloc_safe_witness:
  "pt_inv demo_symbols demo_tree [0x87FFD000, 0x87FFE000] 0x87FFF000 \<and> (0x10000000 :: u64) < MAXVA \<and>
   (\<exists>pte s' ps'. walk 0x87FFF000 0x10000000 True demo_tree = Inr (pte, s') \<and>
      pt_inv demo_symbols s' ps' 0x87FFF000)"
proof -
  have va: "(0x10000000 :: u64) < MAXVA" by simp
  show ?thesis using walk_alloc_safe [OF demo_tree_inv(1) va] demo_tree_inv(1) va by blast
qed

text \<open>
  C15: \<open>mappages\<close> on a range of unmapped pages below \<open>MAXVA\<close> never panics.  It returns 0 with
  every address of the range translated to its offset from \<open>pa\<close>, with the given permissions,
  or -1 with no free page left; no other translation changes, and the tables stay a tree.
\<close>

theorem mappages_maps:
  assumes "pt_inv lk s ps r" and "sz \<noteq> 0" and "unat va + unat sz \<le> 2 ^ 38"
    and "\<And>v. v < MAXVA \<Longrightarrow> unat (PGROUNDDOWN va) \<le> unat v \<Longrightarrow>
      unat v < unat (PGROUNDDOWN (va + sz - 1)) + 4096 \<Longrightarrow> leaf (memory s) r v = None"
  shows "\<exists>rv s' ps'. mappages r pa va sz perm s = Inr (rv, s') \<and> pt_inv lk s' ps' r \<and>
     (rv = 0 \<or> rv = -1 \<and> ps' = []) \<and>
     (\<forall>v. v < MAXVA \<longrightarrow>
        (if unat (PGROUNDDOWN va) \<le> unat v \<and> unat v < unat (PGROUNDDOWN (va + sz - 1)) + 4096
         then rv = 0 \<longrightarrow> leaf (memory s') r v =
           Some (PA2PTE (pa + (PGROUNDDOWN v - PGROUNDDOWN va)) OR scast perm OR PTE_V)
         else leaf (memory s') r v = leaf (memory s) r v))"
proof -
  have "maps_range lk r (PGROUNDDOWN va) (unat (PGROUNDDOWN (va + sz - 1)) + 4096) pa perm s ps
      (mappages r pa va sz perm s)"
    by (rule mappages_range [OF assms])
  then obtain rv s' ps' where m: "mappages r pa va sz perm s = Inr (rv, s')"
    "tree_grows lk r s ps s' ps'" "rv = 0 \<or> rv = -1 \<and> ps' = []"
    "\<And>v. v < MAXVA \<Longrightarrow> unat (PGROUNDDOWN va) \<le> unat v \<Longrightarrow>
       unat v < unat (PGROUNDDOWN (va + sz - 1)) + 4096 \<Longrightarrow> rv = 0 \<Longrightarrow>
       leaf (memory s') r v = Some (map_entry (PGROUNDDOWN va) pa perm v)"
    "\<And>v. v < MAXVA \<Longrightarrow> \<not> (unat (PGROUNDDOWN va) \<le> unat v \<and>
       unat v < unat (PGROUNDDOWN (va + sz - 1)) + 4096) \<Longrightarrow>
       leaf (memory s') r v = leaf (memory s) r v"
    unfolding maps_range_def by auto
  then show ?thesis
    by (intro exI [of _ rv] exI [of _ s'] exI [of _ ps']) (simp add: tree_grows_def map_entry_def)
qed

theorem mappages_maps_witness:
  "\<exists>rv s' ps'. mappages 0x87FFF000 0x10000000 0x10000000 0x1000 6 demo_tree = Inr (rv, s') \<and>
     pt_inv demo_symbols s' ps' 0x87FFF000 \<and> (rv = 0 \<or> rv = -1 \<and> ps' = [])"
proof -
  have "(0x1000 :: u64) \<noteq> 0" "unat (0x10000000 :: u64) + unat (0x1000 :: u64) \<le> 2 ^ 38"
    by simp_all
  from mappages_maps [OF demo_tree_inv(1) this demo_tree_inv(2)] show ?thesis by blast
qed

lemma walk_levels_found:
  "walk_levels l pt va False s = (Some t, s') \<Longrightarrow> walk_levels l pt va True s = (Some t, s) \<and> s' = s"
  by (induction l arbitrary: pt) (auto simp: Let_def split: if_splits)

text \<open>
  Mapping a page that is mapped already is caught: when the entry \<open>walk\<close> finds for the first
  page is valid, \<open>mappages\<close> panics and maps nothing.
\<close>

theorem mappages_remap_panics:
  assumes "walk r (PGROUNDDOWN va) False s = Inr (pte, s')" and "pte \<noteq> 0"
    and "load64 (memory s) pte AND PTE_V \<noteq> 0" and "sz \<noteq> 0"
  shows "mappages r pa va sz perm s = Inl (Panic ''mappages: remap'')"
proof -
  obtain t u where t: "walk_levels 2 r (PGROUNDDOWN va) False s = (Some t, u)"
    "pte = entry t (unat (PX 0 (PGROUNDDOWN va)))" and va: "PGROUNDDOWN va < MAXVA"
    using assms(1,2) by (auto simp: walk_def split: if_splits prod.splits option.splits)
  have "walk r (PGROUNDDOWN va) True s = Inr (pte, s)"
    using walk_levels_found [OF t(1)] va t(2) unfolding walk_def by simp
  then show ?thesis
    using assms(2-4) by (simp add: mappages_def map_loop.simps [of r "PGROUNDDOWN va"])
qed

text \<open>A table whose first entry leads back to itself, so that address 0 is mapped.\<close>

definition demo_loop :: kmem where
  "demo_loop = \<lparr>memory = store64 (\<lambda>_. 0) 0x87FFF000 (PA2PTE 0x87FFF000 OR PTE_V), console_out = [],
     free_mem_list = 0\<rparr>"

theorem mappages_remap_panics_witness:
  "mappages 0x87FFF000 0x10000000 0 0x1000 6 demo_loop = Inl (Panic ''mappages: remap'')"
proof -
  let ?v = "PA2PTE 0x87FFF000 OR PTE_V"
  have l: "load64 (memory demo_loop) 0x87FFF000 = ?v"
    unfolding demo_loop_def kmem.simps machine.simps by (rule load64_store64_same)
  have v: "?v AND PTE_V \<noteq> 0" "PTE2PA ?v = 0x87FFF000" by (simp_all add: PA2PTE_def PTE2PA_def)
  have z: "PGROUNDDOWN 0 = 0" "PX n 0 = 0" for n by (simp_all add: PGROUNDDOWN_def PX_def)
  have w: "walk 0x87FFF000 (PGROUNDDOWN 0) False demo_loop = Inr (0x87FFF000, demo_loop)"
  proof -
    have "walk_levels (Suc (Suc 0)) 0x87FFF000 0 False demo_loop = (Some 0x87FFF000, demo_loop)"
      using l v by (simp add: z Let_def)
    then have "walk_levels 2 0x87FFF000 0 False demo_loop = (Some 0x87FFF000, demo_loop)"
      by (simp only: numeral_2_eq_2)
    then show ?thesis unfolding z walk_def by simp
  qed
  have n: "(0x87FFF000 :: u64) \<noteq> 0" "(0x1000 :: u64) \<noteq> 0" by simp_all
  show ?thesis by (rule mappages_remap_panics [OF w n(1) _ n(2)]) (simp only: l v not_False_eq_True)
qed

end
