(* ===== verification/Bio.thy ===== *)
theory Bio
  imports Vm Bytes "HOL-Library.Multiset"
begin

text \<open>
  The buffer cache, \<open>kernel/fs/bio.c\<close>: 30 buffers on a doubly linked circular list through
  \<open>bcache.head\<close>, kept in least-recently-used order.  Buffers are named by their index,
  \<open>&bcache.head\<close> by 30.  The disk is a map from block numbers to blocks; a request to a block
  outside its capacity comes back with an error status, on which the driver panics.
  \<open>disk_request\<close> is the contract of the disk driver: what it has done to the buffer and the disk
  once the device has answered (it busy-waits, so the caller never sees anything else).  The driver
  itself is in the theory \<open>Virtio\<close>, which proves that it keeps the contract.
\<close>

section \<open>State and operations\<close>

record buf =
  b_valid :: i32
  b_disk :: i32
  b_dev :: u32
  blockno :: u32
  refcnt :: u32
  b_prev :: nat
  b_next :: nat
  b_data :: block

record bcache = vm +
  disk :: "u32 \<Rightarrow> block"
  disk_blocks :: nat
  bufs :: "nat \<Rightarrow> buf"

definition BHEAD :: nat where "BHEAD = 30"

definition upd_buf :: "nat \<Rightarrow> (buf \<Rightarrow> buf) \<Rightarrow> 'a bcache_scheme \<Rightarrow> 'a bcache_scheme" where
  "upd_buf b f s = s\<lparr>bufs := (bufs s)(b := f (bufs s b))\<rparr>"

text \<open>The contract of the driver, which addresses the disk by \<open>b->blockno\<close> alone; \<open>b->dev\<close> plays no part.\<close>

definition disk_request :: "nat \<Rightarrow> bool \<Rightarrow> 'a bcache_scheme \<Rightarrow> 'a bcache_scheme res" where
  "disk_request b write s =
     (let blk = blockno (bufs s b) in
      if disk_blocks s \<le> unat blk then Inl (Panic ''virtio_disk_rw: status error'')
      else if write then Inr (s\<lparr>disk := (disk s)(blk := b_data (bufs s b))\<rparr>)
      else Inr (upd_buf b (\<lambda>f. f\<lparr>b_data := disk s blk\<rparr>) s))"

definition link_first :: "nat \<Rightarrow> (nat \<Rightarrow> buf) \<Rightarrow> nat \<Rightarrow> buf" where
  "link_first b bs =
     (let first = b_next (bs BHEAD);
          bs1 = bs(b := (bs b)\<lparr>b_next := first\<rparr>);
          bs2 = bs1(b := (bs1 b)\<lparr>b_prev := BHEAD\<rparr>);
          bs3 = bs2(b_next (bs2 BHEAD) := (bs2 (b_next (bs2 BHEAD)))\<lparr>b_prev := b\<rparr>)
      in bs3(BHEAD := (bs3 BHEAD)\<lparr>b_next := b\<rparr>))"

definition unlink :: "nat \<Rightarrow> (nat \<Rightarrow> buf) \<Rightarrow> nat \<Rightarrow> buf" where
  "unlink b bs =
     (let n = b_next (bs b); bs1 = bs(n := (bs n)\<lparr>b_prev := b_prev (bs b)\<rparr>);
          p = b_prev (bs1 b)
      in bs1(p := (bs1 p)\<lparr>b_next := b_next (bs1 b)\<rparr>))"

definition binit :: "'a bcache_scheme \<Rightarrow> 'a bcache_scheme" where
  "binit s =
     (let bs = (bufs s)(BHEAD := (bufs s BHEAD)\<lparr>b_prev := BHEAD, b_next := BHEAD\<rparr>)
      in s\<lparr>bufs := fold link_first [0..<NBUF] bs\<rparr>)"

text \<open>
  The two loops of \<open>bget\<close> follow \<open>next\<close> or \<open>prev\<close> until they are back at the head.  The fuel
  is one more than the number of buffers, which a well-linked list never uses up.
\<close>

primrec walk_list :: "nat \<Rightarrow> (buf \<Rightarrow> nat) \<Rightarrow> (buf \<Rightarrow> bool) \<Rightarrow> (nat \<Rightarrow> buf) \<Rightarrow> nat \<Rightarrow> nat option res" where
  "walk_list 0 go P bs b = Inl (Fault ''bcache: list does not return to its head'')"
| "walk_list (Suc n) go P bs b =
     (if b = BHEAD then Inr None
      else if P (bs b) then Inr (Some b)
      else walk_list n go P bs (go (bs b)))"

definition bget :: "u32 \<Rightarrow> u32 \<Rightarrow> 'a bcache_scheme \<Rightarrow> (nat \<times> 'a bcache_scheme) res" where
  "bget dev blk s =
     bindE (walk_list (NBUF + 1) b_next (\<lambda>f. b_dev f = dev \<and> blockno f = blk) (bufs s)
         (b_next (bufs s BHEAD))) (\<lambda>hit.
     case hit of
       Some b \<Rightarrow> Inr (b, upd_buf b (\<lambda>f. f\<lparr>refcnt := refcnt f + 1\<rparr>) s)
     | None \<Rightarrow>
         bindE (walk_list (NBUF + 1) b_prev (\<lambda>f. refcnt f = 0) (bufs s) (b_prev (bufs s BHEAD))) (\<lambda>free.
         case free of
           Some b \<Rightarrow> Inr (b, upd_buf b (\<lambda>f. f\<lparr>b_dev := dev, blockno := blk, b_valid := 0, refcnt := 1\<rparr>) s)
         | None \<Rightarrow> Inl (Panic ''bget: no buffers'')))"

definition bread :: "u32 \<Rightarrow> u32 \<Rightarrow> 'a bcache_scheme \<Rightarrow> (nat \<times> 'a bcache_scheme) res" where
  "bread dev blk s =
     bindE (bget dev blk s) (\<lambda>(b, s1).
       if b_valid (bufs s1 b) = 0
       then bindE (disk_request b False s1) (\<lambda>s2. Inr (b, upd_buf b (\<lambda>f. f\<lparr>b_valid := 1\<rparr>) s2))
       else Inr (b, s1))"

definition bwrite :: "nat \<Rightarrow> 'a bcache_scheme \<Rightarrow> 'a bcache_scheme res" where
  "bwrite b s = disk_request b True s"

definition brelse :: "nat \<Rightarrow> 'a bcache_scheme \<Rightarrow> 'a bcache_scheme" where
  "brelse b s =
     (let s1 = upd_buf b (\<lambda>f. f\<lparr>refcnt := refcnt f - 1\<rparr>) s in
      if refcnt (bufs s1 b) = 0 then s1\<lparr>bufs := link_first b (unlink b (bufs s1))\<rparr> else s1)"

section \<open>The doubly linked list\<close>

text \<open>\<open>dlseg bs p xs q\<close>: the nodes \<open>xs\<close> stand between \<open>p\<close> and \<open>q\<close>, linked both ways.\<close>

primrec dlseg :: "(nat \<Rightarrow> buf) \<Rightarrow> nat \<Rightarrow> nat list \<Rightarrow> nat \<Rightarrow> bool" where
  "dlseg bs p [] q \<longleftrightarrow> b_next (bs p) = q \<and> b_prev (bs q) = p"
| "dlseg bs p (x # xs) q \<longleftrightarrow> b_next (bs p) = x \<and> b_prev (bs x) = p \<and> dlseg bs x xs q"

definition lru :: "(nat \<Rightarrow> buf) \<Rightarrow> nat list \<Rightarrow> bool" where
  "lru bs xs \<longleftrightarrow> dlseg bs BHEAD xs BHEAD \<and> distinct xs \<and> BHEAD \<notin> set xs"

lemma dlseg_append: "dlseg bs p (xs @ y # ys) q \<longleftrightarrow> dlseg bs p xs y \<and> dlseg bs y ys q"
  by (induction xs arbitrary: p) auto

lemma dlseg_cong:
  assumes "\<And>x. x \<in> set (p # xs) \<Longrightarrow> b_next (bs x) = b_next (cs x)"
    and "\<And>x. x \<in> set (q # xs) \<Longrightarrow> b_prev (bs x) = b_prev (cs x)"
  shows "dlseg bs p xs q \<longleftrightarrow> dlseg cs p xs q"
  using assms by (induction xs arbitrary: p) auto

lemma dlseg_last: "dlseg bs p xs q \<Longrightarrow> b_prev (bs q) = (if xs = [] then p else last xs)"
  by (induction xs arbitrary: p) (auto split: if_splits)

lemma lru_cong:
  "(\<And>x. b_next (bs x) = b_next (cs x)) \<Longrightarrow> (\<And>x. b_prev (bs x) = b_prev (cs x)) \<Longrightarrow> lru bs xs = lru cs xs"
  unfolding lru_def using dlseg_cong [of BHEAD xs bs cs BHEAD] by auto

text \<open>The two loops look at the list from its two ends.\<close>

lemma walk_list_next:
  assumes "dlseg bs p xs BHEAD" "BHEAD \<notin> set xs" "length xs < n"
  shows "walk_list n b_next P bs (b_next (bs p)) = Inr (find (\<lambda>b. P (bs b)) xs)"
  using assms
proof (induction xs arbitrary: p n)
  case Nil
  then show ?case by (cases n) auto
next
  case (Cons x xs)
  then obtain m where "n = Suc m" by (cases n) auto
  with Cons show ?case by auto
qed

lemma walk_list_prev:
  assumes "dlseg bs BHEAD xs q" "BHEAD \<notin> set xs" "length xs < n"
  shows "walk_list n b_prev P bs (b_prev (bs q)) = Inr (find (\<lambda>b. P (bs b)) (rev xs))"
  using assms
proof (induction xs arbitrary: q n rule: rev_induct)
  case Nil
  then show ?case by (cases n) auto
next
  case (snoc x xs)
  then obtain m where "n = Suc m" by (cases n) auto
  with snoc show ?case by (auto simp: dlseg_append)
qed

lemma link_first_lru:
  assumes l: "lru bs xs" and b: "b \<notin> set xs" "b \<noteq> BHEAD"
  shows "lru (link_first b bs) (b # xs)"
proof -
  let ?f = "b_next (bs BHEAD)"
  have f: "?f = (case xs of [] \<Rightarrow> BHEAD | x # _ \<Rightarrow> x)"
    using l by (cases xs) (auto simp: lru_def)
  show ?thesis
  proof (cases xs)
    case Nil
    with l b f show ?thesis by (auto simp: lru_def link_first_def Let_def)
  next
    case (Cons x ys)
    have d: "dlseg bs x ys BHEAD" "x \<noteq> b" "x \<noteq> BHEAD" "b \<notin> set ys" "BHEAD \<notin> set ys" "x \<notin> set ys"
      using l b Cons by (auto simp: lru_def)
    then have "dlseg (link_first b bs) x ys BHEAD \<longleftrightarrow> dlseg bs x ys BHEAD"
      using f b Cons by (intro dlseg_cong) (auto simp: link_first_def Let_def)
    with d l b f Cons show ?thesis by (auto simp: lru_def link_first_def Let_def)
  qed
qed

lemma unlink_eq:
  assumes "b_next (bs b) = n" "b_prev (bs b) = p" "n \<noteq> b" "p \<noteq> b"
  shows "b_next (unlink b bs x) = (if x = p then n else b_next (bs x))"
    and "b_prev (unlink b bs x) = (if x = n then p else b_prev (bs x))"
  using assms by (simp_all add: unlink_def Let_def)

text \<open>The same segment as a list whose neighbours are linked both ways.\<close>

lemma dlseg_successively:
  "dlseg bs p xs q \<longleftrightarrow> successively (\<lambda>x y. b_next (bs x) = y \<and> b_prev (bs y) = x) (p # xs @ [q])"
  by (induction xs arbitrary: p) auto

lemma successively_inner:
  assumes "successively P zs"
    and "\<And>x y. x \<in> set (butlast zs) \<Longrightarrow> y \<in> set (tl zs) \<Longrightarrow> P x y \<Longrightarrow> Q x y"
  shows "successively Q zs"
  using assms
proof (induction zs rule: induct_list012)
  case (3 x y zs)
  have "successively Q (y # zs)"
    using "3.prems" by (intro "3.IH"(2)) (auto split: if_splits dest: list.set_sel(2))
  then show ?case using "3.prems" by auto
qed auto

lemma dlseg_unlink:
  assumes d: "dlseg bs p (xs @ b # ys) q" and new: "b \<notin> set (p # q # xs @ ys)"
    and dist: "distinct (p # xs @ ys)" "distinct (xs @ ys @ [q])"
  shows "dlseg (unlink b bs) p (xs @ ys) q"
proof -
  define as where "as = p # xs"
  define cs where "cs = ys @ [q]"
  let ?L = "\<lambda>bs x y. b_next (bs x) = y \<and> b_prev (bs y) = (x :: nat)"
  have ne: "as \<noteq> []" "cs \<noteq> []" by (simp_all add: as_def cs_def)
  have "successively (?L bs) (as @ b # cs)"
    using d by (simp add: dlseg_successively as_def cs_def)
  then have s: "successively (?L bs) as" "successively (?L bs) cs"
    "b_prev (bs b) = last as" "b_next (bs b) = hd cs"
    using ne by (auto simp: successively_append_iff successively_Cons)
  have b: "hd cs \<noteq> b" "last as \<noteq> b"
    using new hd_in_set [OF ne(2)] last_in_set [OF ne(1)] by (auto simp: as_def cs_def)
  note u = unlink_eq [of bs b "hd cs" "last as", OF s(4) s(3) b]
  have "distinct (as @ ys)" "distinct (xs @ cs)" using dist by (auto simp: as_def cs_def)
  then have d1: "last as \<notin> set (butlast as)" "hd cs \<notin> set (tl cs)" "last as \<notin> set ys" "hd cs \<notin> set xs"
    using ne by (cases as rule: rev_cases; cases cs; simp)+
  have "successively (?L (unlink b bs)) as"
    by (rule successively_inner [OF s(1)]) (use d1 in \<open>auto simp: u as_def\<close>)
  moreover have "successively (?L (unlink b bs)) cs"
    by (rule successively_inner [OF s(2)]) (use d1 in \<open>auto simp: u cs_def\<close>)
  ultimately have "successively (?L (unlink b bs)) (as @ cs)"
    by (simp add: successively_append_iff u)
  then show ?thesis by (simp add: dlseg_successively as_def cs_def)
qed

lemma unlink_lru: "lru bs (xs @ b # ys) \<Longrightarrow> lru (unlink b bs) (xs @ ys)"
  unfolding lru_def by (auto intro: dlseg_unlink)

text \<open>Changes that leave the links alone.\<close>

definition same_links :: "(nat \<Rightarrow> buf) \<Rightarrow> (nat \<Rightarrow> buf) \<Rightarrow> bool" where
  "same_links bs cs \<longleftrightarrow> (\<forall>x. b_next (cs x) = b_next (bs x) \<and> b_prev (cs x) = b_prev (bs x))"

lemma same_links_lru: "same_links bs cs \<Longrightarrow> lru cs xs = lru bs xs"
  by (rule lru_cong) (simp_all add: same_links_def)

text \<open>What the list operations do not change.\<close>

definition same_payload :: "(nat \<Rightarrow> buf) \<Rightarrow> (nat \<Rightarrow> buf) \<Rightarrow> bool" where
  "same_payload bs cs \<longleftrightarrow> (\<forall>x. b_valid (cs x) = b_valid (bs x) \<and> b_disk (cs x) = b_disk (bs x) \<and>
     b_dev (cs x) = b_dev (bs x) \<and> blockno (cs x) = blockno (bs x) \<and> refcnt (cs x) = refcnt (bs x) \<and>
     b_data (cs x) = b_data (bs x))"

lemma same_payload_refl: "same_payload bs bs"
  by (simp add: same_payload_def)

lemma same_payload_upd:
  assumes "same_payload bs cs"
  shows "same_payload bs (cs(n := (cs n)\<lparr>b_prev := p\<rparr>))" "same_payload bs (cs(n := (cs n)\<lparr>b_next := p\<rparr>))"
  using assms by (simp_all add: same_payload_def)

lemma same_payload_link_first: "same_payload bs cs \<Longrightarrow> same_payload bs (link_first b cs)"
  unfolding link_first_def Let_def by (intro same_payload_upd)

lemma same_payload_unlink: "same_payload bs (unlink b bs)"
  unfolding unlink_def Let_def by (intro same_payload_upd same_payload_refl)

section \<open>The invariant\<close>

text \<open>
  \<open>H\<close> holds every block number once for each reference a caller has to its buffer.  The kernel
  mounts one device, so every valid buffer belongs to it; no two of its buffers stand for one
  block; a valid buffer agrees with the disk.
\<close>

definition is_for :: "buf \<Rightarrow> u32 \<Rightarrow> bool" where
  "is_for f blk \<longleftrightarrow> b_dev f = ROOTDEV \<and> blockno f = blk"

definition bcache_ok :: "'a bcache_scheme \<Rightarrow> u32 multiset \<Rightarrow> bool" where
  "bcache_ok s H \<longleftrightarrow>
     (\<exists>xs. lru (bufs s) xs \<and> set xs = {..<NBUF}) \<and>
     (\<forall>i j blk. i < NBUF \<longrightarrow> j < NBUF \<longrightarrow> is_for (bufs s i) blk \<longrightarrow> is_for (bufs s j) blk \<longrightarrow> i = j) \<and>
     (\<forall>i < NBUF. refcnt (bufs s i) =
        (if b_dev (bufs s i) = ROOTDEV then of_nat (count H (blockno (bufs s i))) else 0)) \<and>
     (\<forall>i < NBUF. b_valid (bufs s i) \<noteq> 0 \<longrightarrow> b_dev (bufs s i) = ROOTDEV \<and>
        unat (blockno (bufs s i)) < disk_blocks s \<and> b_data (bufs s i) = disk s (blockno (bufs s i))) \<and>
     (\<forall>blk \<in># H. \<exists>i < NBUF. is_for (bufs s i) blk \<and> b_valid (bufs s i) \<noteq> 0) \<and> size H < 2 ^ 32"

definition holds :: "'a bcache_scheme \<Rightarrow> nat \<Rightarrow> u32 \<Rightarrow> bool" where
  "holds s b blk \<longleftrightarrow> b < NBUF \<and> is_for (bufs s b) blk \<and> b_valid (bufs s b) \<noteq> 0"

text \<open>The cache changes the buffers and the disk and nothing else.\<close>

definition only_cache :: "'a bcache_scheme \<Rightarrow> 'a bcache_scheme \<Rightarrow> bool" where
  "only_cache s s' \<longleftrightarrow> s' = s\<lparr>disk := disk s', bufs := bufs s'\<rparr>"

lemma only_cache_refl [simp]: "only_cache s s"
  by (simp add: only_cache_def)

lemma only_cache_trans: "only_cache s t \<Longrightarrow> only_cache t u \<Longrightarrow> only_cache s u"
  by (cases s; cases t; cases u) (simp add: only_cache_def)

lemma only_cache_disk_blocks: "only_cache s s' \<Longrightarrow> disk_blocks s' = disk_blocks s"
  by (cases s; cases s') (simp add: only_cache_def)

lemma only_cache_update:
  "only_cache s (s\<lparr>bufs := x\<rparr>)" "only_cache s (s\<lparr>disk := y\<rparr>)"
  by (simp_all add: only_cache_def)

lemma only_cache_upd_buf: "only_cache s (upd_buf b f s)"
  unfolding upd_buf_def by (rule only_cache_update)

lemma only_cache_brelse: "only_cache s (brelse b s)"
proof -
  let ?s = "upd_buf b (\<lambda>f. f\<lparr>refcnt := refcnt f - 1\<rparr>) s"
  have "brelse b s = ?s \<or> brelse b s = ?s\<lparr>bufs := link_first b (unlink b (bufs ?s))\<rparr>"
    by (simp add: brelse_def Let_def)
  then show ?thesis
    by (elim disjE ssubst) (rule only_cache_upd_buf, rule only_cache_trans [OF only_cache_upd_buf only_cache_update(1)])
qed

lemma only_cache_disk_rw:
  assumes "disk_request b w s = Inr t"
  shows "only_cache s t"
proof -
  let ?blk = "blockno (bufs s b)"
  have "t = s\<lparr>disk := (disk s)(?blk := b_data (bufs s b))\<rparr> \<or> t = upd_buf b (\<lambda>f. f\<lparr>b_data := disk s ?blk\<rparr>) s"
    using assms by (auto simp: disk_request_def Let_def split: if_splits)
  then show ?thesis
    by (elim disjE ssubst) (rule only_cache_update only_cache_upd_buf)+
qed

lemma only_cache_bwrite: "bwrite b s = Inr t \<Longrightarrow> only_cache s t"
  unfolding bwrite_def by (rule only_cache_disk_rw)

lemmas only_cache_ops = only_cache_upd_buf only_cache_brelse only_cache_disk_rw only_cache_bwrite

lemma bget_only_cache: "bget dev blk s = Inr (b, t) \<Longrightarrow> only_cache s t"
  by (auto simp: bget_def bindE_eq_Inr only_cache_ops split: option.splits)

lemma bread_only_cache: "bread dev blk s = Inr (b, t) \<Longrightarrow> only_cache s t"
proof -
  assume "bread dev blk s = Inr (b, t)"
  then obtain s1 where g: "bget dev blk s = Inr (b, s1)"
    and c: "t = s1 \<or> (\<exists>s2. disk_request b False s1 = Inr s2 \<and> t = upd_buf b (\<lambda>f. f\<lparr>b_valid := 1\<rparr>) s2)"
    by (auto simp: bread_def bindE_eq_Inr split: if_splits)
  from c have "only_cache s1 t"
    by (elim disjE exE conjE) (simp, blast intro: only_cache_trans only_cache_ops(1,3))
  with bget_only_cache [OF g] show ?thesis by (rule only_cache_trans)
qed

lemma bcache_ok_list: "bcache_ok s H \<Longrightarrow> \<exists>xs. lru (bufs s) xs \<and> set xs = {..<NBUF}"
  unfolding bcache_ok_def by (elim conjE)

lemma bcache_ok_unique:
  "bcache_ok s H \<Longrightarrow> i < NBUF \<Longrightarrow> j < NBUF \<Longrightarrow> is_for (bufs s i) blk \<Longrightarrow> is_for (bufs s j) blk \<Longrightarrow> i = j"
  unfolding bcache_ok_def by (elim conjE) blast

lemma bcache_ok_refcnt:
  "bcache_ok s H \<Longrightarrow> i < NBUF \<Longrightarrow> refcnt (bufs s i) =
     (if b_dev (bufs s i) = ROOTDEV then of_nat (count H (blockno (bufs s i))) else 0)"
  unfolding bcache_ok_def by (elim conjE) (drule spec, erule (1) mp)

lemma bcache_ok_valid:
  "bcache_ok s H \<Longrightarrow> i < NBUF \<Longrightarrow> b_valid (bufs s i) \<noteq> 0 \<Longrightarrow> b_dev (bufs s i) = ROOTDEV \<and>
     unat (blockno (bufs s i)) < disk_blocks s \<and> b_data (bufs s i) = disk s (blockno (bufs s i))"
  unfolding bcache_ok_def by (elim conjE) blast

lemma bcache_ok_held: "bcache_ok s H \<Longrightarrow> blk \<in># H \<Longrightarrow> \<exists>i < NBUF. is_for (bufs s i) blk \<and> b_valid (bufs s i) \<noteq> 0"
  unfolding bcache_ok_def by (elim conjE) (erule (1) bspec)

lemma bcache_ok_size: "bcache_ok s H \<Longrightarrow> size H < 2 ^ 32"
  unfolding bcache_ok_def by (elim conjE)

lemmas bcache_okD = bcache_ok_list bcache_ok_unique bcache_ok_refcnt bcache_ok_valid bcache_ok_held bcache_ok_size

lemma holds_data: "bcache_ok s H \<Longrightarrow> holds s b blk \<Longrightarrow> b_data (bufs s b) = disk s blk \<and> unat blk < disk_blocks s"
  using bcache_okD(4) [of s H b] by (simp add: holds_def is_for_def)

lemma holds_unique: "bcache_ok s H \<Longrightarrow> holds s b blk \<Longrightarrow> holds s c blk \<Longrightarrow> b = c"
  using bcache_okD(2) [of s H b c blk] by (simp add: holds_def)

lemma held_exists: "bcache_ok s H \<Longrightarrow> blk \<in># H \<Longrightarrow> \<exists>b. holds s b blk"
  using bcache_okD(5) by (auto simp: holds_def)

lemma of_nat_count_0:
  assumes "size H < 2 ^ 32"
  shows "of_nat (count H x) = (0 :: u32) \<longleftrightarrow> x \<notin># H"
proof -
  have "count H x < 2 ^ 32" using assms count_le_size [of H x] by linarith
  then have d: "2 ^ 32 dvd count H x \<longleftrightarrow> count H x = 0"
    using nat_dvd_not_less [of "count H x" "2 ^ 32"] by (cases "count H x = 0") auto
  have "LENGTH(32) = 32" by simp
  then show ?thesis unfolding word_of_nat_eq_0_iff d [folded \<open>LENGTH(32) = 32\<close>] by (simp only: count_eq_zero_iff)
qed

lemma card_set_mset_le: "card (set_mset H) \<le> size H"
  by (induction H) (auto simp: card_insert_if)

text \<open>Fewer references than buffers leave a buffer free.\<close>

lemma free_buffer:
  assumes ok: "bcache_ok s H" and "size H < NBUF"
  shows "\<exists>i < NBUF. refcnt (bufs s i) = 0"
proof (rule ccontr)
  assume "\<not> ?thesis"
  then have nz: "refcnt (bufs s i) \<noteq> 0" if "i < NBUF" for i using that by blast
  have *: "is_for (bufs s i) (blockno (bufs s i)) \<and> blockno (bufs s i) \<in># H" if "i < NBUF" for i
    using nz [OF that] bcache_okD(3) [OF ok that] of_nat_count_0 [OF bcache_okD(6) [OF ok]]
    by (auto simp: is_for_def split: if_splits)
  then have inj: "inj_on (\<lambda>i. blockno (bufs s i)) {..<NBUF}"
    using bcache_okD(2) [OF ok] unfolding inj_on_def by (metis lessThan_iff)
  moreover have "(\<lambda>i. blockno (bufs s i)) ` {..<NBUF} \<subseteq> set_mset H"
    using * by auto
  ultimately have "NBUF \<le> card (set_mset H)" using card_inj_on_le [of _ "{..<NBUF}" "set_mset H"] by fastforce
  also have "\<dots> \<le> size H" by (rule card_set_mset_le)
  finally show False using assms(2) by simp
qed

section \<open>The operations keep the invariant\<close>

lemma lru_upd: "b_next f = b_next (bs b) \<Longrightarrow> b_prev f = b_prev (bs b) \<Longrightarrow> lru (bs(b := f)) xs = lru bs xs"
  by (rule lru_cong) simp_all

lemma bget_hit:
  assumes ok: "bcache_ok s H" and b: "b < NBUF" "is_for (bufs s b) blk"
  shows "bget ROOTDEV blk s = Inr (b, upd_buf b (\<lambda>f. f\<lparr>refcnt := refcnt f + 1\<rparr>) s)"
proof -
  obtain xs where l: "lru (bufs s) xs" and xs: "set xs = {..<NBUF}" using bcache_ok_list [OF ok] by blast
  let ?P = "\<lambda>f. b_dev f = ROOTDEV \<and> blockno f = blk"
  have "length xs = NBUF" using l xs distinct_card [of xs] by (simp add: lru_def)
  then have w: "walk_list (NBUF + 1) b_next ?P (bufs s) (b_next (bufs s BHEAD)) = Inr (find (\<lambda>b. ?P (bufs s b)) xs)"
    using l by (intro walk_list_next) (auto simp: lru_def)
  have "b \<in> set xs" using b xs by simp
  then obtain c where c: "find (\<lambda>b. ?P (bufs s b)) xs = Some c"
    using b(2) find_None_all [of "\<lambda>b. ?P (bufs s b)" xs]
    by (cases "find (\<lambda>b. ?P (bufs s b)) xs") (auto simp: is_for_def)
  then have "c \<in> set xs" "?P (bufs s c)" using find_SomeD [OF c] by auto
  then have "c = b" using bcache_ok_unique [OF ok _ b(1) _ b(2), of c] xs by (auto simp: is_for_def)
  then show ?thesis unfolding bget_def w c by simp
qed

lemma bget_miss:
  assumes ok: "bcache_ok s H" and none: "\<And>i. i < NBUF \<Longrightarrow> \<not> is_for (bufs s i) blk"
    and l: "lru (bufs s) xs" "set xs = {..<NBUF}" and b: "find (\<lambda>b. refcnt (bufs s b) = 0) (rev xs) = Some b"
  shows "bget ROOTDEV blk s =
    Inr (b, upd_buf b (\<lambda>f. f\<lparr>b_dev := ROOTDEV, blockno := blk, b_valid := 0, refcnt := 1\<rparr>) s)"
proof -
  let ?P = "\<lambda>f. b_dev f = ROOTDEV \<and> blockno f = blk"
  have len: "length xs = NBUF" using l distinct_card [of xs] by (simp add: lru_def)
  then have "walk_list (NBUF + 1) b_next ?P (bufs s) (b_next (bufs s BHEAD)) = Inr (find (\<lambda>b. ?P (bufs s b)) xs)"
    using l by (intro walk_list_next) (auto simp: lru_def)
  moreover have "find (\<lambda>b. ?P (bufs s b)) xs = None"
    using none l(2) by (auto simp: find_None_all is_for_def)
  moreover have "walk_list (NBUF + 1) b_prev (\<lambda>f. refcnt f = 0) (bufs s) (b_prev (bufs s BHEAD)) = Inr (Some b)"
    using walk_list_prev [of "bufs s" xs BHEAD "NBUF + 1" "\<lambda>f. refcnt f = 0"] l len b by (simp add: lru_def)
  ultimately show ?thesis unfolding bget_def by simp
qed

text \<open>The state after buffer \<open>b\<close> has become one more reference to block \<open>blk\<close>.\<close>

lemma bcache_ok_acquire:
  assumes ok: "bcache_ok s H" and b: "b < NBUF" and links: "b_next f = b_next (bufs s b)" "b_prev f = b_prev (bufs s b)"
    and f: "is_for f blk" "b_valid f \<noteq> 0" "b_data f = disk s blk" "unat blk < disk_blocks s"
    and cnt: "refcnt f = of_nat (Suc (count H blk))" "size H < NBUF"
    and others: "\<And>i. i < NBUF \<Longrightarrow> i \<noteq> b \<Longrightarrow> \<not> is_for (bufs s i) blk"
    and old: "\<And>k. is_for (bufs s b) k \<Longrightarrow> k = blk \<or> k \<notin># H"
  shows "bcache_ok (s\<lparr>bufs := (bufs s)(b := f)\<rparr>) (add_mset blk H)"
  unfolding bcache_ok_def
proof (intro conjI allI impI ballI)
  let ?s = "s\<lparr>bufs := (bufs s)(b := f)\<rparr>"
  show "\<exists>xs. lru (bufs ?s) xs \<and> set xs = {..<NBUF}"
    using bcache_ok_list [OF ok] lru_upd [of f "bufs s" b] links by simp
  show "i = j" if "i < NBUF" "j < NBUF" "is_for (bufs ?s i) k" "is_for (bufs ?s j) k" for i j k
    using that others f(1) bcache_ok_unique [OF ok that(1,2)]
    by (auto simp: is_for_def split: if_splits)
  show "refcnt (bufs ?s i) = (if b_dev (bufs ?s i) = ROOTDEV
      then of_nat (count (add_mset blk H) (blockno (bufs ?s i))) else 0)" if "i < NBUF" for i
    using f(1) cnt(1) others [OF that] bcache_ok_refcnt [OF ok that] by (auto simp: is_for_def)
  show "b_dev (bufs ?s i) = ROOTDEV" "unat (blockno (bufs ?s i)) < disk_blocks ?s"
    "b_data (bufs ?s i) = disk ?s (blockno (bufs ?s i))" if "i < NBUF" "b_valid (bufs ?s i) \<noteq> 0" for i
    using that f bcache_ok_valid [OF ok that(1)] by (auto simp: is_for_def split: if_splits)
  show "\<exists>i < NBUF. is_for (bufs ?s i) k \<and> b_valid (bufs ?s i) \<noteq> 0" if k: "k \<in># add_mset blk H" for k
  proof (cases "k = blk")
    case True
    then show ?thesis using b f by (intro exI [of _ b]) simp
  next
    case False
    then obtain i where "i < NBUF" "is_for (bufs s i) k" "b_valid (bufs s i) \<noteq> 0"
      using k bcache_ok_held [OF ok, of k] by auto
    moreover have "i \<noteq> b" using old [of k] False k calculation by auto
    ultimately show ?thesis by (intro exI [of _ i]) simp
  qed
  show "size (add_mset blk H) < 2 ^ 32" using cnt(2) by simp
qed

lemma bread_ok:
  assumes ok: "bcache_ok s H" and room: "size H < NBUF" and cap: "unat blk < disk_blocks s"
  obtains b s' where "bread ROOTDEV blk s = Inr (b, s')" "bcache_ok s' (add_mset blk H)" "holds s' b blk"
    "disk s' = disk s" "only_cache s s'" "\<And>c k. k \<in># H \<Longrightarrow> holds s c k \<Longrightarrow> holds s' c k"
proof (cases "\<exists>b<NBUF. is_for (bufs s b) blk")
  case True
  then obtain b where b: "b < NBUF" "is_for (bufs s b) blk" by blast
  let ?f = "(bufs s b)\<lparr>refcnt := of_nat (Suc (count H blk)), b_data := disk s blk,
      b_valid := (if b_valid (bufs s b) = 0 then 1 else b_valid (bufs s b))\<rparr>"
  let ?t = "s\<lparr>bufs := (bufs s)(b := ?f)\<rparr>"
  have r: "refcnt (bufs s b) + 1 = of_nat (Suc (count H blk))"
    using bcache_ok_refcnt [OF ok b(1)] b(2) by (simp add: is_for_def)
  have v: "b_valid (bufs s b) \<noteq> 0 \<Longrightarrow> b_data (bufs s b) = disk s blk"
    using bcache_ok_valid [OF ok b(1)] b(2) by (simp add: is_for_def)
  have t: "bread ROOTDEV blk s = Inr (b, ?t)"
  proof (cases "b_valid (bufs s b) = 0")
    case True
    then show ?thesis
      using b(2) cap unfolding bread_def bget_hit [OF ok b] r [symmetric]
      by (simp add: disk_request_def upd_buf_def Let_def is_for_def)
  next
    case False
    have "?f = (bufs s b)\<lparr>refcnt := refcnt (bufs s b) + 1\<rparr>"
      using False v [OF False] unfolding r by (intro buf.equality) simp_all
    then show ?thesis
      using False unfolding bread_def bget_hit [OF ok b] by (simp add: upd_buf_def)
  qed
  have others: "\<not> is_for (bufs s i) blk" if "i < NBUF" "i \<noteq> b" for i
    using bcache_ok_unique [OF ok that(1) b(1) _ b(2)] that(2) by blast
  have "bcache_ok ?t (add_mset blk H)"
    by (rule bcache_ok_acquire [OF ok b(1) _ _ _ _ _ cap _ room others])
      (use b(2) in \<open>simp_all add: is_for_def\<close>)
  then show thesis
    using that [OF t] b bread_only_cache [OF t] by (auto simp: holds_def is_for_def)
next
  case False
  then have none: "\<And>i. i < NBUF \<Longrightarrow> \<not> is_for (bufs s i) blk" by blast
  obtain xs where l: "lru (bufs s) xs" "set xs = {..<NBUF}" using bcache_ok_list [OF ok] by blast
  obtain b where fb: "find (\<lambda>b. refcnt (bufs s b) = 0) (rev xs) = Some b"
    using free_buffer [OF ok room] l(2) find_None_all [of "\<lambda>b. refcnt (bufs s b) = 0" "rev xs"]
    by (cases "find (\<lambda>b. refcnt (bufs s b) = 0) (rev xs)") auto
  then have b: "b < NBUF" "refcnt (bufs s b) = 0" using find_SomeD [OF fb] l(2) by auto
  let ?f = "(bufs s b)\<lparr>b_dev := ROOTDEV, blockno := blk, refcnt := 1, b_data := disk s blk, b_valid := 1\<rparr>"
  let ?t = "s\<lparr>bufs := (bufs s)(b := ?f)\<rparr>"
  have t: "bread ROOTDEV blk s = Inr (b, ?t)"
    using cap bget_miss [OF ok none l fb] unfolding bread_def
    by (simp add: disk_request_def upd_buf_def Let_def del: ROOTDEV_def)
  have free: "k \<notin># H" if "is_for (bufs s b) k" for k
    using that b bcache_ok_refcnt [OF ok b(1)] of_nat_count_0 [OF bcache_ok_size [OF ok]]
    by (auto simp: is_for_def)
  have "blk \<notin># H" using none bcache_ok_held [OF ok, of blk] by blast
  then have "bcache_ok ?t (add_mset blk H)"
    by (intro bcache_ok_acquire [OF ok b(1) _ _ _ _ _ cap _ room none])
      (use free in \<open>auto simp: is_for_def not_in_iff\<close>)
  moreover have "holds ?t c k" if "k \<in># H" "holds s c k" for c k
    using that free [of k] by (auto simp: holds_def)
  ultimately show thesis
    using that [OF t] b bread_only_cache [OF t] by (auto simp: holds_def is_for_def)
qed

text \<open>Changing the data of a held buffer and writing it through.\<close>

definition set_data :: "nat \<Rightarrow> block \<Rightarrow> 'a bcache_scheme \<Rightarrow> 'a bcache_scheme" where
  "set_data b d s = upd_buf b (\<lambda>f. f\<lparr>b_data := d\<rparr>) s"

lemma bwrite_ok:
  assumes ok: "bcache_ok s H" and h: "holds s b blk"
  obtains s' where "bwrite b (set_data b d s) = Inr s'" "bcache_ok s' H" "disk s' = (disk s)(blk := d)"
    "only_cache s s'" "\<And>c k. holds s' c k \<longleftrightarrow> holds s c k"
proof -
  have b: "b < NBUF" "b_dev (bufs s b) = ROOTDEV" "blockno (bufs s b) = blk" "b_valid (bufs s b) \<noteq> 0"
    using h by (auto simp: holds_def is_for_def)
  let ?t = "s\<lparr>bufs := (bufs s)(b := (bufs s b)\<lparr>b_data := d\<rparr>), disk := (disk s)(blk := d)\<rparr>"
  have t: "bwrite b (set_data b d s) = Inr ?t"
    using holds_data [OF ok h] b by (simp add: bwrite_def set_data_def disk_request_def upd_buf_def Let_def)
  have same: "b_dev (bufs ?t i) = b_dev (bufs s i)" "blockno (bufs ?t i) = blockno (bufs s i)"
    "b_valid (bufs ?t i) = b_valid (bufs s i)" "refcnt (bufs ?t i) = refcnt (bufs s i)" for i
    by simp_all
  have isf: "is_for (bufs ?t i) k \<longleftrightarrow> is_for (bufs s i) k" for i k
    by (simp add: is_for_def)
  have "bcache_ok ?t H"
    unfolding bcache_ok_def
  proof (intro conjI allI impI ballI)
    show "\<exists>xs. lru (bufs ?t) xs \<and> set xs = {..<NBUF}"
      using bcache_ok_list [OF ok] lru_upd [of "(bufs s b)\<lparr>b_data := d\<rparr>" "bufs s" b] by simp
    show "i = j" if "i < NBUF" "j < NBUF" "is_for (bufs ?t i) k" "is_for (bufs ?t j) k" for i j k
      using bcache_ok_unique [OF ok that(1,2)] that(3,4) unfolding isf by blast
    show "refcnt (bufs ?t i) = (if b_dev (bufs ?t i) = ROOTDEV
        then of_nat (count H (blockno (bufs ?t i))) else 0)" if "i < NBUF" for i
      using bcache_ok_refcnt [OF ok that] unfolding same .
    show "b_dev (bufs ?t i) = ROOTDEV" "unat (blockno (bufs ?t i)) < disk_blocks ?t"
      if "i < NBUF" "b_valid (bufs ?t i) \<noteq> 0" for i
      using bcache_ok_valid [OF ok that(1)] that(2) unfolding same by simp_all
    show "b_data (bufs ?t i) = disk ?t (blockno (bufs ?t i))" if "i < NBUF" "b_valid (bufs ?t i) \<noteq> 0" for i
    proof (cases "i = b")
      case False
      have v: "b_dev (bufs s i) = ROOTDEV" "b_data (bufs s i) = disk s (blockno (bufs s i))"
        using bcache_ok_valid [OF ok that(1)] that(2) unfolding same by simp_all
      then have "blockno (bufs s i) \<noteq> blk"
        using bcache_ok_unique [OF ok that(1) b(1), of blk] False b by (auto simp: is_for_def)
      then show ?thesis using v False by simp
    qed (use b in simp)
    show "\<exists>i < NBUF. is_for (bufs ?t i) k \<and> b_valid (bufs ?t i) \<noteq> 0" if "k \<in># H" for k
      using bcache_ok_held [OF ok that] unfolding isf same .
    show "size H < 2 ^ 32" by (rule bcache_ok_size [OF ok])
  qed
  then show thesis
    using that [OF t] by (auto simp: holds_def is_for_def only_cache_def)
qed

lemma same_payload_fields:
  assumes "same_payload bs cs"
  shows "b_valid (cs x) = b_valid (bs x)" "b_dev (cs x) = b_dev (bs x)" "blockno (cs x) = blockno (bs x)"
    "refcnt (cs x) = refcnt (bs x)" "b_data (cs x) = b_data (bs x)" "is_for (cs x) k = is_for (bs x) k"
  using assms by (simp_all add: same_payload_def is_for_def)

text \<open>The invariant depends on the links only through the list.\<close>

lemma bcache_ok_relink:
  assumes "bcache_ok s H" "same_payload (bufs s) bs" "lru bs xs" "set xs = {..<NBUF}"
  shows "bcache_ok (s\<lparr>bufs := bs\<rparr>) H"
  using assms(1,3,4) same_payload_fields [OF assms(2)] unfolding bcache_ok_def by auto

lemma brelse_payload:
  "same_payload (bufs (upd_buf b (\<lambda>f. f\<lparr>refcnt := refcnt f - 1\<rparr>) s)) (bufs (brelse b s))"
  by (auto simp: brelse_def Let_def same_payload_refl intro!: same_payload_link_first same_payload_unlink)

lemma brelse_ok:
  assumes ok: "bcache_ok s H" and h: "holds s b blk" and mem: "blk \<in># H"
  shows "bcache_ok (brelse b s) (H - {#blk#})" "disk (brelse b s) = disk s" "only_cache s (brelse b s)"
    "holds (brelse b s) c k \<longleftrightarrow> holds s c k"
proof -
  have b: "b < NBUF" "b_dev (bufs s b) = ROOTDEV" "blockno (bufs s b) = blk" "b_valid (bufs s b) \<noteq> 0"
    using h by (auto simp: holds_def is_for_def)
  let ?t = "upd_buf b (\<lambda>f. f\<lparr>refcnt := refcnt f - 1\<rparr>) s"
  have t: "bufs ?t = (bufs s)(b := (bufs s b)\<lparr>refcnt := refcnt (bufs s b) - 1\<rparr>)" "disk ?t = disk s"
    "disk_blocks ?t = disk_blocks s"
    by (simp_all add: upd_buf_def)
  have same: "b_dev (bufs ?t i) = b_dev (bufs s i)" "blockno (bufs ?t i) = blockno (bufs s i)"
    "b_valid (bufs ?t i) = b_valid (bufs s i)" "b_data (bufs ?t i) = b_data (bufs s i)" for i
    by (simp_all add: t)
  have isf: "is_for (bufs ?t i) k \<longleftrightarrow> is_for (bufs s i) k" for i k
    by (simp add: is_for_def t)
  have other: "blockno (bufs s i) \<noteq> blk" if "i < NBUF" "i \<noteq> b" "b_dev (bufs s i) = ROOTDEV" for i
    using bcache_ok_unique [OF ok that(1) b(1), of blk] that b by (auto simp: is_for_def)
  have ok1: "bcache_ok ?t (H - {#blk#})"
    unfolding bcache_ok_def
  proof (intro conjI allI impI ballI)
    show "\<exists>xs. lru (bufs ?t) xs \<and> set xs = {..<NBUF}"
      using bcache_ok_list [OF ok] lru_upd [of "(bufs s b)\<lparr>refcnt := refcnt (bufs s b) - 1\<rparr>" "bufs s" b]
      by (simp add: t)
    show "i = j" if "i < NBUF" "j < NBUF" "is_for (bufs ?t i) k" "is_for (bufs ?t j) k" for i j k
      using bcache_ok_unique [OF ok that(1,2)] that(3,4) unfolding isf by blast
    show "refcnt (bufs ?t i) = (if b_dev (bufs ?t i) = ROOTDEV
        then of_nat (count (H - {#blk#}) (blockno (bufs ?t i))) else 0)" if "i < NBUF" for i
    proof (cases "i = b")
      case True
      obtain n where "count H blk = Suc n" using mem by (metis count_eq_zero_iff not0_implies_Suc)
      then show ?thesis using True b bcache_ok_refcnt [OF ok b(1)] by (simp add: t)
    next
      case False
      then show ?thesis using bcache_ok_refcnt [OF ok that] other [OF that False] by (auto simp: t)
    qed
    show "b_dev (bufs ?t i) = ROOTDEV" "unat (blockno (bufs ?t i)) < disk_blocks ?t"
      "b_data (bufs ?t i) = disk ?t (blockno (bufs ?t i))"
      if "i < NBUF" "b_valid (bufs ?t i) \<noteq> 0" for i
      using bcache_ok_valid [OF ok that(1)] that(2) unfolding same t(2,3) by simp_all
    show "\<exists>i < NBUF. is_for (bufs ?t i) k \<and> b_valid (bufs ?t i) \<noteq> 0" if "k \<in># H - {#blk#}" for k
      using bcache_ok_held [OF ok in_diffD [OF that]] unfolding isf same .
    show "size (H - {#blk#}) < 2 ^ 32"
      using bcache_ok_size [OF ok] size_Diff_submset [of "{#blk#}" H] mem by (simp add: size_Diff_singleton)
  qed
  obtain xs where l: "lru (bufs ?t) xs" "set xs = {..<NBUF}" using bcache_ok_list [OF ok1] by blast
  obtain ys zs where xs: "xs = ys @ b # zs" using l(2) b(1) split_list [of b xs] by auto
  have hd30: "b \<noteq> BHEAD" "b \<notin> set (ys @ zs)" using l b xs by (auto simp: lru_def)
  have lru': "lru (link_first b (unlink b (bufs ?t))) (b # ys @ zs)"
    using link_first_lru [OF unlink_lru [OF l(1) [unfolded xs]] hd30(2,1)] .
  have "bcache_ok (?t\<lparr>bufs := link_first b (unlink b (bufs ?t))\<rparr>) (H - {#blk#})"
    by (rule bcache_ok_relink [OF ok1 same_payload_link_first [OF same_payload_unlink] lru'])
      (use l(2) xs in auto)
  then show "bcache_ok (brelse b s) (H - {#blk#})"
    using ok1 by (simp add: brelse_def Let_def)
  show "disk (brelse b s) = disk s" by (simp add: brelse_def upd_buf_def Let_def)
  show "only_cache s (brelse b s)" by (rule only_cache_ops)
  show "holds (brelse b s) c k \<longleftrightarrow> holds s c k"
    unfolding holds_def same_payload_fields [OF brelse_payload] isf same ..
qed

section \<open>The cache as its clients see it\<close>

text \<open>
  What the file system relies on: a block read stays attached to its buffer until it is
  released, the data of a held buffer is the content of the block, and a modified buffer that
  is written through becomes the content.  The client lemmas are the two patterns every
  routine of \<open>fs.c\<close> uses: read, look, release; and read, modify, write, release.
\<close>

locale block_cache =
  fixes ok :: "'s \<Rightarrow> 'k multiset \<Rightarrow> bool"
    and content :: "'s \<Rightarrow> 'k \<Rightarrow> 'd"
    and exists :: "'s \<Rightarrow> 'k \<Rightarrow> bool"
    and held :: "'s \<Rightarrow> 'b \<Rightarrow> 'k \<Rightarrow> bool"
    and look :: "'s \<Rightarrow> 'b \<Rightarrow> 'd"
    and acquire :: "'k \<Rightarrow> 's \<Rightarrow> ('b \<times> 's) res"
    and store :: "'b \<Rightarrow> 'd \<Rightarrow> 's \<Rightarrow> 's res"
    and release :: "'b \<Rightarrow> 's \<Rightarrow> 's"
    and frame :: "'s \<Rightarrow> 's \<Rightarrow> bool"
    and room :: nat
  assumes acquire_ok: "ok s H \<Longrightarrow> size H < room \<Longrightarrow> exists s k \<Longrightarrow>
      \<exists>b s'. acquire k s = Inr (b, s') \<and> ok s' (add_mset k H) \<and> held s' b k \<and> content s' = content s \<and>
        frame s s' \<and> (\<forall>c j. j \<in># H \<longrightarrow> held s c j \<longrightarrow> held s' c j)"
    and store_ok: "ok s H \<Longrightarrow> held s b k \<Longrightarrow>
      \<exists>s'. store b d s = Inr s' \<and> ok s' H \<and> content s' = (content s)(k := d) \<and> frame s s' \<and>
        (\<forall>c j. held s' c j \<longleftrightarrow> held s c j)"
    and release_ok: "ok s H \<Longrightarrow> held s b k \<Longrightarrow> k \<in># H \<Longrightarrow>
      ok (release b s) (H - {#k#}) \<and> content (release b s) = content s \<and> frame s (release b s) \<and>
        (\<forall>c j. held (release b s) c j \<longleftrightarrow> held s c j)"
    and look_held: "ok s H \<Longrightarrow> held s b k \<Longrightarrow> look s b = content s k"
    and frame_trans: "frame s t \<Longrightarrow> frame t u \<Longrightarrow> frame s u"
begin

lemma read_release:
  assumes "ok s H" "size H < room" "exists s k"
  obtains b s' where "acquire k s = Inr (b, s')" "look s' b = content s k" "ok (release b s') H"
    "content s' = content s" "content (release b s') = content s" "frame s (release b s')" "held s' b k"
    "ok s' (add_mset k H)" "frame s s'" "\<forall>c j. j \<in># H \<longrightarrow> held s c j \<longrightarrow> held (release b s') c j"
proof -
  obtain b s' where a: "acquire k s = Inr (b, s')" "ok s' (add_mset k H)" "held s' b k" "content s' = content s"
    "frame s s'" "\<forall>c j. j \<in># H \<longrightarrow> held s c j \<longrightarrow> held s' c j"
    using acquire_ok [OF assms] by blast
  have r: "ok (release b s') H" "content (release b s') = content s'" "frame s' (release b s')"
    "\<forall>c j. held (release b s') c j \<longleftrightarrow> held s' c j"
    using release_ok [OF a(2,3)] by simp_all
  show thesis
    by (rule that [of b s']) (use a r look_held [OF a(2,3)] frame_trans [OF a(5) r(3)] in simp_all)
qed

lemma read_modify_write:
  assumes "ok s H" "size H < room" "exists s k"
  obtains b s1 s2 where "acquire k s = Inr (b, s1)" "look s1 b = content s k"
    "store b (f (content s k)) s1 = Inr s2" "ok (release b s2) H"
    "content (release b s2) = (content s)(k := f (content s k))" "frame s (release b s2)" "frame s s1"
    "ok s1 (add_mset k H)" "held s1 b k" "\<forall>c j. j \<in># H \<longrightarrow> held s c j \<longrightarrow> held (release b s2) c j"
proof -
  obtain b s1 where a: "acquire k s = Inr (b, s1)" "ok s1 (add_mset k H)" "held s1 b k" "content s1 = content s"
    "frame s s1" "\<forall>c j. j \<in># H \<longrightarrow> held s c j \<longrightarrow> held s1 c j"
    using acquire_ok [OF assms] by blast
  obtain s2 where w: "store b (f (content s k)) s1 = Inr s2" "ok s2 (add_mset k H)"
    "content s2 = (content s1)(k := f (content s k))" "frame s1 s2" "\<forall>c j. held s2 c j \<longleftrightarrow> held s1 c j"
    using store_ok [OF a(2,3)] by blast
  have h: "held s2 b k" using w(5) a(3) by blast
  have r: "ok (release b s2) H" "content (release b s2) = content s2" "frame s2 (release b s2)"
    "\<forall>c j. held (release b s2) c j \<longleftrightarrow> held s2 c j"
    using release_ok [OF w(2) h] by simp_all
  show thesis
    by (rule that [of b s1 s2])
      (use a w r look_held [OF a(2,3)] frame_trans [OF frame_trans [OF a(5) w(4)] r(3)] in simp_all)
qed

end

interpretation bc: block_cache bcache_ok disk "\<lambda>s k. unat k < disk_blocks s" holds
  "\<lambda>s b. b_data (bufs s b)" "bread ROOTDEV" "\<lambda>b d s. bwrite b (set_data b d s)" brelse only_cache NBUF
proof
  fix s :: "'a bcache_scheme" and H and k :: u32
  assume "bcache_ok s H" "size H < NBUF" "unat k < disk_blocks s"
  then show "\<exists>b s'. bread ROOTDEV k s = Inr (b, s') \<and> bcache_ok s' (add_mset k H) \<and> holds s' b k \<and>
      disk s' = disk s \<and> only_cache s s' \<and> (\<forall>c j. j \<in># H \<longrightarrow> holds s c j \<longrightarrow> holds s' c j)"
    by (rule bread_ok) blast
next
  fix s :: "'a bcache_scheme" and H b k d
  assume "bcache_ok s H" "holds s b k"
  then show "\<exists>s'. bwrite b (set_data b d s) = Inr s' \<and> bcache_ok s' H \<and> disk s' = (disk s)(k := d) \<and>
      only_cache s s' \<and> (\<forall>c j. holds s' c j \<longleftrightarrow> holds s c j)"
    by (rule bwrite_ok) blast
next
  fix s :: "'a bcache_scheme" and H b k
  assume "bcache_ok s H" "holds s b k" "k \<in># H"
  then show "bcache_ok (brelse b s) (H - {#k#}) \<and> disk (brelse b s) = disk s \<and> only_cache s (brelse b s) \<and>
      (\<forall>c j. holds (brelse b s) c j \<longleftrightarrow> holds s c j)"
    using brelse_ok by blast
next
  fix s :: "'a bcache_scheme" and H b k
  assume "bcache_ok s H" "holds s b k"
  then show "b_data (bufs s b) = disk s k" using holds_data by blast
next
  fix s t u :: "'a bcache_scheme"
  assume "only_cache s t" "only_cache t u"
  then show "only_cache s u" by (rule only_cache_trans)
qed

section \<open>The list binit builds\<close>

lemma fold_link_first:
  assumes "lru bs []" and "n \<le> NBUF"
  shows "lru (fold link_first [0..<n] bs) (rev [0..<n])"
  using assms(2)
proof (induction n)
  case (Suc n)
  then have "lru (link_first n (fold link_first [0..<n] bs)) (n # rev [0..<n])"
    by (intro link_first_lru) (auto simp: BHEAD_def)
  then show ?case by simp
qed (use assms(1) in simp)

lemma binit_lru: "lru (bufs (binit s)) (rev [0..<NBUF])"
proof -
  let ?bs = "(bufs s)(BHEAD := (bufs s BHEAD)\<lparr>b_prev := BHEAD, b_next := BHEAD\<rparr>)"
  have "lru ?bs []" by (simp add: lru_def)
  then show ?thesis using fold_link_first [of ?bs NBUF] by (simp add: binit_def)
qed

lemma fold_link_first_payload: "same_payload bs cs \<Longrightarrow> same_payload bs (fold link_first xs cs)"
  by (induction xs arbitrary: cs) (auto intro: same_payload_link_first)

text \<open>The buffers as the zeroed data segment leaves them.\<close>

definition fresh_bufs :: "'a bcache_scheme \<Rightarrow> bool" where
  "fresh_bufs s \<longleftrightarrow> (\<forall>i < NBUF. b_valid (bufs s i) = 0 \<and> b_dev (bufs s i) = 0 \<and> refcnt (bufs s i) = 0)"

lemma binit_payload: "same_payload (bufs s) (bufs (binit s))"
proof -
  let ?bs = "(bufs s)(BHEAD := (bufs s BHEAD)\<lparr>b_prev := BHEAD, b_next := BHEAD\<rparr>)"
  have "same_payload (bufs s) ?bs" by (simp add: same_payload_def)
  then show ?thesis unfolding binit_def by (simp add: fold_link_first_payload)
qed

lemma binit_ok:
  assumes "fresh_bufs s"
  shows "bcache_ok (binit s) {#}"
proof -
  note p = same_payload_fields [OF binit_payload [of s]]
  have z: "b_valid (bufs (binit s) i) = 0" "b_dev (bufs (binit s) i) = 0" "refcnt (bufs (binit s) i) = 0"
    if "i < NBUF" for i
    using assms that unfolding fresh_bufs_def p by simp_all
  have "set (rev [0..<NBUF]) = {..<NBUF}" by auto
  then show ?thesis
    unfolding bcache_ok_def using binit_lru [of s] z by (auto simp: is_for_def)
qed

section \<open>Properties\<close>

text \<open>
  On the zeroed buffers of a fresh boot, \<open>binit\<close> links all 30 of them into one circular
  list, the last initialised first, and establishes the invariant of the cache.
\<close>

theorem binit_establishes:
  assumes "fresh_bufs s"
  shows "lru (bufs (binit s)) (rev [0..<NBUF]) \<and> bcache_ok (binit s) {#} \<and> disk (binit s) = disk s"
  using binit_lru binit_ok [OF assms] by (simp add: binit_def)

definition demo_boot_cache :: bcache where
  "demo_boot_cache = \<lparr>memory = \<lambda>_. 0, console_out = [], free_mem_list = 0, kernel_pagetable = 0, satp = 0,
     disk = \<lambda>_ _. 0, disk_blocks = 1000,
     bufs = \<lambda>_. \<lparr>b_valid = 0, b_disk = 0, b_dev = 0, blockno = 0, refcnt = 0, b_prev = 0, b_next = 0,
       b_data = \<lambda>_. 0\<rparr>\<rparr>"

definition demo_cache :: bcache where
  "demo_cache = binit demo_boot_cache"

lemma demo_cache_ok: "bcache_ok demo_cache {#}" "disk_blocks demo_cache = 1000" "fresh_bufs demo_boot_cache"
proof -
  show f: "fresh_bufs demo_boot_cache" by (simp add: fresh_bufs_def demo_boot_cache_def)
  show "bcache_ok demo_cache {#}" unfolding demo_cache_def by (rule binit_ok [OF f])
  show "disk_blocks demo_cache = 1000" by (simp add: demo_cache_def binit_def demo_boot_cache_def)
qed

theorem binit_establishes_witness:
  "fresh_bufs demo_boot_cache \<and> bcache_ok (binit demo_boot_cache) {#}"
  using binit_establishes [OF demo_cache_ok(3)] demo_cache_ok(3) by blast

text \<open>
  C28: While fewer than 30 references are out, \<open>bread\<close> of a block the disk has never panics: it
  returns a buffer that holds the block's content, keeps at most one buffer per block, leaves
  the disk as it is, and takes no buffer away from a caller that still holds one.
\<close>

theorem bread_reads_block:
  assumes "bcache_ok s H" and "size H < NBUF" and "unat blk < disk_blocks s"
  shows "\<exists>b s'. bread ROOTDEV blk s = Inr (b, s') \<and> bcache_ok s' (add_mset blk H) \<and> holds s' b blk \<and>
    b_data (bufs s' b) = disk s blk \<and> disk s' = disk s \<and>
    (\<forall>c k. k \<in># H \<and> holds s c k \<longrightarrow> holds s' c k \<and> (c = b \<longleftrightarrow> k = blk))"
proof -
  obtain b s' where r: "bread ROOTDEV blk s = Inr (b, s')" "bcache_ok s' (add_mset blk H)" "holds s' b blk"
    "disk s' = disk s" "\<forall>c k. k \<in># H \<longrightarrow> holds s c k \<longrightarrow> holds s' c k"
    using bc.acquire_ok [OF assms] by blast
  have "c = b \<longleftrightarrow> k = blk" if "holds s' c k" for c k
    using that r(3) holds_unique [OF r(2), of c blk b] by (auto simp: holds_def is_for_def)
  with r holds_data [OF r(2,3)] show ?thesis
    by (intro exI [of _ b] exI [of _ s']) auto
qed

theorem bread_reads_block_witness:
  "\<exists>b s'. bread ROOTDEV 7 demo_cache = Inr (b, s') \<and> bcache_ok s' {#7#} \<and> holds s' b 7 \<and>
    b_data (bufs s' b) = disk demo_cache 7"
proof -
  have "unat (7 :: u32) < disk_blocks demo_cache" by (simp add: demo_cache_ok)
  from bread_reads_block [OF demo_cache_ok(1) _ this] show ?thesis by auto
qed

text \<open>
  C12: A block that is not cached takes the free buffer that was used least recently: the one
  nearest to the tail of the list, which every buffer after it in the list is in use.
\<close>

theorem bget_evicts_least_recent:
  assumes "bcache_ok s H" and "\<forall>i < NBUF. \<not> is_for (bufs s i) blk"
    and "lru (bufs s) (xs @ b # ys)" and "set (xs @ b # ys) = {..<NBUF}"
    and "refcnt (bufs s b) = 0" and "\<forall>y \<in> set ys. refcnt (bufs s y) \<noteq> 0"
  shows "\<exists>s'. bget ROOTDEV blk s = Inr (b, s') \<and> is_for (bufs s' b) blk \<and> b_valid (bufs s' b) = 0 \<and>
    refcnt (bufs s' b) = 1 \<and> (\<forall>c. c \<noteq> b \<longrightarrow> bufs s' c = bufs s c)"
proof -
  have "find (\<lambda>b. refcnt (bufs s b) = 0) (rev ys @ zs) = find (\<lambda>b. refcnt (bufs s b) = 0) zs" for zs
    using assms(6) by (induction ys arbitrary: zs) auto
  then have "find (\<lambda>b. refcnt (bufs s b) = 0) (rev (xs @ b # ys)) = Some b" using assms(5) by simp
  from bget_miss [OF assms(1) _ assms(3,4) this] assms(2) show ?thesis
    by (simp add: upd_buf_def is_for_def)
qed

theorem bget_evicts_least_recent_witness:
  "\<exists>s'. bget ROOTDEV 7 demo_cache = Inr (0, s') \<and> is_for (bufs s' 0) 7"
proof -
  have p: "same_payload (bufs demo_boot_cache) (bufs demo_cache)"
    unfolding demo_cache_def by (rule binit_payload)
  have 1: "\<forall>i < NBUF. \<not> is_for (bufs demo_cache i) 7" and 2: "refcnt (bufs demo_cache 0) = 0"
    unfolding same_payload_fields [OF p] by (simp_all add: demo_boot_cache_def is_for_def)
  have "rev [0..<NBUF] = rev [1..<NBUF] @ 0 # []" by (simp add: upt_conv_Cons)
  then have 3: "lru (bufs demo_cache) (rev [1..<NBUF] @ 0 # [])"
    unfolding demo_cache_def using binit_lru by metis
  have 4: "set (rev [1..<NBUF] @ 0 # []) = {..<NBUF}" by auto
  show ?thesis
    using bget_evicts_least_recent [OF demo_cache_ok(1) 1 3 4 2] by auto
qed

text \<open>
  With every buffer referenced and none of them for the wanted block, \<open>bget\<close> panics.
\<close>

theorem bget_panics_when_full:
  assumes "lru (bufs s) xs" and "set xs = {..<NBUF}"
    and "\<forall>i < NBUF. refcnt (bufs s i) \<noteq> 0 \<and> \<not> (b_dev (bufs s i) = dev \<and> blockno (bufs s i) = blk)"
  shows "bget dev blk s = Inl (Panic ''bget: no buffers'')"
proof -
  have len: "length xs = NBUF" using assms(1,2) distinct_card [of xs] by (simp add: lru_def)
  have "walk_list (NBUF + 1) b_next (\<lambda>f. b_dev f = dev \<and> blockno f = blk) (bufs s) (b_next (bufs s BHEAD)) = Inr None"
    using walk_list_next [of "bufs s" BHEAD xs "NBUF + 1"] assms len by (auto simp: lru_def find_None_all)
  moreover have "walk_list (NBUF + 1) b_prev (\<lambda>f. refcnt f = 0) (bufs s) (b_prev (bufs s BHEAD)) = Inr None"
    using walk_list_prev [of "bufs s" xs BHEAD "NBUF + 1"] assms len by (auto simp: lru_def find_None_all)
  ultimately show ?thesis by (simp add: bget_def)
qed

definition demo_full_cache :: bcache where
  "demo_full_cache = demo_cache\<lparr>bufs := \<lambda>i. (bufs demo_cache i)\<lparr>refcnt := 1\<rparr>\<rparr>"

theorem bget_panics_when_full_witness:
  "bget ROOTDEV 7 demo_full_cache = Inl (Panic ''bget: no buffers'')"
proof -
  have p: "same_payload (bufs demo_boot_cache) (bufs demo_cache)"
    unfolding demo_cache_def by (rule binit_payload)
  have 1: "lru (bufs demo_full_cache) (rev [0..<NBUF])"
    using binit_lru [of demo_boot_cache]
    by (subst lru_cong [of _ "bufs demo_cache"]) (simp_all add: demo_full_cache_def demo_cache_def)
  have 2: "set (rev [0..<NBUF]) = {..<NBUF}" by auto
  have 3: "\<forall>i < NBUF. refcnt (bufs demo_full_cache i) \<noteq> 0 \<and>
      \<not> (b_dev (bufs demo_full_cache i) = ROOTDEV \<and> blockno (bufs demo_full_cache i) = 7)"
    using same_payload_fields [OF p] by (simp add: demo_full_cache_def demo_boot_cache_def)
  show ?thesis by (rule bget_panics_when_full [OF 1 2 3])
qed

text \<open>
  C13: A caller that holds a block, changes its data, writes it through and releases it changes
  exactly that block on the disk; when it was the last reference, the buffer goes to the front
  of the list and its content stays cached.
\<close>

theorem bwrite_brelse_update:
  assumes "bcache_ok s H" and "holds s b blk" and "blk \<in># H"
  shows "\<exists>s'. bwrite b (set_data b d s) = Inr s' \<and> bcache_ok (brelse b s') (H - {#blk#}) \<and>
    disk (brelse b s') = (disk s)(blk := d) \<and> holds (brelse b s') b blk \<and>
    (blk \<notin># H - {#blk#} \<longrightarrow> b_next (bufs (brelse b s') BHEAD) = b)"
proof -
  obtain s' where w: "bwrite b (set_data b d s) = Inr s'" "bcache_ok s' H" "disk s' = (disk s)(blk := d)"
    "\<forall>c k. holds s' c k \<longleftrightarrow> holds s c k"
    using bc.store_ok [OF assms(1,2)] by blast
  have h: "holds s' b blk" using w(4) assms(2) by simp
  note r = brelse_ok [OF w(2) h assms(3)]
  have "b_next (bufs (brelse b s') BHEAD) = b" if "blk \<notin># H - {#blk#}"
  proof -
    have "b < NBUF" "b_dev (bufs s' b) = ROOTDEV" "blockno (bufs s' b) = blk"
      using h by (simp_all add: holds_def is_for_def)
    moreover have "count (H - {#blk#}) blk = 0" using that by (simp only: not_in_iff)
    moreover have "0 < count H blk" using assms(3) by simp
    ultimately have "refcnt (bufs s' b) = 1"
      using bcache_ok_refcnt [OF w(2), of b] by (cases "count H blk") auto
    then show ?thesis by (simp add: brelse_def upd_buf_def link_first_def Let_def)
  qed
  with w r h show ?thesis
    by (intro exI [of _ s']) auto
qed

theorem bwrite_brelse_update_witness:
  "\<exists>b s1 s2. bread ROOTDEV 7 demo_cache = Inr (b, s1) \<and> bwrite b (set_data b (\<lambda>_. 9) s1) = Inr s2 \<and>
    disk (brelse b s2) = (disk demo_cache)(7 := \<lambda>_. 9)"
proof -
  have c: "unat (7 :: u32) < disk_blocks demo_cache" and n: "size ({#} :: u32 multiset) < NBUF"
    by (simp_all add: demo_cache_ok)
  obtain b s1 where r: "bread ROOTDEV 7 demo_cache = Inr (b, s1)" "bcache_ok s1 {#7#}" "holds s1 b 7"
    "disk s1 = disk demo_cache"
    using bc.acquire_ok [OF demo_cache_ok(1) n c] by auto
  have "7 \<in># {#7 :: u32#}" by simp
  from bwrite_brelse_update [OF r(2,3) this, of "\<lambda>_. 9"] r show ?thesis by auto
qed

end
