(* ===== verification/Memops.thy ===== *)
theory Memops
  imports Bytes
begin

text \<open>
  The two byte helpers at the top of \<open>kernel/fs/fs.c\<close>.  \<open>memset\<close> and \<open>memmove\<close> are modelled as
  their loops over a byte-addressed space; \<open>move_bytes\<close> and \<open>fill_bytes\<close> say what they amount
  to on arrays, and are what the rest of the file system uses.
\<close>

section \<open>The loops\<close>

text \<open>\<open>for (i = 0; i < n; i++) cdst[i] = c\<close>\<close>

primrec memset_loop :: "nat \<Rightarrow> u64 \<Rightarrow> u8 \<Rightarrow> (u64 \<Rightarrow> u8) \<Rightarrow> u64 \<Rightarrow> u8" where
  "memset_loop 0 dst c m = m"
| "memset_loop (Suc n) dst c m = (memset_loop n dst c m)(dst + of_nat n := c)"

definition memset :: "u64 \<Rightarrow> i32 \<Rightarrow> u32 \<Rightarrow> (u64 \<Rightarrow> u8) \<Rightarrow> u64 \<Rightarrow> u8" where
  "memset dst c n m = memset_loop (unat n) dst (ucast c) m"

text \<open>\<open>while (n-- > 0) *d++ = *s++\<close>, and its mirror image from the end.\<close>

primrec copy_up :: "nat \<Rightarrow> u64 \<Rightarrow> u64 \<Rightarrow> (u64 \<Rightarrow> u8) \<Rightarrow> u64 \<Rightarrow> u8" where
  "copy_up 0 d s m = m"
| "copy_up (Suc n) d s m = copy_up n (d + 1) (s + 1) (m(d := m s))"

primrec copy_down :: "nat \<Rightarrow> u64 \<Rightarrow> u64 \<Rightarrow> (u64 \<Rightarrow> u8) \<Rightarrow> u64 \<Rightarrow> u8" where
  "copy_down 0 d s m = m"
| "copy_down (Suc n) d s m = copy_down n (d - 1) (s - 1) (m(d - 1 := m (s - 1)))"

definition memmove :: "u64 \<Rightarrow> u64 \<Rightarrow> u32 \<Rightarrow> (u64 \<Rightarrow> u8) \<Rightarrow> u64 \<Rightarrow> u8" where
  "memmove dst src n m =
     (if src < dst \<and> dst < src + ucast n
      then copy_down (unat n) (dst + ucast n) (src + ucast n) m
      else copy_up (unat n) dst src m)"

section \<open>What they amount to on arrays\<close>

definition fill_bytes :: "block \<Rightarrow> nat \<Rightarrow> u8 \<Rightarrow> nat \<Rightarrow> block" where
  "fill_bytes d off c n = (\<lambda>i. if off \<le> i \<and> i < off + n then c else d i)"

definition move_bytes :: "block \<Rightarrow> nat \<Rightarrow> block \<Rightarrow> nat \<Rightarrow> nat \<Rightarrow> block" where
  "move_bytes d doff s soff n = (\<lambda>i. if doff \<le> i \<and> i < doff + n then s (soff + (i - doff)) else d i)"

lemma move_bytes_0 [simp]: "move_bytes d doff s soff 0 = d"
  by (rule ext) (auto simp: move_bytes_def)

lemma move_bytes_append:
  "move_bytes (move_bytes d doff s soff m) (doff + m) s (soff + m) n = move_bytes d doff s soff (m + n)"
  by (auto simp: move_bytes_def fun_eq_iff)

text \<open>Inside a range of \<open>n\<close> bytes every offset gives its own address.\<close>

lemma offset_nonzero:
  assumes "0 < j" "j < 2 ^ 64"
  shows "of_nat j \<noteq> (0 :: u64)"
  using assms nat_dvd_not_less [of j "2 ^ 64"] by (simp add: word_of_nat_eq_0_iff)

lemma offset_inj: "j < 2 ^ 64 \<Longrightarrow> k < 2 ^ 64 \<Longrightarrow> of_nat j = (of_nat k :: u64) \<longleftrightarrow> j = k"
  by (simp add: word_of_nat_eq_iff take_bit_nat_eq_self)

lemma copy_up_outside: "(\<And>k. k < n \<Longrightarrow> x \<noteq> d + of_nat k) \<Longrightarrow> copy_up n d s m x = m x"
proof (induction n arbitrary: d s m)
  case (Suc n)
  have "x \<noteq> d + 1 + of_nat k" if "k < n" for k
    using Suc.prems [of "Suc k"] that by (simp add: add.assoc)
  then show ?case using Suc.IH [of "d + 1"] Suc.prems [of 0] by simp
qed simp

text \<open>Either direction copies the bytes as they were before, provided it starts at the right end.\<close>

lemma copy_up_inside:
  assumes "k < n" "n \<le> 2 ^ 64" "\<And>j. 0 < j \<Longrightarrow> j < n \<Longrightarrow> s + of_nat j \<noteq> d"
  shows "copy_up n d s m (d + of_nat k) = m (s + of_nat k)"
  using assms
proof (induction n arbitrary: d s m k)
  case (Suc n)
  show ?case
  proof (cases k)
    case 0
    have "d \<noteq> d + 1 + of_nat j" if "j < n" for j
      using offset_nonzero [of "Suc j"] that Suc.prems(2) by (simp add: add.assoc)
    then show ?thesis using copy_up_outside [of n d "d + 1" "s + 1" "m(d := m s)"] 0 by simp
  next
    case (Suc j)
    have c: "s + 1 + of_nat i \<noteq> d + 1" if "0 < i" "i < n" for i
      using Suc.prems(3) [of i] that by (simp add: add.commute add.left_commute)
    have "copy_up n (d + 1) (s + 1) (m(d := m s)) (d + 1 + of_nat j) = (m(d := m s)) (s + 1 + of_nat j)"
      by (rule Suc.IH) (use Suc.prems(1,2) Suc c in simp_all)
    moreover have "s + 1 + of_nat j = s + of_nat k" "d + 1 + of_nat j = d + of_nat k"
      using Suc by (simp_all add: add.assoc)
    moreover have "s + of_nat k \<noteq> d" using Suc.prems(3) [of k] Suc.prems(1) Suc by simp
    ultimately show ?thesis by (metis copy_up.simps(2) fun_upd_other)
  qed
qed simp

lemma copy_down_outside: "(\<And>k. k < n \<Longrightarrow> x \<noteq> d + of_nat k) \<Longrightarrow> copy_down n (d + of_nat n) s m x = m x"
proof (induction n arbitrary: s m)
  case (Suc n)
  have e: "d + of_nat (Suc n) - 1 = d + of_nat n" by simp
  show ?case unfolding copy_down.simps e using Suc.IH Suc.prems [of n] Suc.prems by simp
qed simp

lemma copy_down_inside:
  assumes "k < n" "n \<le> 2 ^ 64" "\<And>j. 0 < j \<Longrightarrow> j < n \<Longrightarrow> d + of_nat j \<noteq> s"
  shows "copy_down n (d + of_nat n) (s + of_nat n) m (d + of_nat k) = m (s + of_nat k)"
  using assms
proof (induction n arbitrary: m)
  case (Suc n)
  have e: "a + of_nat (Suc n) - 1 = a + of_nat n" for a :: u64 by simp
  let ?m = "m(d + of_nat n := m (s + of_nat n))"
  show ?case
  proof (cases "k = n")
    case True
    have "d + of_nat n \<noteq> d + of_nat j" if "j < n" for j
      using offset_inj [of n j] that Suc.prems(2) by simp
    then have "copy_down n (d + of_nat n) (s + of_nat n) ?m (d + of_nat n) = ?m (d + of_nat n)"
      by (rule copy_down_outside)
    then show ?thesis unfolding copy_down.simps e True by simp
  next
    case False
    then have "k < n" using Suc.prems(1) by simp
    then have "copy_down n (d + of_nat n) (s + of_nat n) ?m (d + of_nat k) = ?m (s + of_nat k)"
      using Suc.prems by (intro Suc.IH) auto
    moreover have "s + of_nat k \<noteq> d + of_nat n"
    proof
      assume "s + of_nat k = d + of_nat n"
      then have "d + of_nat (n - k) = s" using \<open>k < n\<close> by (simp add: of_nat_diff algebra_simps)
      moreover have "0 < n - k" "n - k < Suc n" using \<open>k < n\<close> by auto
      ultimately show False using Suc.prems(3) by blast
    qed
    ultimately show ?thesis unfolding copy_down.simps e by simp
  qed
qed simp

lemma memset_loop_inside:
  "k < n \<Longrightarrow> n \<le> 2 ^ 64 \<Longrightarrow> memset_loop n dst c m (dst + of_nat k) = c"
  by (induction n) (auto simp: less_Suc_eq)

lemma memset_loop_outside: "(\<And>k. k < n \<Longrightarrow> x \<noteq> dst + of_nat k) \<Longrightarrow> memset_loop n dst c m x = m x"
  by (induction n) auto

section \<open>Properties\<close>

lemma range_plus:
  fixes a :: u64
  assumes "unat a + n \<le> 2 ^ 64" "i < n"
  shows "unat (a + of_nat i) = unat a + i"
proof -
  have "i < 2 ^ 64" using assms by linarith
  then have "unat (of_nat i :: u64) = i" by (simp add: unat_of_nat take_bit_nat_eq_self)
  then show ?thesis using assms by (simp add: unat_word_ariths)
qed

text \<open>
  \<open>memmove\<close> copies the \<open>n\<close> bytes as they were before the call, whether or not source and
  destination overlap, and changes no other byte.
\<close>

theorem memmove_copies:
  assumes "unat dst + unat n < 2 ^ 64" and "unat src + unat n < 2 ^ 64"
  shows "(\<forall>k < unat n. memmove dst src n m (dst + of_nat k) = m (src + of_nat k)) \<and>
    (\<forall>x. (\<forall>k < unat n. x \<noteq> dst + of_nat k) \<longrightarrow> memmove dst src n m x = m x)"
proof -
  have u: "(ucast n :: u64) = of_nat (unat n)" by simp
  have big: "unat n \<le> 2 ^ 64" using assms by linarith
  have off: "unat (dst + of_nat j) = unat dst + j" "unat (src + of_nat j) = unat src + j" if "j \<le> unat n" for j
    using range_plus [of dst "Suc (unat n)" j] range_plus [of src "Suc (unat n)" j] assms that by auto
  show ?thesis
  proof (cases "src < dst \<and> dst < src + ucast n")
    case True
    have "dst + of_nat j \<noteq> src" if "0 < j" "j < unat n" for j
      using off(1) [of j] that True by (auto simp: word_less_nat_alt)
    then show ?thesis
      using big unfolding memmove_def if_P [OF True] unfolding u
      by (simp add: copy_down_inside copy_down_outside del: of_nat_unat)
  next
    case False
    have "src + of_nat j \<noteq> dst" if "0 < j" "j < unat n" for j
      using off(2) [of j] off(2) [of "unat n"] that False unfolding u word_less_nat_alt by auto
    then show ?thesis
      using big unfolding memmove_def if_not_P [OF False]
      by (simp add: copy_up_inside copy_up_outside del: of_nat_unat)
  qed
qed

theorem memmove_copies_witness:
  "memmove 0x1001 0x1000 3 (\<lambda>x. ucast x) 0x1003 = 2 \<and> memmove 0x1000 0x1001 3 (\<lambda>x. ucast x) 0x1000 = 1"
proof -
  have h: "unat (0x1001 :: u64) + unat (3 :: u32) < 2 ^ 64" "unat (0x1000 :: u64) + unat (3 :: u32) < 2 ^ 64"
    by simp_all
  have "(2 :: nat) < unat (3 :: u32)" "(0 :: nat) < unat (3 :: u32)" by simp_all
  with memmove_copies [OF h, of "\<lambda>x. ucast x"] memmove_copies [OF h(2,1), of "\<lambda>x. ucast x"]
  have "memmove 0x1001 0x1000 3 (\<lambda>x. ucast x) (0x1001 + of_nat 2) = ucast (0x1000 + of_nat 2 :: u64)"
    "memmove 0x1000 0x1001 3 (\<lambda>x. ucast x) (0x1000 + of_nat 0) = ucast (0x1001 + of_nat 0 :: u64)"
    by blast+
  then show ?thesis by simp
qed

end
