(* ===== verification/Fs_Alloc.thy ===== *)
theory Fs_Alloc
  imports Bio Memops
begin

text \<open>
  The state of the file system and its block allocator: the superblock, \<open>fsinit\<close>, \<open>bzero\<close>,
  \<open>balloc\<close> and \<open>bfree\<close> of \<open>kernel/fs/fs.c\<close>.  The bitmap on disk has one bit per block.
\<close>

section \<open>State and operations\<close>

definition BSIZE :: nat where "BSIZE = 1024"
definition NDIRECT :: nat where "NDIRECT = 12"
definition NINDIRECT :: nat where "NINDIRECT = 256"
definition DIRSIZ :: nat where "DIRSIZ = 14"
definition FSMAGIC :: u32 where "FSMAGIC = 0x10203040"
definition ROOTINO :: u32 where "ROOTINO = 1"
definition T_FILE :: u16 where "T_FILE = 1"
definition T_DIR :: u16 where "T_DIR = 2"

record superblock =
  sb_magic :: u32
  sb_size :: u32
  sb_nblocks :: u32
  sb_ninodes :: u32
  sb_nlog :: u32
  sb_logstart :: u32
  sb_inodestart :: u32
  sb_bmapstart :: u32

text \<open>The 13 entries of \<open>addrs\<close> are a map from their index.\<close>

record inode =
  i_dev :: u32
  i_inum :: u32
  i_ref :: i32
  i_valid :: i32
  i_type :: u16
  i_major :: u16
  i_minor :: u16
  i_nlink :: u16
  i_size :: u32
  i_addrs :: "nat \<Rightarrow> u32"

record fs = bcache +
  sb :: superblock
  icache :: "nat \<Rightarrow> inode"

definition upd_inode :: "nat \<Rightarrow> (inode \<Rightarrow> inode) \<Rightarrow> 'a fs_scheme \<Rightarrow> 'a fs_scheme" where
  "upd_inode ip f s = s\<lparr>icache := (icache s)(ip := f (icache s ip))\<rparr>"

definition superblock_of :: "block \<Rightarrow> superblock" where
  "superblock_of d = \<lparr>sb_magic = get_le 4 d 0, sb_size = get_le 4 d 4, sb_nblocks = get_le 4 d 8,
     sb_ninodes = get_le 4 d 12, sb_nlog = get_le 4 d 16, sb_logstart = get_le 4 d 20,
     sb_inodestart = get_le 4 d 24, sb_bmapstart = get_le 4 d 28\<rparr>"

definition fsinit :: "u32 \<Rightarrow> 'a fs_scheme \<Rightarrow> 'a fs_scheme res" where
  "fsinit dev s =
     bindE (bread dev 1 s) (\<lambda>(bp, s1).
       let s2 = brelse bp (s1\<lparr>sb := superblock_of (b_data (bufs s1 bp))\<rparr>) in
       if sb_magic (sb s2) \<noteq> FSMAGIC then Inl (Panic ''invalid file system'')
       else Inr (s2\<lparr>icache := \<lambda>i. if i < NINODE then (icache s2 i)\<lparr>i_ref := 0, i_valid := 0\<rparr> else icache s2 i\<rparr>))"

definition bzero :: "u32 \<Rightarrow> u32 \<Rightarrow> 'a bcache_scheme \<Rightarrow> 'a bcache_scheme res" where
  "bzero dev bno s =
     bindE (bread dev bno s) (\<lambda>(bp, s1).
     bindE (bwrite bp (set_data bp (fill_bytes (b_data (bufs s1 bp)) 0 0 BSIZE) s1)) (\<lambda>s2.
     Inr (brelse bp s2)))"

text \<open>
  The scan of one bitmap block: the first byte that is not \<open>0xff\<close>, as long as its blocks start
  below \<open>sb.size\<close>, and the first clear bit in it.
\<close>

definition clear_bit :: "u8 \<Rightarrow> nat option" where
  "clear_bit m = (if m \<noteq> 0xff then find (\<lambda>bi2. m AND push_bit bi2 1 = 0) [0..<8] else None)"

definition scan_bitmap :: "block \<Rightarrow> u32 \<Rightarrow> u32 \<Rightarrow> (nat \<times> nat) option" where
  "scan_bitmap d b sz =
     (case find (\<lambda>bi. clear_bit (d bi) \<noteq> None) (takeWhile (\<lambda>bi. b + of_nat bi * 8 < sz) [0..<BSIZE]) of
        Some bi \<Rightarrow> Some (bi, the (clear_bit (d bi)))
      | None \<Rightarrow> None)"

definition set_bit_at :: "block \<Rightarrow> nat \<Rightarrow> nat \<Rightarrow> block" where
  "set_bit_at d bi bi2 = d(bi := d bi OR push_bit bi2 1)"

text \<open>
  \<open>b\<close> is an \<open>int\<close> compared with the unsigned \<open>sb.size\<close>.  A step past the largest \<open>int\<close> would be
  undefined.
\<close>

function balloc_from :: "u32 \<Rightarrow> u32 \<Rightarrow> 'a fs_scheme \<Rightarrow> (u32 \<times> 'a fs_scheme) res" where
  "balloc_from dev b s =
     (if b < sb_size (sb s) then
        bindE (bread dev (sb_bmapstart (sb s) + b div 8192) s) (\<lambda>(bp, s1).
          case scan_bitmap (b_data (bufs s1 bp)) b (sb_size (sb s1)) of
            Some (bi, bi2) \<Rightarrow>
              bindE (bwrite bp (set_data bp (set_bit_at (b_data (bufs s1 bp)) bi bi2) s1)) (\<lambda>s2.
              bindE (bzero dev (b + of_nat bi * 8 + of_nat bi2) (brelse bp s2)) (\<lambda>s3.
              Inr (b + of_nat bi * 8 + of_nat bi2, s3)))
          | None \<Rightarrow>
              if 0x7FFFFFFF - 8192 < b then Inl (Fault ''balloc: int overflow'')
              else balloc_from dev (b + 8192) (brelse bp s1))
      else Inl (Panic ''balloc: out of blocks''))"
  by pat_completeness auto
termination
  by (relation "measure (\<lambda>(dev, b, s). 2 ^ 32 - unat b)")
    (auto simp: word_less_nat_alt word_le_nat_alt not_less unat_word_ariths)

declare balloc_from.simps [simp del]

definition balloc :: "u32 \<Rightarrow> 'a fs_scheme \<Rightarrow> (u32 \<times> 'a fs_scheme) res" where
  "balloc dev s = balloc_from dev 0 s"

definition bfree :: "u32 \<Rightarrow> u32 \<Rightarrow> 'a fs_scheme \<Rightarrow> 'a fs_scheme res" where
  "bfree dev b s =
     bindE (bread dev (sb_bmapstart (sb s) + b div 8192) s) (\<lambda>(bp, s1).
       let bi = unat ((b mod 8192) div 8); m = push_bit (unat (b mod 8)) (1 :: u8); d = b_data (bufs s1 bp) in
       if d bi AND m = 0 then Inl (Panic ''freeing free block'')
       else bindE (bwrite bp (set_data bp (d(bi := d bi AND NOT m)) s1)) (\<lambda>s2. Inr (brelse bp s2)))"

text \<open>From here on the device number is opaque: it only has to be the same everywhere.\<close>

declare ROOTDEV_def [simp del]

section \<open>32-bit arithmetic as arithmetic on numbers\<close>

lemma unat_lt32: "unat (a :: u32) < 2 ^ 32"
  using unsigned_less [of a] by simp

lemma unat_of_nat32: "i < 2 ^ 32 \<Longrightarrow> unat (of_nat i :: u32) = i"
  by (simp add: unsigned_of_nat take_bit_nat_eq_self)

lemma unat_add32: "unat (a + b :: u32) = (unat a + unat b) mod 2 ^ 32"
  by (simp add: unat_word_ariths)

lemma unat_sub32:
  "unat (a - b :: u32) = (if unat b \<le> unat a then unat a - unat b else unat a + 2 ^ 32 - unat b)"
  by (simp add: unat_sub_if_size word_size)

lemma unat_div32: "unat (a div b :: u32) = unat a div unat b"
  by (simp add: unat_div)

lemma unat_mod32: "unat (a mod b :: u32) = unat a mod unat b"
  by (simp add: unat_mod_distrib)

lemma of_nat_div32: "of_nat (unat a div unat b) = (a div b :: u32)"
  by (metis unat_div32 of_nat_unat ucast_id)

lemmas unat_arith32 = unat_add32 unat_sub32 unat_of_nat32 unat_div32 unat_mod32 word_le_nat_alt word_less_nat_alt

section \<open>The bits of the bitmap\<close>

definition bm_bit :: "block \<Rightarrow> nat \<Rightarrow> bool" where
  "bm_bit d i \<longleftrightarrow> bit (d (i div 8)) (i mod 8)"

text \<open>Block \<open>b\<close> is marked as used on disk \<open>D\<close> with the bitmap from block \<open>bm\<close> on.\<close>

definition blk_used :: "(u32 \<Rightarrow> block) \<Rightarrow> u32 \<Rightarrow> u32 \<Rightarrow> bool" where
  "blk_used D bm b \<longleftrightarrow> bm_bit (D (bm + b div 8192)) (unat b mod 8192)"

lemma and_power_0: "m AND push_bit k 1 = (0 :: 'a::len word) \<longleftrightarrow> \<not> bit m k" if "k < LENGTH('a)"
proof
  assume "m AND push_bit k 1 = 0"
  then have "\<not> bit (m AND push_bit k 1) k" by simp
  then show "\<not> bit m k" using that by (simp add: bit_simps)
next
  assume "\<not> bit m k"
  then show "m AND push_bit k 1 = 0" by (intro bit_word_eqI) (auto simp: bit_simps)
qed

lemma upt_splitD:
  assumes "[0..<n] = as @ k # bs"
  shows "as = [0..<k]" "k < n"
proof -
  have l: "length as < n" using arg_cong [OF assms, of length] by simp
  have "k = [0..<n] ! length as" unfolding assms by simp
  then have k: "k = length as" using l by simp
  then show "k < n" using l by simp
  have "as = take k [0..<n]" unfolding assms using k by simp
  then show "as = [0..<k]" using \<open>k < n\<close> by (simp add: take_upt)
qed

lemma clear_bit_Some:
  assumes "clear_bit m = Some k"
  shows "k < 8 \<and> \<not> bit m k \<and> (\<forall>j < k. bit m j)"
proof -
  have f: "find (\<lambda>bi2. m AND push_bit bi2 1 = 0) [0..<8] = Some k"
    using assms by (simp add: clear_bit_def split: if_splits)
  obtain as bs where s: "[0..<8] = as @ k # bs" "m AND push_bit k 1 = 0" "\<forall>a\<in>set as. m AND push_bit a 1 \<noteq> 0"
    using find_Some_split [OF f] by blast
  note as = upt_splitD [OF s(1)]
  have "bit m j" if "j < k" for j
    using s(3) that as and_power_0 [of j m] by auto
  then show ?thesis using as(2) s(2) and_power_0 [of k m] by simp
qed

lemma clear_bit_None: "clear_bit m = None \<Longrightarrow> k < 8 \<Longrightarrow> bit m k"
proof (cases "m = 0xff")
  case True
  assume "k < 8"
  then have "k = 0 \<or> k = 1 \<or> k = 2 \<or> k = 3 \<or> k = 4 \<or> k = 5 \<or> k = 6 \<or> k = 7" by linarith
  then show ?thesis unfolding True by (elim disjE) simp_all
next
  case False
  assume "clear_bit m = None" "k < 8"
  then have "m AND push_bit k 1 \<noteq> 0"
    using False unfolding clear_bit_def find_None_all if_P [OF False] by auto
  then show ?thesis using and_power_0 [of k m] \<open>k < 8\<close> by simp
qed

lemma takeWhile_upt:
  assumes "\<And>i j. i \<le> j \<Longrightarrow> j < n \<Longrightarrow> Q j \<Longrightarrow> Q i"
  shows "set (takeWhile Q [0..<n]) = {i. i < n \<and> Q i}"
  using assms
proof (induction n)
  case (Suc n)
  have IH: "set (takeWhile Q [0..<n]) = {i. i < n \<and> Q i}" using Suc by auto
  show ?case
  proof (cases "\<forall>i < n. Q i")
    case True
    then have "takeWhile Q ([0..<n] @ [n]) = [0..<n] @ takeWhile Q [n]" by (intro takeWhile_append2) simp
    then show ?thesis using True by (auto simp: less_Suc_eq)
  next
    case False
    then obtain i where "i < n" "\<not> Q i" by blast
    then have "takeWhile Q ([0..<n] @ [n]) = takeWhile Q [0..<n]" by (intro takeWhile_append1 [of i]) simp_all
    moreover have "\<not> Q n" using \<open>i < n\<close> \<open>\<not> Q i\<close> Suc.prems [of i n] by auto
    ultimately show ?thesis using IH by (auto simp: less_Suc_eq)
  qed
qed simp

lemma scan_bitmap_Some:
  assumes "scan_bitmap d b sz = Some (bi, bi2)"
  shows "bi < 1024 \<and> bi2 < 8 \<and> b + of_nat bi * 8 < sz \<and> \<not> bm_bit d (8 * bi + bi2) \<and> (\<forall>i < 8 * bi + bi2. bm_bit d i)"
proof -
  let ?Q = "\<lambda>bi. b + of_nat bi * 8 < sz"
  obtain k where f: "find (\<lambda>bi. clear_bit (d bi) \<noteq> None) (takeWhile ?Q [0..<BSIZE]) = Some k"
    and k: "k = bi" "the (clear_bit (d k)) = bi2"
    using assms unfolding scan_bitmap_def by (simp split: option.splits)
  have c: "clear_bit (d bi) = Some bi2" using find_SomeD [OF f] k by auto
  note f = f [unfolded k(1)]
  obtain as bs where s: "takeWhile ?Q [0..<BSIZE] = as @ bi # bs" "\<forall>a\<in>set as. clear_bit (d a) = None"
    using find_Some_split [OF f] by auto
  have "[0..<BSIZE] = as @ bi # (bs @ dropWhile ?Q [0..<BSIZE])"
    using s(1) takeWhile_dropWhile_id [of ?Q "[0..<BSIZE]"] by simp
  note a = upt_splitD [OF this]
  have "bi \<in> set (takeWhile ?Q [0..<BSIZE])" using s(1) by simp
  then have q: "?Q bi" by (rule set_takeWhileD [THEN conjunct2])
  have full: "bit (d j) k" if "j < bi" "k < 8" for j k
    using clear_bit_None [of "d j" k] s(2) that unfolding a(1) by simp
  note cb = clear_bit_Some [OF c]
  have "bm_bit d i" if "i < 8 * bi + bi2" for i
  proof (cases "i div 8 < bi")
    case True
    then show ?thesis using full by (simp add: bm_bit_def)
  next
    case False
    moreover have "i div 8 < bi + 1" using that cb by (intro less_mult_imp_div_less) auto
    moreover have "i = 8 * (i div 8) + i mod 8" by simp
    ultimately have "i div 8 = bi" "i mod 8 < bi2" using that by linarith+
    then show ?thesis using cb by (simp add: bm_bit_def)
  qed
  then show ?thesis using a(2) q cb by (simp add: bm_bit_def BSIZE_def)
qed

lemma scan_bitmap_None:
  assumes "scan_bitmap d b sz = None" and "unat b + 8192 \<le> 2 ^ 32"
    and "i < 8192" and "unat b + 8 * (i div 8) < unat sz"
  shows "bm_bit d i"
proof -
  let ?Q = "\<lambda>bi. b + of_nat bi * 8 < sz"
  have u: "unat (b + of_nat k * 8) = unat b + 8 * k" if "k < 1024" for k
  proof -
    have "unat (of_nat k * 8 :: u32) = 8 * k" using that by (simp add: unat_word_ariths unat_of_nat take_bit_nat_eq_self)
    then show ?thesis using that assms(2) by (simp add: unat_word_ariths)
  qed
  have "set (takeWhile ?Q [0..<BSIZE]) = {k. k < BSIZE \<and> ?Q k}"
    by (rule takeWhile_upt) (auto simp: word_less_nat_alt u BSIZE_def)
  moreover have "i div 8 < BSIZE" "?Q (i div 8)"
    using assms(3,4) u [of "i div 8"] by (auto simp: BSIZE_def word_less_nat_alt)
  ultimately have "clear_bit (d (i div 8)) = None"
    using assms(1) by (auto simp: scan_bitmap_def find_None_all split: option.splits)
  then show ?thesis using clear_bit_None [of "d (i div 8)" "i mod 8"] by (simp add: bm_bit_def)
qed

lemma bm_bit_set:
  assumes "bi2 < 8"
  shows "bm_bit (set_bit_at d bi bi2) i \<longleftrightarrow> bm_bit d i \<or> i = 8 * bi + bi2"
proof -
  have "i = 8 * bi + bi2 \<longleftrightarrow> i div 8 = bi \<and> i mod 8 = bi2" using assms by auto
  moreover have "bit (push_bit bi2 (1 :: u8)) k \<longleftrightarrow> k = bi2" for k using assms by (auto simp: bit_simps)
  ultimately show ?thesis by (auto simp: bm_bit_def set_bit_at_def bit_or_iff)
qed

section \<open>Steps of the cache inside the file system\<close>

text \<open>
  What every routine that returns its buffers leaves behind: the invariant for the blocks \<open>H\<close>
  the caller still holds, nothing changed outside the cache, and the caller's buffers still
  attached.
\<close>

definition cache_step :: "u32 multiset \<Rightarrow> 'a bcache_scheme \<Rightarrow> 'a bcache_scheme \<Rightarrow> bool" where
  "cache_step H s s' \<longleftrightarrow> bcache_ok s' H \<and> only_cache s s' \<and> (\<forall>c k. k \<in># H \<longrightarrow> holds s c k \<longrightarrow> holds s' c k)"

lemma cache_step_trans: "cache_step H s t \<Longrightarrow> cache_step H t u \<Longrightarrow> cache_step H s u"
  unfolding cache_step_def using only_cache_trans by blast

lemma cache_step_ok: "cache_step H s s' \<Longrightarrow> bcache_ok s' H"
  by (simp add: cache_step_def)

lemma only_cache_fs: "only_cache s s' \<Longrightarrow> sb s' = sb (s :: 'a fs_scheme) \<and> icache s' = icache s \<and> disk_blocks s' = disk_blocks s"
  by (cases s; cases s') (simp add: only_cache_def)

lemma cache_step_fs [simp]:
  assumes "cache_step H s s'"
  shows "sb s' = sb (s :: 'a fs_scheme)" "icache s' = icache s" "disk_blocks s' = disk_blocks s"
  using assms only_cache_fs by (auto simp: cache_step_def)

lemma bread_brelse:
  assumes "bcache_ok s H" "size H < NBUF" "unat blk < disk_blocks s"
  obtains b s1 where "bread ROOTDEV blk s = Inr (b, s1)" "b_data (bufs s1 b) = disk s blk" "only_cache s s1"
    "disk s1 = disk s" "cache_step H s (brelse b s1)" "disk (brelse b s1) = disk s"
proof -
  obtain b s1 where r: "bread ROOTDEV blk s = Inr (b, s1)" "b_data (bufs s1 b) = disk s blk"
    "bcache_ok (brelse b s1) H" "disk s1 = disk s" "disk (brelse b s1) = disk s" "only_cache s (brelse b s1)"
    "holds s1 b blk" "bcache_ok s1 (add_mset blk H)" "only_cache s s1"
    "\<forall>c j. j \<in># H \<longrightarrow> holds s c j \<longrightarrow> holds (brelse b s1) c j"
    by (rule bc.read_release [OF assms])
  show thesis
    by (rule that [OF r(1,2,9,4) _ r(5)]) (use r in \<open>simp add: cache_step_def\<close>)
qed

lemma bread_bwrite_brelse:
  assumes "bcache_ok s H" "size H < NBUF" "unat blk < disk_blocks s"
  obtains b s1 s2 where "bread ROOTDEV blk s = Inr (b, s1)" "b_data (bufs s1 b) = disk s blk" "only_cache s s1"
    "bwrite b (set_data b (f (disk s blk)) s1) = Inr s2" "cache_step H s (brelse b s2)"
    "disk (brelse b s2) = (disk s)(blk := f (disk s blk))"
proof -
  obtain b s1 s2 where r: "bread ROOTDEV blk s = Inr (b, s1)" "b_data (bufs s1 b) = disk s blk"
    "bwrite b (set_data b (f (disk s blk)) s1) = Inr s2" "bcache_ok (brelse b s2) H"
    "disk (brelse b s2) = (disk s)(blk := f (disk s blk))" "only_cache s (brelse b s2)" "only_cache s s1"
    "bcache_ok s1 (add_mset blk H)" "holds s1 b blk"
    "\<forall>c j. j \<in># H \<longrightarrow> holds s c j \<longrightarrow> holds (brelse b s2) c j"
    by (rule bc.read_modify_write [OF assms, of f])
  show thesis
    by (rule that [OF r(1,2,7,3) _ r(5)]) (use r in \<open>simp add: cache_step_def\<close>)
qed

lemma bzero_ok:
  assumes "bcache_ok s H" "size H < NBUF" "unat blk < disk_blocks s"
  obtains s' where "bzero ROOTDEV blk s = Inr s'" "cache_step H s s'"
    "disk s' = (disk s)(blk := fill_bytes (disk s blk) 0 0 BSIZE)"
proof -
  obtain b s1 s2 where r: "bread ROOTDEV blk s = Inr (b, s1)" "b_data (bufs s1 b) = disk s blk" "only_cache s s1"
    "bwrite b (set_data b (fill_bytes (disk s blk) 0 0 BSIZE) s1) = Inr s2" "cache_step H s (brelse b s2)"
    "disk (brelse b s2) = (disk s)(blk := fill_bytes (disk s blk) 0 0 BSIZE)"
    by (rule bread_bwrite_brelse [OF assms, of "\<lambda>d. fill_bytes d 0 0 BSIZE"])
  show thesis
    by (rule that [OF _ r(5,6)]) (simp add: bzero_def r)
qed

section \<open>Allocation\<close>

definition alloc_ok :: "'a fs_scheme \<Rightarrow> bool" where
  "alloc_ok s \<longleftrightarrow> 8 dvd unat (sb_size (sb s)) \<and> unat (sb_size (sb s)) \<le> 2 ^ 30 \<and>
     unat (sb_size (sb s)) \<le> disk_blocks s \<and>
     (\<forall>j. 8192 * j < unat (sb_size (sb s)) \<longrightarrow>
        unat (sb_bmapstart (sb s)) + j < unat (sb_size (sb s)) \<and>
        blk_used (disk s) (sb_bmapstart (sb s)) (sb_bmapstart (sb s) + of_nat j))"

text \<open>The disk after block \<open>blk\<close> has been marked and cleared.\<close>

definition alloc_disk :: "(u32 \<Rightarrow> block) \<Rightarrow> u32 \<Rightarrow> u32 \<Rightarrow> u32 \<Rightarrow> block" where
  "alloc_disk D bm blk =
     (let j = bm + blk div 8192; D1 = D(j := set_bit_at (D j) (unat blk mod 8192 div 8) (unat blk mod 8))
      in D1(blk := fill_bytes (D1 blk) 0 0 BSIZE))"

lemma alloc_ok_bitmap_block:
  assumes "alloc_ok s" "unat b < unat (sb_size (sb s))"
  shows "unat (sb_bmapstart (sb s) + b div 8192) < unat (sb_size (sb s))"
    "blk_used (disk s) (sb_bmapstart (sb s)) (sb_bmapstart (sb s) + b div 8192)"
proof -
  have "8192 * (unat b div 8192) < unat (sb_size (sb s))" using assms(2) by (simp add: order_le_less_trans)
  then have j: "unat (sb_bmapstart (sb s)) + unat b div 8192 < unat (sb_size (sb s))"
    "blk_used (disk s) (sb_bmapstart (sb s)) (sb_bmapstart (sb s) + of_nat (unat b div 8192))"
    using assms(1) unfolding alloc_ok_def by blast+
  have e: "of_nat (unat b div 8192) = b div 8192" using of_nat_div32 [of b 8192] by simp
  show "blk_used (disk s) (sb_bmapstart (sb s)) (sb_bmapstart (sb s) + b div 8192)" using j(2) unfolding e .
  have "unat (sb_bmapstart (sb s) + b div 8192) = unat (sb_bmapstart (sb s)) + unat b div 8192"
    using j(1) unat_lt32 [of "sb_size (sb s)"] by (simp add: unat_add32 unat_div32)
  then show "unat (sb_bmapstart (sb s) + b div 8192) < unat (sb_size (sb s))" using j(1) by simp
qed

lemma blk_used_alloc_disk:
  assumes ok: "alloc_ok s" and b: "unat b < unat (sb_size (sb s))" and blk: "unat blk < unat (sb_size (sb s))"
    and free: "\<not> blk_used (disk s) (sb_bmapstart (sb s)) blk"
  shows "blk_used (alloc_disk (disk s) (sb_bmapstart (sb s)) blk) (sb_bmapstart (sb s)) b \<longleftrightarrow>
    blk_used (disk s) (sb_bmapstart (sb s)) b \<or> b = blk"
proof -
  let ?bm = "sb_bmapstart (sb s)" and ?n = "unat blk mod 8192"
  have ne: "?bm + b div 8192 \<noteq> blk" using alloc_ok_bitmap_block(2) [OF ok b] free by metis
  have split: "8 * (?n div 8) + unat blk mod 8 = ?n"
  proof -
    have "unat blk mod 8 = ?n mod 8" by (simp add: mod_mod_cancel)
    then show ?thesis by simp
  qed
  show ?thesis
  proof (cases "b div 8192 = blk div 8192")
    case True
    have "unat b div 8192 = unat blk div 8192" using arg_cong [OF True, of unat] by (simp add: unat_div)
    then have "unat b mod 8192 = ?n \<longleftrightarrow> unat b = unat blk" by (metis div_mult_mod_eq)
    then have e: "unat b mod 8192 = ?n \<longleftrightarrow> b = blk" by (simp add: word_unat_eq_iff)
    have "alloc_disk (disk s) ?bm blk (?bm + b div 8192) =
        set_bit_at (disk s (?bm + blk div 8192)) (?n div 8) (unat blk mod 8)"
      using ne True by (simp add: alloc_disk_def Let_def)
    then have "blk_used (alloc_disk (disk s) ?bm blk) ?bm b \<longleftrightarrow>
        bm_bit (disk s (?bm + blk div 8192)) (unat b mod 8192) \<or> unat b mod 8192 = 8 * (?n div 8) + unat blk mod 8"
      unfolding blk_used_def by (simp only: bm_bit_set mod_less_divisor zero_less_numeral)
    then show ?thesis unfolding split e blk_used_def True .
  next
    case False
    then have "b \<noteq> blk" by blast
    with False ne show ?thesis by (simp add: blk_used_def alloc_disk_def Let_def)
  qed
qed

text \<open>What one allocation does: block \<open>blk\<close> was free, and is now marked and cleared.\<close>

definition allocates :: "u32 multiset \<Rightarrow> 'a fs_scheme \<Rightarrow> 'a fs_scheme \<Rightarrow> u32 \<Rightarrow> bool" where
  "allocates H s s' blk \<longleftrightarrow> unat blk < unat (sb_size (sb s)) \<and> \<not> blk_used (disk s) (sb_bmapstart (sb s)) blk \<and>
     (\<forall>x. unat x < unat blk \<longrightarrow> blk_used (disk s) (sb_bmapstart (sb s)) x) \<and> cache_step H s s' \<and>
     disk s' = alloc_disk (disk s) (sb_bmapstart (sb s)) blk"

lemma mod_div_8192:
  assumes "n < 1024" "m < 8" "8192 dvd (b :: nat)"
  shows "(b + n * 8 + m) div 8192 = b div 8192" "(b + n * 8 + m) mod 8192 = 8 * n + m"
    "(b + n * 8 + m) mod 8192 div 8 = n" "(b + n * 8 + m) mod 8 = m"
proof -
  obtain k where k: "b = 8192 * k" using assms(3) by (elim dvdE)
  have e: "b + n * 8 + m = 8192 * k + (8 * n + m)" "b + n * 8 + m = 8 * (1024 * k + n) + m"
    using k by simp_all
  have l: "8 * n + m < 8192" using assms by simp
  show "(b + n * 8 + m) div 8192 = b div 8192" unfolding e(1) k using l by simp
  show q: "(b + n * 8 + m) mod 8192 = 8 * n + m" unfolding e(1) using l by simp
  show "(b + n * 8 + m) mod 8192 div 8 = n" unfolding q using assms(2) by simp
  show "(b + n * 8 + m) mod 8 = m" unfolding e(2) using assms(2) by (simp only: mod_mult_self4) simp
qed

lemma balloc_block:
  assumes "alloc_ok s" "8192 dvd unat b" "b < sb_size (sb s)"
    and scan: "scan_bitmap (disk s (sb_bmapstart (sb s) + b div 8192)) b (sb_size (sb s)) = Some (bi, bi2)"
    and below: "\<And>x. unat x < unat b \<Longrightarrow> blk_used (disk s) (sb_bmapstart (sb s)) x"
    and blk: "blk = b + of_nat bi * 8 + of_nat bi2"
  shows "unat blk = unat b + bi * 8 + bi2" "unat blk < unat (sb_size (sb s))"
    "\<not> blk_used (disk s) (sb_bmapstart (sb s)) blk" "blk div 8192 = b div 8192"
    "unat x < unat blk \<Longrightarrow> blk_used (disk s) (sb_bmapstart (sb s)) x"
    "unat blk mod 8192 div 8 = bi" "unat blk mod 8 = bi2"
proof -
  let ?D = "disk s (sb_bmapstart (sb s) + b div 8192)" and ?sz = "unat (sb_size (sb s))"
  note sc = scan_bitmap_Some [OF scan]
  have sz: "8 dvd ?sz" "?sz \<le> 2 ^ 30" using assms(1) by (simp_all add: alloc_ok_def)
  have b: "unat b < 2 ^ 30" using assms(3) sz by (simp add: word_less_nat_alt)
  have u8: "unat (of_nat bi * 8 :: u32) = bi * 8" "unat (of_nat bi2 :: u32) = bi2"
    using sc by (simp_all add: unat_word_ariths unat_of_nat32)
  then have ub: "unat (b + of_nat bi * 8) = unat b + bi * 8" using b sc by (simp add: unat_add32)
  then show u: "unat blk = unat b + bi * 8 + bi2" unfolding blk using b sc u8 by (simp add: unat_add32)
  have "unat b + bi * 8 < ?sz" using sc ub by (simp add: word_less_nat_alt)
  moreover obtain k where "?sz = 8 * k" using sz(1) by (elim dvdE)
  moreover obtain j where "unat b = 8192 * j" using assms(2) by (elim dvdE)
  ultimately have "8 * (1024 * j + bi) < 8 * k" "unat b = 8 * (1024 * j)" "?sz = 8 * k" by simp_all
  moreover have "bi2 < 8" using sc by simp
  ultimately show "unat blk < ?sz" unfolding u by (simp only: mult_less_cancel1) linarith
  have l: "bi < 1024" "bi2 < 8" using sc by simp_all
  note m = mod_div_8192 [OF l assms(2), folded u]
  show d: "blk div 8192 = b div 8192" by (rule unat_eqD) (simp add: unat_div32 m)
  show "unat blk mod 8192 div 8 = bi" "unat blk mod 8 = bi2" by (rule m)+
  note bits = m(2)
  show "\<not> blk_used (disk s) (sb_bmapstart (sb s)) blk"
    using sc unfolding blk_used_def d bits by blast
  show "blk_used (disk s) (sb_bmapstart (sb s)) x" if x: "unat x < unat blk"
  proof (cases "unat x < unat b")
    case False
    obtain j where j: "unat b = 8192 * j" using assms(2) by (elim dvdE)
    have e: "unat x div 8192 = j" using x False l j unfolding u by (auto intro!: div_nat_eqI)
    then have "unat x = 8192 * j + unat x mod 8192" by (metis mult_div_mod_eq)
    then have "unat x mod 8192 < 8 * bi + bi2" using x unfolding u j by linarith
    moreover have "unat x div 8192 = unat b div 8192" using e j by simp
    moreover from this have "x div 8192 = b div 8192" by (intro unat_eqD) (simp add: unat_div32)
    ultimately show ?thesis using sc unfolding blk_used_def by simp
  qed (rule below)
qed

lemma balloc_from_spec:
  assumes "bcache_ok s H" "size H < NBUF" "alloc_ok s" "8192 dvd unat b"
    and "\<And>x. unat x < unat b \<Longrightarrow> blk_used (disk s) (sb_bmapstart (sb s)) x"
  shows "(\<exists>blk s'. balloc_from ROOTDEV b s = Inr (blk, s') \<and> allocates H s s' blk) \<or>
    (\<forall>x. unat x < unat (sb_size (sb s)) \<longrightarrow> blk_used (disk s) (sb_bmapstart (sb s)) x) \<and>
      balloc_from ROOTDEV b s = Inl (Panic ''balloc: out of blocks'')"
  using assms
proof (induction "ROOTDEV" b s rule: balloc_from.induct)
  case (1 b s)
  let ?bm = "sb_bmapstart (sb s)" and ?sz = "sb_size (sb s)"
  let ?k = "?bm + b div 8192"
  note ok = "1.prems"
  show ?case
  proof (cases "b < ?sz")
    case False
    then show ?thesis
      using ok(5) by (auto simp: balloc_from.simps word_less_nat_alt)
  next
    case True
    have cap: "unat ?sz \<le> disk_blocks s" "unat ?sz \<le> 2 ^ 30" using ok(3) by (simp_all add: alloc_ok_def)
    have k: "unat ?k < disk_blocks s"
      using alloc_ok_bitmap_block(1) [OF ok(3), of b] True cap by (simp add: word_less_nat_alt)
    show ?thesis
    proof (cases "scan_bitmap (disk s ?k) b ?sz")
      case (Some r)
      obtain bi bi2 where r: "r = (bi, bi2)" by (cases r)
      define blk where "blk = b + of_nat bi * 8 + of_nat bi2"
      note bb = balloc_block [OF ok(3,4) True Some [unfolded r] ok(5) blk_def]
      obtain bp s1 s2 where w: "bread ROOTDEV ?k s = Inr (bp, s1)" "b_data (bufs s1 bp) = disk s ?k" "only_cache s s1"
        "bwrite bp (set_data bp (set_bit_at (disk s ?k) bi bi2) s1) = Inr s2" "cache_step H s (brelse bp s2)"
        "disk (brelse bp s2) = (disk s)(?k := set_bit_at (disk s ?k) bi bi2)"
        by (rule bread_bwrite_brelse [OF ok(1,2) k, of "\<lambda>d. set_bit_at d bi bi2"])
      have c2: "unat blk < disk_blocks (brelse bp s2)"
        using bb(2) cap(1) cache_step_fs(3) [OF w(5)] by simp
      obtain s3 where z: "bzero ROOTDEV blk (brelse bp s2) = Inr s3" "cache_step H (brelse bp s2) s3"
        "disk s3 = (disk (brelse bp s2))(blk := fill_bytes (disk (brelse bp s2) blk) 0 0 BSIZE)"
        by (rule bzero_ok [OF cache_step_ok [OF w(5)] ok(2) c2])
      have sb1: "sb s1 = sb s" using only_cache_fs [OF w(3)] by simp
      have "balloc_from ROOTDEV b s = Inr (blk, s3)"
        using True w Some z(1) r unfolding balloc_from.simps [of ROOTDEV b s]
        by (simp add: sb1 blk_def)
      moreover have "disk s3 = alloc_disk (disk s) ?bm blk"
        unfolding z(3) w(6) alloc_disk_def Let_def by (simp add: bb(4,6,7))
      ultimately show ?thesis
        using bb(2,3,5) cache_step_trans [OF w(5) z(2)] unfolding allocates_def by blast
    next
      case None
      obtain bp s1 where w: "bread ROOTDEV ?k s = Inr (bp, s1)" "b_data (bufs s1 bp) = disk s ?k" "only_cache s s1"
        "disk s1 = disk s" "cache_step H s (brelse bp s1)" "disk (brelse bp s1) = disk s"
        by (rule bread_brelse [OF ok(1,2) k])
      let ?t = "brelse bp s1"
      have sb1: "sb s1 = sb s" using only_cache_fs [OF w(3)] by simp
      have t: "sb ?t = sb s" "disk_blocks ?t = disk_blocks s" using cache_step_fs [OF w(5)] by simp_all
      have b: "unat b < 2 ^ 30" using True cap by (simp add: word_less_nat_alt)
      then have nb: "unat (b + 8192) = unat b + 8192" by (simp add: unat_add32)
      have no: "\<not> 0x7FFFFFFF - 8192 < b" using b by (simp add: word_less_nat_alt)
      have unf: "balloc_from ROOTDEV b s = balloc_from ROOTDEV (b + 8192) ?t"
        using True w None no unfolding balloc_from.simps [of ROOTDEV b s] by (simp add: sb1)
      have full: "blk_used (disk s) ?bm x" if x: "unat x < unat b + 8192" "unat x < unat ?sz" for x
      proof (cases "unat x < unat b")
        case False
        obtain j where j: "unat b = 8192 * j" using ok(4) by (elim dvdE)
        have e: "unat x div 8192 = j" using x False j by (auto intro!: div_nat_eqI)
        then have m: "unat x = unat b + unat x mod 8192" using j by (metis mult_div_mod_eq)
        have "8 * (unat x mod 8192 div 8) \<le> unat x mod 8192" by simp
        then have "unat b + 8 * (unat x mod 8192 div 8) < unat ?sz" using m x(2) by linarith
        then have "bm_bit (disk s ?k) (unat x mod 8192)"
          using scan_bitmap_None [OF None] b by simp
        moreover have "x div 8192 = b div 8192" by (intro unat_eqD) (simp add: unat_div32 e j)
        ultimately show ?thesis by (simp add: blk_used_def)
      qed (rule ok(5))
      have dvd: "8192 dvd unat (b + 8192)" using ok(4) unfolding nb by simp
      show ?thesis
      proof (cases "unat ?sz \<le> unat b + 8192")
        case True
        then have "balloc_from ROOTDEV (b + 8192) ?t = Inl (Panic ''balloc: out of blocks'')"
          using t nb by (simp add: balloc_from.simps word_less_nat_alt)
        then show ?thesis using full True unf by auto
      next
        case False
        have "alloc_ok ?t" using ok(3) by (simp add: alloc_ok_def t w(6))
        moreover have "blk_used (disk ?t) (sb_bmapstart (sb ?t)) x" if "unat x < unat (b + 8192)" for x
          using full [of x] that False unfolding t w(6) nb by simp
        ultimately have "(\<exists>blk s'. balloc_from ROOTDEV (b + 8192) ?t = Inr (blk, s') \<and> allocates H ?t s' blk) \<or>
            (\<forall>x. unat x < unat ?sz \<longrightarrow> blk_used (disk s) ?bm x) \<and>
              balloc_from ROOTDEV (b + 8192) ?t = Inl (Panic ''balloc: out of blocks'')"
          using "1.hyps" [OF \<open>b < ?sz\<close> w(1) refl _ no cache_step_ok [OF w(5)] ok(2) _ dvd] None sb1 w(2) t w(6)
          by auto
        then show ?thesis
          unfolding unf allocates_def t w(6) using cache_step_trans [OF w(5)] by blast
      qed
    qed
  qed
qed

lemma allocates_cases:
  assumes "bcache_ok s H" "size H < NBUF" "alloc_ok s"
  shows "(\<exists>blk s'. balloc ROOTDEV s = Inr (blk, s') \<and> allocates H s s' blk) \<or>
    (\<forall>x. unat x < unat (sb_size (sb s)) \<longrightarrow> blk_used (disk s) (sb_bmapstart (sb s)) x) \<and>
      balloc ROOTDEV s = Inl (Panic ''balloc: out of blocks'')"
  unfolding balloc_def by (rule balloc_from_spec [OF assms]) simp_all

text \<open>What the rest of the file system needs to know of an allocation.\<close>

lemma allocates_facts:
  assumes ok: "alloc_ok s" and a: "allocates H s s' blk"
  shows "sb s' = sb s" "icache s' = icache s" "disk_blocks s' = disk_blocks s" "bcache_ok s' H" "cache_step H s s'"
    "alloc_ok s'" "i < 1024 \<Longrightarrow> disk s' blk i = 0"
    "k \<noteq> blk \<Longrightarrow> k \<noteq> sb_bmapstart (sb s) + blk div 8192 \<Longrightarrow> disk s' k = disk s k"
    "unat b < unat (sb_size (sb s)) \<Longrightarrow> blk_used (disk s') (sb_bmapstart (sb s)) b \<longleftrightarrow>
       blk_used (disk s) (sb_bmapstart (sb s)) b \<or> b = blk"
proof -
  have d: "unat blk < unat (sb_size (sb s))" "\<not> blk_used (disk s) (sb_bmapstart (sb s)) blk"
    "disk s' = alloc_disk (disk s) (sb_bmapstart (sb s)) blk" and c: "cache_step H s s'"
    using a by (simp_all add: allocates_def)
  show f: "sb s' = sb s" "icache s' = icache s" "disk_blocks s' = disk_blocks s" using c by simp_all
  show "cache_step H s s'" "bcache_ok s' H" using c by (simp_all add: cache_step_def)
  show "i < 1024 \<Longrightarrow> disk s' blk i = 0"
    by (simp add: d(3) alloc_disk_def Let_def fill_bytes_def BSIZE_def)
  show "disk s' k = disk s k" if "k \<noteq> blk" "k \<noteq> sb_bmapstart (sb s) + blk div 8192"
    using that by (simp add: d(3) alloc_disk_def Let_def)
  show u: "blk_used (disk s') (sb_bmapstart (sb s)) b \<longleftrightarrow> blk_used (disk s) (sb_bmapstart (sb s)) b \<or> b = blk"
    if "unat b < unat (sb_size (sb s))" for b
    unfolding d(3) by (rule blk_used_alloc_disk [OF ok that d(1,2)])
  show "alloc_ok s'"
    unfolding alloc_ok_def f
  proof (intro conjI allI impI)
    fix j assume j: "8192 * j < unat (sb_size (sb s))"
    then have b: "unat (sb_bmapstart (sb s)) + j < unat (sb_size (sb s))"
      "blk_used (disk s) (sb_bmapstart (sb s)) (sb_bmapstart (sb s) + of_nat j)"
      using ok by (simp_all add: alloc_ok_def)
    show "unat (sb_bmapstart (sb s)) + j < unat (sb_size (sb s))" by (rule b(1))
    have "unat (sb_bmapstart (sb s) + of_nat j) = unat (sb_bmapstart (sb s)) + j"
      using b(1) unat_lt32 [of "sb_size (sb s)"] by (simp add: unat_add32 unat_of_nat32)
    then have "unat (sb_bmapstart (sb s) + of_nat j) < unat (sb_size (sb s))" using b(1) by simp
    from u [OF this] b(2)
    show "blk_used (disk s') (sb_bmapstart (sb s)) (sb_bmapstart (sb s) + of_nat j)" by blast
  qed (use ok in \<open>simp_all add: alloc_ok_def\<close>)
qed

section \<open>A small disk\<close>

text \<open>
  The demonstration disk has 1000 blocks: the superblock in block 1, the bitmap in block 2, one
  block of 16 inodes in block 3.  Inode 1 is the root directory; its only entry, in block 4,
  names inode 2, an empty file.
\<close>

definition demo_sb :: superblock where
  "demo_sb = \<lparr>sb_magic = FSMAGIC, sb_size = 1000, sb_nblocks = 996, sb_ninodes = 16, sb_nlog = 0,
     sb_logstart = 0, sb_inodestart = 3, sb_bmapstart = 2\<rparr>"

definition demo_disk :: "u32 \<Rightarrow> block" where
  "demo_disk blk =
     (if blk = 1 then put_le 4 (put_le 4 (put_le 4 (put_le 4 (put_le 4 (\<lambda>_. 0) 0 FSMAGIC) 4 (1000 :: u32))
        12 (16 :: u32)) 24 (3 :: u32)) 28 (2 :: u32)
      else if blk = 2 then (\<lambda>_. 0)(0 := 0x1f)
      else if blk = 3 then put_le 4 (put_le 4 (put_le 2 (put_le 2 (\<lambda>_. 0) 128 T_FILE) 64 T_DIR) 72 (16 :: u32))
        76 (4 :: u32)
      else if blk = 4 then put_le 2 ((\<lambda>_. 0)(2 := 0x61)) 0 (2 :: u16)
      else (\<lambda>_. 0))"

definition demo_fs :: fs where
  "demo_fs = \<lparr>memory = \<lambda>_. 0, console_out = [], free_mem_list = 0, kernel_pagetable = 0, satp = 0,
     disk = demo_disk, disk_blocks = 1000, bufs = bufs demo_cache, sb = demo_sb,
     icache = \<lambda>_. \<lparr>i_dev = 0, i_inum = 0, i_ref = 0, i_valid = 0, i_type = 0, i_major = 0, i_minor = 0,
       i_nlink = 0, i_size = 0, i_addrs = \<lambda>_. 0\<rparr>\<rparr>"

lemma demo_fs_cache_disk: "bcache_ok (demo_fs\<lparr>disk := D\<rparr>) {#}"
proof -
  let ?s = "demo_boot_cache\<lparr>disk := D\<rparr>"
  have "bcache_ok (binit ?s) {#}" by (rule binit_ok) (simp add: fresh_bufs_def demo_boot_cache_def)
  moreover have "bufs (binit ?s) = bufs demo_fs" "disk (binit ?s) = D"
    "disk_blocks (binit ?s) = disk_blocks demo_fs"
    by (simp_all add: binit_def demo_fs_def demo_cache_def demo_boot_cache_def)
  ultimately show ?thesis unfolding bcache_ok_def by simp
qed

lemma demo_fs_cache: "bcache_ok demo_fs {#}"
  using demo_fs_cache_disk [of "disk demo_fs"] by simp

lemma demo_used:
  assumes "unat b < 8192"
  shows "blk_used demo_disk 2 b \<longleftrightarrow> unat b < 5"
proof -
  have d: "b div 8192 = 0" using assms by (intro unat_eqD) (simp add: unat_div32)
  have "(0x1f :: u8) = mask 5" by (simp add: mask_eq_exp_minus_1)
  then have m: "bit (0x1f :: u8) k \<longleftrightarrow> k < 5" for k by (simp only: bit_mask_iff) auto
  have two: "demo_disk 2 i = (if i = 0 then 0x1f else 0)" for i by (simp add: demo_disk_def)
  have "blk_used demo_disk 2 b \<longleftrightarrow> bit (demo_disk 2 (unat b div 8)) (unat b mod 8)"
    using assms by (simp add: blk_used_def bm_bit_def d)
  also have "\<dots> \<longleftrightarrow> unat b div 8 = 0 \<and> unat b mod 8 < 5"
    unfolding two by (cases "unat b div 8 = 0") (simp_all only: if_True if_False m bit_0_eq bot_apply bot_bool_def simp_thms)
  finally show ?thesis by (auto simp: div_eq_0_iff)
qed

lemma demo_fs_sel: "disk demo_fs = demo_disk" "sb demo_fs = demo_sb" "disk_blocks demo_fs = 1000"
  "sb_size demo_sb = 1000" "sb_bmapstart demo_sb = 2" "sb_inodestart demo_sb = 3" "sb_ninodes demo_sb = 16"
  by (simp_all add: demo_fs_def demo_sb_def)

lemma demo_alloc_ok: "alloc_ok demo_fs"
proof -
  have "1024 * j < (125 :: nat) \<longleftrightarrow> j = 0" for j by auto
  then show ?thesis using demo_used [of 2] by (auto simp: alloc_ok_def demo_fs_sel)
qed

section \<open>Properties\<close>

text \<open>
  C11: On a file system whose size is a multiple of 8, at most \<open>2 ^ 30\<close> and fits the disk, with the blocks of the bitmap
  marked in it, and with a buffer that nobody holds: while a block is free, \<open>balloc\<close> returns one that was free and lies inside the file system:
  afterwards exactly that block is marked in addition, its content is zero, and no block but it
  and its bitmap block has changed.
\<close>

theorem balloc_takes_free_block:
  assumes "bcache_ok s H" and "size H < NBUF" and "alloc_ok s"
    and "unat x < unat (sb_size (sb s))" and "\<not> blk_used (disk s) (sb_bmapstart (sb s)) x"
  shows "\<exists>blk s'. balloc ROOTDEV s = Inr (blk, s') \<and> unat blk < unat (sb_size (sb s)) \<and>
    \<not> blk_used (disk s) (sb_bmapstart (sb s)) blk \<and> bcache_ok s' H \<and> alloc_ok s' \<and>
    (\<forall>b. unat b < unat (sb_size (sb s)) \<longrightarrow>
       (blk_used (disk s') (sb_bmapstart (sb s)) b \<longleftrightarrow> blk_used (disk s) (sb_bmapstart (sb s)) b \<or> b = blk)) \<and>
    (\<forall>i < 1024. disk s' blk i = 0) \<and>
    (\<forall>k. k \<noteq> blk \<longrightarrow> k \<noteq> sb_bmapstart (sb s) + blk div 8192 \<longrightarrow> disk s' k = disk s k)"
proof -
  obtain blk s' where b: "balloc ROOTDEV s = Inr (blk, s')" "allocates H s s' blk"
    using allocates_cases [OF assms(1-3)] assms(4,5) by blast
  have "unat blk < unat (sb_size (sb s)) \<and> \<not> blk_used (disk s) (sb_bmapstart (sb s)) blk"
    using b(2) by (simp add: allocates_def)
  with b(1) allocates_facts [OF assms(3) b(2)] show ?thesis by blast
qed

theorem balloc_takes_free_block_witness:
  "\<exists>blk s'. balloc ROOTDEV demo_fs = Inr (blk, s') \<and> \<not> unat blk < 5 \<and> unat blk < 1000 \<and> alloc_ok s'"
proof -
  have "\<not> blk_used (disk demo_fs) (sb_bmapstart (sb demo_fs)) 7" "unat (7 :: u32) < unat (sb_size (sb demo_fs))"
    "size ({#} :: u32 multiset) < NBUF"
    using demo_used [of 7] by (simp_all add: demo_fs_sel)
  from balloc_takes_free_block [OF demo_fs_cache this(3) demo_alloc_ok this(2,1)]
  obtain blk s' where "balloc ROOTDEV demo_fs = Inr (blk, s')" "unat blk < 1000" "\<not> blk_used demo_disk 2 blk" "alloc_ok s'"
    by (auto simp: demo_fs_sel)
  then show ?thesis using demo_used [of blk] by auto
qed

text \<open>With every block of the file system marked, \<open>balloc\<close> panics.\<close>

theorem balloc_panics_when_full:
  assumes "bcache_ok s H" and "size H < NBUF" and "alloc_ok s"
    and "\<forall>x. unat x < unat (sb_size (sb s)) \<longrightarrow> blk_used (disk s) (sb_bmapstart (sb s)) x"
  shows "balloc ROOTDEV s = Inl (Panic ''balloc: out of blocks'')"
  using allocates_cases [OF assms(1-3)] assms(4) by (auto simp: allocates_def)

definition demo_full_fs :: fs where
  "demo_full_fs = demo_fs\<lparr>disk := demo_disk(2 := \<lambda>_. 0xff)\<rparr>"

theorem balloc_panics_when_full_witness:
  "balloc ROOTDEV demo_full_fs = Inl (Panic ''balloc: out of blocks'')"
proof -
  have ff: "bit (0xff :: u8) k" if "k < 8" for k
  proof -
    have "(0xff :: u8) = mask 8" by (simp add: mask_eq_exp_minus_1)
    then show ?thesis using that by (simp only: bit_mask_iff) auto
  qed
  have used: "blk_used (disk demo_full_fs) (sb_bmapstart (sb demo_full_fs)) x" if "unat x < 1000" for x
  proof -
    have "x div 8192 = 0" using that by (intro unat_eqD) (simp add: unat_div32)
    then show ?thesis
      using ff [of "unat x mod 8192 mod 8"]
      by (simp add: blk_used_def bm_bit_def demo_full_fs_def demo_fs_def demo_sb_def)
  qed
  have ok: "bcache_ok demo_full_fs {#}" unfolding demo_full_fs_def by (rule demo_fs_cache_disk)
  have j: "1024 * j < (125 :: nat) \<longleftrightarrow> j = 0" for j by auto
  have al: "alloc_ok demo_full_fs"
    using used [of 2] j by (auto simp: alloc_ok_def demo_full_fs_def demo_fs_def demo_sb_def)
  have room: "size ({#} :: u32 multiset) < NBUF" by simp
  have full: "\<forall>x. unat x < unat (sb_size (sb demo_full_fs)) \<longrightarrow>
      blk_used (disk demo_full_fs) (sb_bmapstart (sb demo_full_fs)) x"
    using used by (simp add: demo_full_fs_def demo_fs_def demo_sb_def)
  show ?thesis by (rule balloc_panics_when_full [OF ok room al full])
qed

text \<open>
  \<open>bfree\<close> clears the mark of a marked block and no other, and panics on a block that is not
  marked: freeing twice is caught.
\<close>

theorem bfree_clears_mark:
  assumes "bcache_ok s H" and "size H < NBUF" and "alloc_ok s" and "unat b < unat (sb_size (sb s))"
  shows "if blk_used (disk s) (sb_bmapstart (sb s)) b
    then \<exists>s'. bfree ROOTDEV b s = Inr s' \<and> bcache_ok s' H \<and>
      (\<forall>x. unat x < unat (sb_size (sb s)) \<longrightarrow>
        (blk_used (disk s') (sb_bmapstart (sb s)) x \<longleftrightarrow> blk_used (disk s) (sb_bmapstart (sb s)) x \<and> x \<noteq> b)) \<and>
      (\<forall>k. k \<noteq> sb_bmapstart (sb s) + b div 8192 \<longrightarrow> disk s' k = disk s k)
    else bfree ROOTDEV b s = Inl (Panic ''freeing free block'')"
proof -
  let ?bm = "sb_bmapstart (sb s)" and ?n = "unat b mod 8192"
  let ?k = "?bm + b div 8192" and ?i = "unat b mod 8192 div 8" and ?m = "push_bit (unat b mod 8) (1 :: u8)"
  have k: "unat ?k < disk_blocks s"
    using alloc_ok_bitmap_block(1) [OF assms(3,4)] assms(3) by (simp add: alloc_ok_def)
  have idx: "unat ((b mod 8192) div 8) = ?i" "unat (b mod 8) = unat b mod 8"
    by (simp_all add: unat_div32 unat_mod32)
  have n3: "?n mod 8 = unat b mod 8" by (simp add: mod_mod_cancel)
  have "?n = 8 * ?i + ?n mod 8" by simp
  then have n: "?n = 8 * ?i + unat b mod 8" "unat b mod 8 < 8" "?n mod 8 = unat b mod 8"
    unfolding n3 by simp_all
  have bitb: "disk s ?k ?i AND ?m = 0 \<longleftrightarrow> \<not> blk_used (disk s) ?bm b"
    unfolding blk_used_def bm_bit_def n(3) by (rule and_power_0) (simp add: n(2))
  show ?thesis
  proof (cases "blk_used (disk s) ?bm b")
    case False
    obtain bp s1 where w: "bread ROOTDEV ?k s = Inr (bp, s1)" "b_data (bufs s1 bp) = disk s ?k"
      by (rule bread_brelse [OF assms(1,2) k]) (rule that)
    show ?thesis
      using False bitb unfolding bfree_def w(1) idx by (simp add: w(2) Let_def)
  next
    case True
    let ?f = "\<lambda>d. d(?i := d ?i AND NOT ?m)"
    obtain bp s1 s2 where w: "bread ROOTDEV ?k s = Inr (bp, s1)" "b_data (bufs s1 bp) = disk s ?k" "only_cache s s1"
      "bwrite bp (set_data bp (?f (disk s ?k)) s1) = Inr s2" "cache_step H s (brelse bp s2)"
      "disk (brelse bp s2) = (disk s)(?k := ?f (disk s ?k))"
      by (rule bread_bwrite_brelse [OF assms(1,2) k, of ?f])
    have r: "bfree ROOTDEV b s = Inr (brelse bp s2)"
      using True bitb w(4) unfolding bfree_def w(1) idx by (simp add: w(2) Let_def)
    have bits: "bm_bit (?f d) j \<longleftrightarrow> bm_bit d j \<and> j \<noteq> ?n" for d j
    proof -
      have "bit ?m i \<longleftrightarrow> i = unat b mod 8" if "i < 8" for i using n(2) that by (auto simp: bit_simps)
      moreover have "j = ?n \<longleftrightarrow> j div 8 = ?i \<and> j mod 8 = unat b mod 8"
        by (metis div_mult_mod_eq n(3))
      ultimately show ?thesis by (auto simp: bm_bit_def bit_and_iff bit_not_iff)
    qed
    have "blk_used (disk (brelse bp s2)) ?bm x \<longleftrightarrow> blk_used (disk s) ?bm x \<and> x \<noteq> b" for x
    proof (cases "x div 8192 = b div 8192")
      case same: True
      then have "unat x div 8192 = unat b div 8192" using unat_div32 [of x 8192] unat_div32 [of b 8192] same by simp
      then have "unat x mod 8192 = ?n \<longleftrightarrow> x = b" by (metis div_mult_mod_eq unat_eqD)
      then show ?thesis unfolding w(6) blk_used_def same fun_upd_same bits by simp
    next
      case False
      then show ?thesis unfolding w(6) blk_used_def by auto
    qed
    then show ?thesis
      using True r w(6) cache_step_ok [OF w(5)] by simp
  qed
qed

theorem bfree_clears_mark_witness:
  "bfree ROOTDEV 7 demo_fs = Inl (Panic ''freeing free block'') \<and>
   (\<exists>s'. bfree ROOTDEV 4 demo_fs = Inr s' \<and> \<not> blk_used (disk s') 2 4)"
proof -
  have room: "size ({#} :: u32 multiset) < NBUF" by simp
  have "unat (7 :: u32) < unat (sb_size (sb demo_fs))" "unat (4 :: u32) < unat (sb_size (sb demo_fs))"
    by (simp_all add: demo_fs_sel)
  from this [THEN bfree_clears_mark [OF demo_fs_cache room demo_alloc_ok]] demo_used [of 7] demo_used [of 4]
  show ?thesis by (auto simp: demo_fs_sel)
qed

end
