(* ===== verification/Inode.thy ===== *)
theory Inode
  imports Fs_Alloc
begin

text \<open>
  The inode layer of \<open>kernel/fs/fs.c\<close>: the layout of \<open>struct dinode\<close> on disk, the cache of
  in-memory inodes with its reference counts (\<open>iget\<close>, \<open>ilock\<close>, \<open>iunlock\<close>, \<open>iput\<close>), and the
  operations that write inodes back or allocate them (\<open>iupdate\<close>, \<open>ialloc\<close>).  An inode pointer
  is the index of its slot in \<open>icache.inode\<close>; where the code tests for a null pointer it is an
  option.
\<close>

section \<open>The layout on disk\<close>

record dinode =
  d_type :: u16
  d_major :: u16
  d_minor :: u16
  d_nlink :: u16
  d_size :: u32
  d_addrs :: "nat \<Rightarrow> u32"

text \<open>\<open>sizeof(struct dinode)\<close> is 64, so \<open>IPB\<close> is 16.\<close>

definition dinode_of :: "block \<Rightarrow> nat \<Rightarrow> dinode" where
  "dinode_of d off = \<lparr>d_type = get_le 2 d off, d_major = get_le 2 d (off + 2), d_minor = get_le 2 d (off + 4),
     d_nlink = get_le 2 d (off + 6), d_size = get_le 4 d (off + 8),
     d_addrs = \<lambda>k. if k < NDIRECT + 1 then get_le 4 d (off + 12 + 4 * k) else 0\<rparr>"

primrec put_addrs :: "nat \<Rightarrow> (nat \<Rightarrow> u32) \<Rightarrow> block \<Rightarrow> nat \<Rightarrow> block" where
  "put_addrs 0 a d off = d"
| "put_addrs (Suc n) a d off = put_le 4 (put_addrs n a d off) (off + 12 + 4 * n) (a n)"

definition put_dinode :: "dinode \<Rightarrow> block \<Rightarrow> nat \<Rightarrow> block" where
  "put_dinode di d off =
     put_addrs (NDIRECT + 1) (d_addrs di)
       (put_le 4 (put_le 2 (put_le 2 (put_le 2 (put_le 2 d off (d_type di)) (off + 2) (d_major di))
         (off + 4) (d_minor di)) (off + 6) (d_nlink di)) (off + 8) (d_size di)) off"

definition inode_block :: "superblock \<Rightarrow> u32 \<Rightarrow> u32" where
  "inode_block b inum = sb_inodestart b + inum div 16"

definition inode_off :: "u32 \<Rightarrow> nat" where
  "inode_off inum = 64 * unat (inum mod 16)"

section \<open>Operations\<close>

text \<open>
  The single pass of \<open>iget\<close> over the slots: the first slot that holds the inode, and the first
  free slot before it.
\<close>

primrec iget_scan :: "u32 \<Rightarrow> u32 \<Rightarrow> (nat \<Rightarrow> inode) \<Rightarrow> nat list \<Rightarrow> nat option \<Rightarrow> nat option \<times> nat option" where
  "iget_scan dev inum c [] free = (None, free)"
| "iget_scan dev inum c (ip # ips) free =
     (if 0 < sint (i_ref (c ip)) \<and> i_dev (c ip) = dev \<and> i_inum (c ip) = inum then (Some ip, free)
      else iget_scan dev inum c ips (if free = None \<and> i_ref (c ip) = 0 then Some ip else free))"

definition iget :: "u32 \<Rightarrow> u32 \<Rightarrow> 'a fs_scheme \<Rightarrow> (nat \<times> 'a fs_scheme) res" where
  "iget dev inum s =
     (case iget_scan dev inum (icache s) [0..<NINODE] None of
        (Some ip, _) \<Rightarrow> Inr (ip, upd_inode ip (\<lambda>f. f\<lparr>i_ref := i_ref f + 1\<rparr>) s)
      | (None, None) \<Rightarrow> Inl (Panic ''iget: no inodes'')
      | (None, Some ip) \<Rightarrow>
          Inr (ip, upd_inode ip (\<lambda>f. f\<lparr>i_dev := dev, i_inum := inum, i_ref := 1, i_valid := 0\<rparr>) s))"

definition copy_in :: "dinode \<Rightarrow> inode \<Rightarrow> inode" where
  "copy_in di f = f\<lparr>i_type := d_type di, i_major := d_major di, i_minor := d_minor di,
     i_nlink := d_nlink di, i_size := d_size di, i_addrs := d_addrs di\<rparr>"

definition copy_out :: "inode \<Rightarrow> dinode" where
  "copy_out f = \<lparr>d_type = i_type f, d_major = i_major f, d_minor = i_minor f, d_nlink = i_nlink f,
     d_size = i_size f, d_addrs = i_addrs f\<rparr>"

definition ilock :: "nat option \<Rightarrow> 'a fs_scheme \<Rightarrow> 'a fs_scheme res" where
  "ilock ipo s =
     (case ipo of None \<Rightarrow> Inl (Panic ''ilock'')
      | Some ip \<Rightarrow>
          if sint (i_ref (icache s ip)) < 1 then Inl (Panic ''ilock'')
          else if i_valid (icache s ip) \<noteq> 0 then Inr s
          else
            let inum = i_inum (icache s ip) in
            bindE (bread (i_dev (icache s ip)) (inode_block (sb s) inum) s) (\<lambda>(bp, s1).
              let di = dinode_of (b_data (bufs s1 bp)) (inode_off inum);
                  s2 = brelse bp (upd_inode ip (copy_in di) s1);
                  s3 = upd_inode ip (\<lambda>f. f\<lparr>i_valid := 1\<rparr>) s2
              in if i_type (icache s3 ip) = 0 then Inl (Panic ''ilock: no type'') else Inr s3))"

definition iunlock :: "nat option \<Rightarrow> 'a fs_scheme \<Rightarrow> 'a fs_scheme res" where
  "iunlock ipo s =
     (case ipo of None \<Rightarrow> Inl (Panic ''iunlock'')
      | Some ip \<Rightarrow> if sint (i_ref (icache s ip)) < 1 then Inl (Panic ''iunlock'') else Inr s)"

definition iput :: "nat \<Rightarrow> 'a fs_scheme \<Rightarrow> 'a fs_scheme" where
  "iput ip s =
     (let f = icache s ip;
          f1 = (if i_ref f = 1 \<and> i_valid f \<noteq> 0 \<and> i_nlink f = 0 then f\<lparr>i_valid := 0\<rparr> else f);
          f2 = f1\<lparr>i_ref := i_ref f1 - 1\<rparr>;
          f3 = (if i_ref f2 = 0 then f2\<lparr>i_valid := 0\<rparr> else f2)
      in upd_inode ip (\<lambda>_. f3) s)"

definition iupdate :: "nat \<Rightarrow> 'a fs_scheme \<Rightarrow> 'a fs_scheme res" where
  "iupdate ip s =
     (let f = icache s ip in
      bindE (bread (i_dev f) (inode_block (sb s) (i_inum f)) s) (\<lambda>(bp, s1).
      bindE (bwrite bp (set_data bp (put_dinode (copy_out f) (b_data (bufs s1 bp)) (inode_off (i_inum f))) s1)) (\<lambda>s2.
      Inr (brelse bp s2))))"

lemma unat_next32: "a < (b :: u32) \<Longrightarrow> unat (a + 1) = Suc (unat a)"
  using unat_lt32 [of b] by (simp add: word_less_nat_alt unat_add32)

text \<open>The loop of \<open>ialloc\<close>: \<open>inum\<close> is an \<open>int\<close> compared with the unsigned \<open>sb.ninodes\<close>.\<close>

function ialloc_from :: "u32 \<Rightarrow> u16 \<Rightarrow> u32 \<Rightarrow> 'a fs_scheme \<Rightarrow> (nat \<times> 'a fs_scheme) res" where
  "ialloc_from dev typ inum s =
     (if inum < sb_ninodes (sb s) then
        bindE (bread dev (inode_block (sb s) inum) s) (\<lambda>(bp, s1).
          let d = b_data (bufs s1 bp); off = inode_off inum in
          if d_type (dinode_of d off) = 0 then
            bindE (bwrite bp (set_data bp (put_le 2 (fill_bytes d off 0 64) off typ) s1)) (\<lambda>s2.
            iget dev inum (brelse bp s2))
          else if inum = 0x7FFFFFFF then Inl (Fault ''ialloc: int overflow'')
          else ialloc_from dev typ (inum + 1) (brelse bp s1))
      else Inl (Panic ''ialloc: no inodes''))"
  by pat_completeness auto
termination
proof (relation "measure (\<lambda>(dev, typ, inum, s). 2 ^ 32 - unat inum)")
  fix dev inum :: u32 and ty :: u16 and s s' :: "'a fs_scheme"
  assume "inum < sb_ninodes (sb s)"
  then have "unat (inum + 1) = Suc (unat inum)" "Suc (unat inum) < 2 ^ 32"
    using unat_next32 [of inum] unat_lt32 [of "inum + 1"] by auto
  then show "((dev, ty, inum + 1, s'), dev, ty, inum, s)
      \<in> measure (\<lambda>(dev, typ, inum, s). 2 ^ 32 - unat inum)" by simp
qed simp

declare ialloc_from.simps [simp del]

definition ialloc :: "u32 \<Rightarrow> u16 \<Rightarrow> 'a fs_scheme \<Rightarrow> (nat \<times> 'a fs_scheme) res" where
  "ialloc dev typ s = ialloc_from dev typ 1 s"

section \<open>The layout is a bijection\<close>

lemma get_put_addrs_other:
  "off' + m \<le> off + 12 \<or> off + 12 + 4 * n \<le> off' \<Longrightarrow> get_le m (put_addrs n a d off) off' = get_le m d off'"
  by (induction n) (auto simp: get_put_le_other)

lemma get_put_addrs: "k < n \<Longrightarrow> get_le 4 (put_addrs n a d off) (off + 12 + 4 * k) = a k"
  by (induction n) (auto simp: less_Suc_eq get_put_le_same get_put_le_other)

lemma put_addrs_outside: "i < off + 12 \<or> off + 12 + 4 * n \<le> i \<Longrightarrow> put_addrs n a d off i = d i"
  by (induction n) (auto simp: put_le_outside)

text \<open>What fits into the 13 entries.\<close>

definition addrs_ok :: "(nat \<Rightarrow> u32) \<Rightarrow> bool" where
  "addrs_ok a \<longleftrightarrow> (\<forall>k \<ge> NDIRECT + 1. a k = 0)"

lemma dinode_of_put_dinode:
  assumes "addrs_ok (d_addrs di)"
  shows "dinode_of (put_dinode di d off) off = di"
proof -
  have "(\<lambda>k. if k < NDIRECT + 1 then d_addrs di k else 0) = d_addrs di"
    using assms by (auto simp: addrs_ok_def fun_eq_iff not_less)
  then show ?thesis
    by (intro dinode.equality)
      (simp_all add: dinode_of_def put_dinode_def get_put_addrs_other get_put_addrs get_put_le_same get_put_le_other
        del: put_addrs.simps cong: if_cong)
qed

lemma put_dinode_outside: "i < off \<or> off + 64 \<le> i \<Longrightarrow> put_dinode di d off i = d i"
  by (auto simp: put_dinode_def put_addrs_outside put_le_outside NDIRECT_def)

lemma get_le_cong: "(\<And>i. off \<le> i \<Longrightarrow> i < off + n \<Longrightarrow> d i = e i) \<Longrightarrow> get_le n d off = get_le n e off"
  unfolding get_le_def by (rule of_le_cong) simp

lemma dinode_of_cong: "(\<And>i. off \<le> i \<Longrightarrow> i < off + 64 \<Longrightarrow> d i = e i) \<Longrightarrow> dinode_of d off = dinode_of e off"
  unfolding dinode_of_def
  by (intro dinode.equality) (auto simp: NDIRECT_def fun_eq_iff intro!: get_le_cong)

lemma dinode_of_put_dinode_other:
  "off' + 64 \<le> off \<or> off + 64 \<le> off' \<Longrightarrow> dinode_of (put_dinode di d off) off' = dinode_of d off'"
  by (rule dinode_of_cong) (auto intro: put_dinode_outside)

lemma inode_off_apart: "i mod 16 \<noteq> j mod 16 \<Longrightarrow> inode_off i + 64 \<le> inode_off j \<or> inode_off j + 64 \<le> inode_off i"
  by (simp add: inode_off_def word_unat_eq_iff) linarith

section \<open>The cache of in-memory inodes\<close>

definition refers :: "inode \<Rightarrow> u32 \<Rightarrow> u32 \<Rightarrow> bool" where
  "refers f dev inum \<longleftrightarrow> 0 < sint (i_ref f) \<and> i_dev f = dev \<and> i_inum f = inum"

text \<open>No count is negative, and no two slots in use stand for one inode.\<close>

definition icache_ok :: "(nat \<Rightarrow> inode) \<Rightarrow> bool" where
  "icache_ok c \<longleftrightarrow> (\<forall>i < NINODE. 0 \<le> sint (i_ref (c i))) \<and>
     (\<forall>i < NINODE. \<forall>j < NINODE. \<forall>dev inum. refers (c i) dev inum \<longrightarrow> refers (c j) dev inum \<longrightarrow> i = j)"

lemmas iget_scan_simps = iget_scan.simps(1) iget_scan.simps(2) [folded refers_def]

lemma iget_scan_hit: "iget_scan dev inum c ips free = (Some ip, x) \<Longrightarrow> ip \<in> set ips \<and> refers (c ip) dev inum"
  by (induction ips arbitrary: free) (auto simp: iget_scan_simps simp del: iget_scan.simps(2) split: if_splits)

lemma iget_scan_miss:
  "iget_scan dev inum c ips free = (None, r) \<Longrightarrow>
     (\<forall>ip \<in> set ips. \<not> refers (c ip) dev inum) \<and>
     r = (if free = None then find (\<lambda>ip. i_ref (c ip) = 0) ips else free)"
proof (induction ips arbitrary: free)
  case (Cons ip ips)
  let ?free = "if free = None \<and> i_ref (c ip) = 0 then Some ip else free"
  have n: "\<not> refers (c ip) dev inum" and t: "iget_scan dev inum c ips ?free = (None, r)"
    using Cons.prems by (auto simp: iget_scan_simps simp del: iget_scan.simps split: if_splits)
  from Cons.IH [OF t] n show ?case by auto
qed simp

lemma iget_cases:
  obtains (hit) ip where "ip < NINODE" "refers (icache s ip) dev inum"
      "iget dev inum s = Inr (ip, upd_inode ip (\<lambda>f. f\<lparr>i_ref := i_ref f + 1\<rparr>) s)"
  | (miss) ip where "ip < NINODE" "\<forall>j < NINODE. \<not> refers (icache s j) dev inum" "i_ref (icache s ip) = 0"
      "\<forall>j < ip. i_ref (icache s j) \<noteq> 0"
      "iget dev inum s = Inr (ip, upd_inode ip (\<lambda>f. f\<lparr>i_dev := dev, i_inum := inum, i_ref := 1, i_valid := 0\<rparr>) s)"
  | (full) "\<forall>j < NINODE. \<not> refers (icache s j) dev inum \<and> i_ref (icache s j) \<noteq> 0"
      "iget dev inum s = Inl (Panic ''iget: no inodes'')"
proof -
  obtain h r where sc: "iget_scan dev inum (icache s) [0..<NINODE] None = (h, r)" by fastforce
  show thesis
  proof (cases h)
    case (Some ip)
    then show thesis using iget_scan_hit [OF sc [unfolded Some]] sc by (intro hit [of ip]) (auto simp: iget_def)
  next
    case None
    note m = iget_scan_miss [OF sc [unfolded None]]
    show thesis
    proof (cases r)
      case None
      then have f: "find (\<lambda>ip. i_ref (icache s ip) = 0) [0..<NINODE] = None" using m by simp
      then have "\<forall>j \<in> set [0..<NINODE]. i_ref (icache s j) \<noteq> 0" by (simp only: find_None_all)
      then show thesis
        using m sc \<open>h = None\<close> None by (intro full) (auto simp: iget_def)
    next
      case (Some ip)
      then have f: "find (\<lambda>ip. i_ref (icache s ip) = 0) [0..<NINODE] = Some ip" using m by simp
      obtain as bs where a: "[0..<NINODE] = as @ ip # bs" "\<forall>a \<in> set as. i_ref (icache s a) \<noteq> 0"
        using find_Some_split [OF f] by blast
      show thesis
        by (rule miss [of ip])
          (use conjunct1 [OF m] sc [unfolded \<open>h = None\<close> Some] find_SomeD [OF f] upt_splitD [OF a(1)] a(2)
            in \<open>auto simp: iget_def\<close>)
    qed
  qed
qed

lemma sint_add_1: "sint (r :: i32) < 2 ^ 31 - 1 \<Longrightarrow> sint (r + 1) = sint r + 1"
  using sint_ge [of r] sint_lt [of r] by (simp add: sint_word_ariths signed_take_bit_int_eq_self)

lemma sint_sub_1: "0 < sint (r :: i32) \<Longrightarrow> sint (r - 1) = sint r - 1"
  using sint_ge [of r] sint_lt [of r] by (simp add: sint_word_ariths signed_take_bit_int_eq_self)

lemma icache_ok_unique:
  "icache_ok c \<Longrightarrow> i < NINODE \<Longrightarrow> j < NINODE \<Longrightarrow> refers (c i) dev inum \<Longrightarrow> refers (c j) dev inum \<Longrightarrow> i = j"
  unfolding icache_ok_def by (elim conjE) blast

lemma icache_ok_upd:
  assumes ok: "icache_ok c" and ip: "ip < NINODE" "0 \<le> sint (i_ref f)"
    and new: "\<And>dev inum j. refers f dev inum \<Longrightarrow> j < NINODE \<Longrightarrow> j \<noteq> ip \<Longrightarrow> \<not> refers (c j) dev inum"
  shows "icache_ok (c(ip := f))"
  unfolding icache_ok_def
proof (intro conjI allI impI)
  show "0 \<le> sint (i_ref ((c(ip := f)) i))" if "i < NINODE" for i
    using ok ip that unfolding icache_ok_def by (simp add: fun_upd_def)
  show "i = j" if "i < NINODE" "j < NINODE" "refers ((c(ip := f)) i) d n" "refers ((c(ip := f)) j) d n" for i j d n
  proof (cases "i = ip \<or> j = ip")
    case True
    then show ?thesis using that new [of d n i] new [of d n j] by (cases "i = ip"; cases "j = ip") simp_all
  next
    case False
    then show ?thesis using that by (intro icache_ok_unique [OF ok, of i j d n]) simp_all
  qed
qed

lemma iget_ok:
  assumes ok: "icache_ok (icache s)" and small: "\<And>j. j < NINODE \<Longrightarrow> sint (i_ref (icache s j)) < 2 ^ 31 - 1"
    and g: "iget dev inum s = Inr (ip, s')"
  shows "icache_ok (icache s')" "ip < NINODE" "refers (icache s' ip) dev inum"
    "j \<noteq> ip \<Longrightarrow> icache s' j = icache s j" "s' = s\<lparr>icache := icache s'\<rparr>"
    "sint (i_ref (icache s' ip)) = sint (i_ref (icache s ip)) + 1"
proof -
  have "icache_ok (icache s') \<and> ip < NINODE \<and> refers (icache s' ip) dev inum \<and>
    (\<forall>j. j \<noteq> ip \<longrightarrow> icache s' j = icache s j) \<and> s' = s\<lparr>icache := icache s'\<rparr> \<and>
    sint (i_ref (icache s' ip)) = sint (i_ref (icache s ip)) + 1"
  proof (cases rule: iget_cases [of s dev inum])
    case (hit q)
    then have s': "q = ip" "s' = upd_inode ip (\<lambda>f. f\<lparr>i_ref := i_ref f + 1\<rparr>) s" using g by simp_all
    have r: "sint (i_ref (icache s ip) + 1) = sint (i_ref (icache s ip)) + 1"
      using small [of ip] hit s' by (intro sint_add_1) simp
    have pos: "0 < sint (i_ref (icache s ip))" using hit s' by (simp add: refers_def)
    have "icache_ok ((icache s)(ip := (icache s ip)\<lparr>i_ref := i_ref (icache s ip) + 1\<rparr>))"
    proof (rule icache_ok_upd [OF ok])
      fix d n j assume a: "refers ((icache s ip)\<lparr>i_ref := i_ref (icache s ip) + 1\<rparr>) d n" "j < NINODE" "j \<noteq> ip"
      then have "refers (icache s ip) d n" using pos by (simp add: refers_def)
      then show "\<not> refers (icache s j) d n"
        using icache_ok_unique [OF ok a(2) hit(1) _ , of d n] a(3) s'(1) by blast
    qed (use hit s' r pos in simp_all)
    then show ?thesis using hit s' r pos by (simp add: upd_inode_def refers_def)
  next
    case (miss q)
    then have s': "q = ip" "s' = upd_inode ip (\<lambda>f. f\<lparr>i_dev := dev, i_inum := inum, i_ref := 1, i_valid := 0\<rparr>) s"
      using g by simp_all
    have "icache_ok ((icache s)(ip := (icache s ip)\<lparr>i_dev := dev, i_inum := inum, i_ref := 1, i_valid := 0\<rparr>))"
      using miss s' by (intro icache_ok_upd [OF ok]) (auto simp: refers_def)
    then show ?thesis using miss s' by (simp add: upd_inode_def refers_def)
  next
    case full
    then show ?thesis using g by simp
  qed
  then show "icache_ok (icache s')" "ip < NINODE" "refers (icache s' ip) dev inum"
    "j \<noteq> ip \<Longrightarrow> icache s' j = icache s j" "s' = s\<lparr>icache := icache s'\<rparr>"
    "sint (i_ref (icache s' ip)) = sint (i_ref (icache s ip)) + 1" by blast+
qed

lemma iput_ok:
  assumes ok: "icache_ok (icache s)" and ip: "ip < NINODE" "0 < sint (i_ref (icache s ip))"
  shows "icache_ok (icache (iput ip s))" "i_ref (icache (iput ip s) ip) = i_ref (icache s ip) - 1"
    "i_ref (icache s ip) = 1 \<Longrightarrow> i_valid (icache (iput ip s) ip) = 0"
    "i_ref (icache s ip) \<noteq> 1 \<Longrightarrow> i_valid (icache (iput ip s) ip) = i_valid (icache s ip)"
    "j \<noteq> ip \<Longrightarrow> icache (iput ip s) j = icache s j" "iput ip s = s\<lparr>icache := icache (iput ip s)\<rparr>"
proof -
  show r: "i_ref (icache (iput ip s) ip) = i_ref (icache s ip) - 1"
    by (simp add: iput_def upd_inode_def Let_def)
  have k: "i_dev (icache (iput ip s) ip) = i_dev (icache s ip)" "i_inum (icache (iput ip s) ip) = i_inum (icache s ip)"
    by (simp_all add: iput_def upd_inode_def Let_def)
  show o: "j \<noteq> ip \<Longrightarrow> icache (iput ip s) j = icache s j" for j
    by (simp add: iput_def upd_inode_def Let_def)
  show "iput ip s = s\<lparr>icache := icache (iput ip s)\<rparr>" by (simp add: iput_def upd_inode_def Let_def)
  show "i_ref (icache s ip) = 1 \<Longrightarrow> i_valid (icache (iput ip s) ip) = 0"
    by (simp add: iput_def upd_inode_def Let_def)
  show "i_ref (icache s ip) \<noteq> 1 \<Longrightarrow> i_valid (icache (iput ip s) ip) = i_valid (icache s ip)"
    by (simp add: iput_def upd_inode_def Let_def)
  have "icache (iput ip s) = (icache s)(ip := icache (iput ip s) ip)" using o by auto
  moreover have "icache_ok ((icache s)(ip := icache (iput ip s) ip))"
  proof (rule icache_ok_upd [OF ok ip(1)])
    show "0 \<le> sint (i_ref (icache (iput ip s) ip))" using sint_sub_1 [OF ip(2)] ip(2) r by simp
    fix d n j assume a: "refers (icache (iput ip s) ip) d n" "j < NINODE" "j \<noteq> ip"
    then have "refers (icache s ip) d n" using ip(2) k by (simp add: refers_def)
    then show "\<not> refers (icache s j) d n"
      using icache_ok_unique [OF ok a(2) ip(1) _ , of d n] a(3) by blast
  qed
  ultimately show "icache_ok (icache (iput ip s))" by simp
qed

section \<open>Steps of the file system\<close>

text \<open>
  A step of the inode layer changes the buffers, the disk and the in-memory inodes; the caller's
  buffers stay attached.
\<close>

definition fs_step :: "u32 multiset \<Rightarrow> 'a fs_scheme \<Rightarrow> 'a fs_scheme \<Rightarrow> bool" where
  "fs_step H s s' \<longleftrightarrow> bcache_ok s' H \<and> s' = s\<lparr>disk := disk s', bufs := bufs s', icache := icache s'\<rparr> \<and>
     (\<forall>c k. k \<in># H \<longrightarrow> holds s c k \<longrightarrow> holds s' c k)"

lemma fs_step_refl: "bcache_ok s H \<Longrightarrow> fs_step H s s"
  by (simp add: fs_step_def)

lemma fs_step_trans:
  assumes "fs_step H s t" "fs_step H t u"
  shows "fs_step H s u"
proof -
  have "t = s\<lparr>disk := disk t, bufs := bufs t, icache := icache t\<rparr>"
    "u = t\<lparr>disk := disk u, bufs := bufs u, icache := icache u\<rparr>"
    using assms by (simp_all add: fs_step_def)
  then have "u = s\<lparr>disk := disk u, bufs := bufs u, icache := icache u\<rparr>"
    by (cases s; cases t; cases u) simp
  then show ?thesis using assms unfolding fs_step_def by blast
qed

lemma fs_step_facts:
  assumes "fs_step H s s'"
  shows "bcache_ok s' H" "sb s' = sb s" "disk_blocks s' = disk_blocks s" "console_out s' = console_out s"
    "memory s' = memory s" "k \<in># H \<Longrightarrow> holds s c k \<Longrightarrow> holds s' c k"
proof -
  have e: "s' = s\<lparr>disk := disk s', bufs := bufs s', icache := icache s'\<rparr>" using assms by (simp add: fs_step_def)
  show "sb s' = sb s" "disk_blocks s' = disk_blocks s" "console_out s' = console_out s" "memory s' = memory s"
    by (subst e, simp)+
qed (use assms in \<open>simp_all add: fs_step_def\<close>)

lemma cache_step_fs_step: "cache_step H s s' \<Longrightarrow> fs_step H s (s' :: 'a fs_scheme)"
  unfolding cache_step_def fs_step_def only_cache_def by (cases s; cases s') simp

lemma bcache_ok_icache [simp]: "bcache_ok (s\<lparr>icache := c\<rparr>) H = bcache_ok s H"
  by (simp add: bcache_ok_def)

lemma holds_icache [simp]: "holds (s\<lparr>icache := c\<rparr>) b k = holds s b k"
  by (simp add: holds_def)

lemma icache_fs_step: "bcache_ok s H \<Longrightarrow> fs_step H s (s\<lparr>icache := c\<rparr>)"
  by (simp add: fs_step_def)

lemma upd_inode_fs_step: "bcache_ok s H \<Longrightarrow> fs_step H s (upd_inode ip f s)"
  unfolding upd_inode_def by (rule icache_fs_step)

lemma brelse_upd_inode: "brelse b (upd_inode ip f s) = upd_inode ip f (brelse b s)"
  by (simp add: brelse_def upd_buf_def upd_inode_def Let_def)

lemma upd_inode_sel [simp]:
  "icache (upd_inode ip f s) ip = f (icache s ip)" "j \<noteq> ip \<Longrightarrow> icache (upd_inode ip f s) j = icache s j"
  "disk (upd_inode ip f s) = disk s" "bufs (upd_inode ip f s) = bufs s" "sb (upd_inode ip f s) = sb s"
  "disk_blocks (upd_inode ip f s) = disk_blocks s" "memory (upd_inode ip f s) = memory s"
  by (simp_all add: upd_inode_def)

section \<open>Loading and storing inodes\<close>

text \<open>The inode \<open>inum\<close> as it stands on the disk.\<close>

definition dinode_at :: "'a fs_scheme \<Rightarrow> u32 \<Rightarrow> dinode" where
  "dinode_at s inum = dinode_of (disk s (inode_block (sb s) inum)) (inode_off inum)"

lemma addrs_ok_dinode_of: "addrs_ok (d_addrs (dinode_of d off))"
  by (simp add: addrs_ok_def dinode_of_def)

lemma ilock_ok:
  assumes "bcache_ok s H" "size H < NBUF" "i_dev (icache s ip) = ROOTDEV" "0 < sint (i_ref (icache s ip))"
    and "i_valid (icache s ip) = 0" "unat (inode_block (sb s) (i_inum (icache s ip))) < disk_blocks s"
  shows "if d_type (dinode_at s (i_inum (icache s ip))) = 0 then ilock (Some ip) s = Inl (Panic ''ilock: no type'')
    else \<exists>s'. ilock (Some ip) s = Inr s' \<and> fs_step H s s' \<and> disk s' = disk s \<and>
      icache s' = (icache s)(ip := (copy_in (dinode_at s (i_inum (icache s ip))) (icache s ip))\<lparr>i_valid := 1\<rparr>)"
proof -
  let ?i = "i_inum (icache s ip)" let ?k = "inode_block (sb s) ?i"
  obtain bp s1 where r: "bread ROOTDEV ?k s = Inr (bp, s1)" "b_data (bufs s1 bp) = disk s ?k" "only_cache s s1"
    "disk s1 = disk s" "cache_step H s (brelse bp s1)" "disk (brelse bp s1) = disk s"
    by (rule bread_brelse [OF assms(1,2,6)])
  let ?t = "upd_inode ip (copy_in (dinode_at s ?i)) (brelse bp s1)"
  let ?u = "upd_inode ip (\<lambda>f. f\<lparr>i_valid := 1\<rparr>) ?t"
  have ic: "icache (brelse bp s1) = icache s" using r(5) by simp
  have "\<not> sint (i_ref (icache s ip)) < 1" using assms(4) by simp
  then have l: "ilock (Some ip) s =
      (if d_type (dinode_at s ?i) = 0 then Inl (Panic ''ilock: no type'') else Inr ?u)"
    using assms(3,5) r(1,2) ic
    by (simp add: ilock_def dinode_at_def brelse_upd_inode copy_in_def Let_def)
  note st = cache_step_fs_step [OF r(5)]
  note st = fs_step_trans [OF st upd_inode_fs_step [OF fs_step_facts(1) [OF st], of ip "copy_in (dinode_at s ?i)"]]
  have "fs_step H s ?u"
    by (rule fs_step_trans [OF st upd_inode_fs_step [OF fs_step_facts(1) [OF st]]])
  moreover have "icache ?u = (icache s)(ip := (copy_in (dinode_at s ?i) (icache s ip))\<lparr>i_valid := 1\<rparr>)"
    by (simp add: upd_inode_def ic fun_eq_iff)
  ultimately show ?thesis using l r(6) by simp
qed

lemma iupdate_ok:
  assumes "bcache_ok s H" "size H < NBUF" "i_dev (icache s ip) = ROOTDEV"
    and "unat (inode_block (sb s) (i_inum (icache s ip))) < disk_blocks s"
  obtains s' where "iupdate ip s = Inr s'" "cache_step H s s'"
    "disk s' = (disk s)(inode_block (sb s) (i_inum (icache s ip)) :=
       put_dinode (copy_out (icache s ip)) (disk s (inode_block (sb s) (i_inum (icache s ip))))
         (inode_off (i_inum (icache s ip))))"
proof -
  let ?k = "inode_block (sb s) (i_inum (icache s ip))"
  let ?f = "\<lambda>d. put_dinode (copy_out (icache s ip)) d (inode_off (i_inum (icache s ip)))"
  obtain bp s1 s2 where r: "bread ROOTDEV ?k s = Inr (bp, s1)" "b_data (bufs s1 bp) = disk s ?k" "only_cache s s1"
    "bwrite bp (set_data bp (?f (disk s ?k)) s1) = Inr s2" "cache_step H s (brelse bp s2)"
    "disk (brelse bp s2) = (disk s)(?k := ?f (disk s ?k))"
    by (rule bread_bwrite_brelse [OF assms(1,2,4), of ?f])
  show thesis
    by (rule that [OF _ r(5,6)]) (use r assms(3) in \<open>simp add: iupdate_def Let_def\<close>)
qed

text \<open>Two different inodes never share bytes.\<close>

lemma inode_apart:
  assumes "i \<noteq> j" "inode_block b i = inode_block b j"
  shows "inode_off j + 64 \<le> inode_off i \<or> inode_off i + 64 \<le> inode_off j"
proof -
  have "i div 16 = j div 16" using assms(2) by (simp add: inode_block_def)
  then have "unat i div 16 = unat j div 16" using unat_div32 [of i 16] unat_div32 [of j 16] by simp
  then have "unat i mod 16 \<noteq> unat j mod 16" using assms(1) by (metis div_mult_mod_eq unat_eqD)
  then have "i mod 16 \<noteq> j mod 16" using unat_mod32 [of i 16] unat_mod32 [of j 16] by auto
  then show ?thesis using inode_off_apart by blast
qed

section \<open>Allocating an inode\<close>

definition fresh_dinode :: "u16 \<Rightarrow> dinode" where
  "fresh_dinode ty = \<lparr>d_type = ty, d_major = 0, d_minor = 0, d_nlink = 0, d_size = 0, d_addrs = \<lambda>_. 0\<rparr>"

definition claim_inode :: "u16 \<Rightarrow> nat \<Rightarrow> block \<Rightarrow> block" where
  "claim_inode ty off d = put_le 2 (fill_bytes d off 0 64) off ty"

lemma get_le_fill: "off \<le> o' \<Longrightarrow> o' + n \<le> off + 64 \<Longrightarrow> get_le n (fill_bytes d off 0 64) o' = 0"
  unfolding get_le_def by (subst of_le_cong [where g = "\<lambda>_. 0"]) (auto simp: fill_bytes_def)

lemma dinode_of_claim: "dinode_of (claim_inode ty off d) off = fresh_dinode ty"
  by (intro dinode.equality)
    (auto simp: dinode_of_def claim_inode_def fresh_dinode_def get_put_le_same get_put_le_other get_le_fill
      NDIRECT_def fun_eq_iff)

lemma claim_inode_outside: "i < off \<or> off + 64 \<le> i \<Longrightarrow> claim_inode ty off d i = d i"
  by (auto simp: claim_inode_def fill_bytes_def put_le_outside)

text \<open>Changing the 64 bytes of one inode changes no other inode.\<close>

lemma dinode_at_other:
  assumes sb: "sb s' = sb s" and d: "disk s' = (disk s)(inode_block (sb s) i := e)"
    and e: "\<And>x. x < inode_off i \<or> inode_off i + 64 \<le> x \<Longrightarrow> e x = disk s (inode_block (sb s) i) x"
    and ne: "j \<noteq> i"
  shows "dinode_at s' j = dinode_at s j"
proof (cases "inode_block (sb s) j = inode_block (sb s) i")
  case True
  have "dinode_of e (inode_off j) = dinode_of (disk s (inode_block (sb s) j)) (inode_off j)"
    using inode_apart [OF ne True] e True by (intro dinode_of_cong) auto
  then show ?thesis using True by (simp add: dinode_at_def sb d)
next
  case False
  then show ?thesis by (simp add: dinode_at_def sb d)
qed

definition inodes_on_disk :: "'a fs_scheme \<Rightarrow> bool" where
  "inodes_on_disk s \<longleftrightarrow> unat (sb_ninodes (sb s)) < 2 ^ 31 \<and>
     (\<forall>inum. inum < sb_ninodes (sb s) \<longrightarrow> unat (inode_block (sb s) inum) < disk_blocks s)"

lemma ialloc_from_spec:
  assumes "bcache_ok s H" "size H < NBUF" "inodes_on_disk s"
  shows "(\<exists>n t. inum \<le> n \<and> n < sb_ninodes (sb s) \<and> d_type (dinode_at s n) = 0 \<and>
      (\<forall>m. inum \<le> m \<longrightarrow> m < n \<longrightarrow> d_type (dinode_at s m) \<noteq> 0) \<and>
      ialloc_from ROOTDEV ty inum s = iget ROOTDEV n t \<and> cache_step H s t \<and>
      disk t = (disk s)(inode_block (sb s) n := claim_inode ty (inode_off n) (disk s (inode_block (sb s) n)))) \<or>
    (\<forall>m. inum \<le> m \<longrightarrow> m < sb_ninodes (sb s) \<longrightarrow> d_type (dinode_at s m) \<noteq> 0) \<and>
      ialloc_from ROOTDEV ty inum s = Inl (Panic ''ialloc: no inodes'')"
  using assms
proof (induction "ROOTDEV" ty inum s rule: ialloc_from.induct)
  case (1 ty inum s)
  note ok = "1.prems"
  let ?k = "inode_block (sb s) inum" and ?o = "inode_off inum"
  show ?case
  proof (cases "inum < sb_ninodes (sb s)")
    case False
    then have "ialloc_from ROOTDEV ty inum s = Inl (Panic ''ialloc: no inodes'')"
      unfolding ialloc_from.simps [of ROOTDEV ty inum s] by (rule if_not_P)
    moreover have "d_type (dinode_at s m) \<noteq> 0" if "inum \<le> m" "m < sb_ninodes (sb s)" for m
      using False order.strict_trans1 [OF that] by contradiction
    ultimately show ?thesis by (intro disjI2 conjI allI impI)
  next
    case True
    have k: "unat ?k < disk_blocks s" using ok(3) True by (simp add: inodes_on_disk_def)
    show ?thesis
    proof (cases "d_type (dinode_at s inum) = 0")
      case free: True
      obtain bp s1 s2 where r: "bread ROOTDEV ?k s = Inr (bp, s1)" "b_data (bufs s1 bp) = disk s ?k" "only_cache s s1"
        "bwrite bp (set_data bp (claim_inode ty ?o (disk s ?k)) s1) = Inr s2" "cache_step H s (brelse bp s2)"
        "disk (brelse bp s2) = (disk s)(?k := claim_inode ty ?o (disk s ?k))"
        by (rule bread_bwrite_brelse [OF ok(1,2) k, of "claim_inode ty ?o"])
      have "ialloc_from ROOTDEV ty inum s = iget ROOTDEV inum (brelse bp s2)"
        using True free r by (simp add: ialloc_from.simps [of ROOTDEV ty inum s] dinode_at_def claim_inode_def Let_def)
      moreover have "d_type (dinode_at s m) \<noteq> 0" if "inum \<le> m" "m < inum" for m
        using that by (meson leD)
      ultimately show ?thesis
        by (intro disjI1 exI [of _ inum] exI [of _ "brelse bp s2"] conjI allI impI order_refl True free r(5,6))
    next
      case used: False
      obtain bp s1 where r: "bread ROOTDEV ?k s = Inr (bp, s1)" "b_data (bufs s1 bp) = disk s ?k" "only_cache s s1"
        "disk s1 = disk s" "cache_step H s (brelse bp s1)" "disk (brelse bp s1) = disk s"
        by (rule bread_brelse [OF ok(1,2) k])
      let ?t = "brelse bp s1"
      have t: "sb ?t = sb s" "disk_blocks ?t = disk_blocks s" using r(5) by simp_all
      have small: "inum \<noteq> 0x7FFFFFFF"
        using True ok(3) unfolding inodes_on_disk_def word_less_nat_alt by auto
      have unf: "ialloc_from ROOTDEV ty inum s = ialloc_from ROOTDEV ty (inum + 1) ?t"
        using True used small r by (simp add: ialloc_from.simps [of ROOTDEV ty inum s] dinode_at_def Let_def)
      have at: "dinode_at ?t = dinode_at s" by (simp add: dinode_at_def t r(6) fun_eq_iff)
      have nx: "inum \<le> m \<longleftrightarrow> m = inum \<or> inum + 1 \<le> m" for m
        unfolding word_le_nat_alt unat_next32 [OF True] by (auto simp: word_unat_eq_iff)
      have u0: "d_type (dinode_of (disk s ?k) ?o) \<noteq> 0" using used by (simp add: dinode_at_def)
      have "inodes_on_disk ?t" using ok(3) by (simp add: inodes_on_disk_def t)
      from "1.hyps" [OF True r(1) refl refl refl _ small cache_step_ok [OF r(5)] ok(2) this] u0
      have IH: "(\<exists>n u. inum + 1 \<le> n \<and> n < sb_ninodes (sb s) \<and> d_type (dinode_at s n) = 0 \<and>
          (\<forall>m. inum + 1 \<le> m \<longrightarrow> m < n \<longrightarrow> d_type (dinode_at s m) \<noteq> 0) \<and>
          ialloc_from ROOTDEV ty (inum + 1) ?t = iget ROOTDEV n u \<and> cache_step H ?t u \<and>
          disk u = (disk s)(inode_block (sb s) n := claim_inode ty (inode_off n) (disk s (inode_block (sb s) n)))) \<or>
        (\<forall>m. inum + 1 \<le> m \<longrightarrow> m < sb_ninodes (sb s) \<longrightarrow> d_type (dinode_at s m) \<noteq> 0) \<and>
          ialloc_from ROOTDEV ty (inum + 1) ?t = Inl (Panic ''ialloc: no inodes'')"
        by (simp add: t at r(2,6))
      then show ?thesis
      proof (elim disjE exE conjE)
        fix n u assume "inum + 1 \<le> n" "n < sb_ninodes (sb s)" "d_type (dinode_at s n) = 0"
          "\<forall>m. inum + 1 \<le> m \<longrightarrow> m < n \<longrightarrow> d_type (dinode_at s m) \<noteq> 0"
          "ialloc_from ROOTDEV ty (inum + 1) ?t = iget ROOTDEV n u" "cache_step H ?t u"
          "disk u = (disk s)(inode_block (sb s) n := claim_inode ty (inode_off n) (disk s (inode_block (sb s) n)))"
        note n = this
        have "d_type (dinode_at s m) \<noteq> 0" if "inum \<le> m" "m < n" for m
          using that nx [of m] used n(4) by (cases "m = inum") simp_all
        moreover have "inum \<le> n" using nx [of n] n(1) by blast
        ultimately show ?thesis
          unfolding unf
          by (intro disjI1 exI [of _ n] exI [of _ u] conjI allI impI n(2,3,5,7) cache_step_trans [OF r(5) n(6)])
      next
        assume "\<forall>m. inum + 1 \<le> m \<longrightarrow> m < sb_ninodes (sb s) \<longrightarrow> d_type (dinode_at s m) \<noteq> 0"
          "ialloc_from ROOTDEV ty (inum + 1) ?t = Inl (Panic ''ialloc: no inodes'')"
        note n = this
        have "d_type (dinode_at s m) \<noteq> 0" if "inum \<le> m" "m < sb_ninodes (sb s)" for m
          using that nx [of m] used n(1) by (cases "m = inum") simp_all
        then show ?thesis unfolding unf by (intro disjI2 conjI allI impI n(2))
      qed
    qed
  qed
qed

section \<open>Properties\<close>

text \<open>
  \<open>iget\<close> returns the one slot that stands for the inode, with one more reference: the slot that
  held it already, whose loaded content stays, or else a slot nobody used, marked as not loaded.
  It never makes a second slot for an inode, and touches no other slot.
\<close>

theorem iget_one_slot:
  assumes "icache_ok (icache s)" and "\<forall>j < NINODE. sint (i_ref (icache s j)) < 2 ^ 31 - 1"
    and "\<exists>j < NINODE. refers (icache s j) dev inum \<or> i_ref (icache s j) = 0"
  shows "\<exists>ip s'. iget dev inum s = Inr (ip, s') \<and> ip < NINODE \<and> refers (icache s' ip) dev inum \<and>
    icache_ok (icache s') \<and> sint (i_ref (icache s' ip)) = sint (i_ref (icache s ip)) + 1 \<and>
    (\<forall>j. j \<noteq> ip \<longrightarrow> icache s' j = icache s j) \<and>
    (if refers (icache s ip) dev inum then i_valid (icache s' ip) = i_valid (icache s ip)
     else i_ref (icache s ip) = 0 \<and> i_valid (icache s' ip) = 0)"
proof -
  have "\<exists>ip s'. iget dev inum s = Inr (ip, s') \<and>
      (if refers (icache s ip) dev inum then i_valid (icache s' ip) = i_valid (icache s ip)
       else i_ref (icache s ip) = 0 \<and> i_valid (icache s' ip) = 0)"
  proof (cases rule: iget_cases [of s dev inum])
    case (hit ip)
    then show ?thesis by simp
  next
    case (miss ip)
    then show ?thesis by simp
  next
    case full
    then show ?thesis using assms(3) by blast
  qed
  then obtain ip s' where g: "iget dev inum s = Inr (ip, s')"
    and v: "if refers (icache s ip) dev inum then i_valid (icache s' ip) = i_valid (icache s ip)
       else i_ref (icache s ip) = 0 \<and> i_valid (icache s' ip) = 0" by blast
  have small: "\<And>j. j < NINODE \<Longrightarrow> sint (i_ref (icache s j)) < 2 ^ 31 - 1" using assms(2) by blast
  note o = iget_ok [OF assms(1) small g]
  show ?thesis
    by (intro exI [of _ ip] exI [of _ s'] conjI allI impI) (use g v o in simp_all)
qed

lemma demo_icache: "icache demo_fs i = \<lparr>i_dev = 0, i_inum = 0, i_ref = 0, i_valid = 0, i_type = 0, i_major = 0,
    i_minor = 0, i_nlink = 0, i_size = 0, i_addrs = \<lambda>_. 0\<rparr>"
  by (simp add: demo_fs_def)

lemma demo_icache_ok: "icache_ok (icache demo_fs)"
  by (simp add: icache_ok_def refers_def demo_icache)

theorem iget_one_slot_witness:
  "\<exists>ip s'. iget ROOTDEV ROOTINO demo_fs = Inr (ip, s') \<and> refers (icache s' ip) ROOTDEV ROOTINO"
proof -
  have 1: "\<forall>j < NINODE. sint (i_ref (icache demo_fs j)) < 2 ^ 31 - 1" by (simp add: demo_icache)
  have 2: "\<exists>j < NINODE. refers (icache demo_fs j) ROOTDEV ROOTINO \<or> i_ref (icache demo_fs j) = 0"
    by (intro exI [of _ 0]) (simp add: demo_icache)
  from iget_one_slot [OF demo_icache_ok 1 2] show ?thesis by blast
qed

text \<open>
  \<open>iput\<close> undoes \<open>iget\<close>: after the pair every slot has the reference count it had before, and a
  slot whose count returns to 0 no longer passes for loaded.
\<close>

theorem iget_iput_balance:
  assumes "icache_ok (icache s)" and "\<forall>j < NINODE. sint (i_ref (icache s j)) < 2 ^ 31 - 1"
    and "iget dev inum s = Inr (ip, s')"
  shows "icache_ok (icache (iput ip s')) \<and> (\<forall>j. i_ref (icache (iput ip s') j) = i_ref (icache s j)) \<and>
    (i_ref (icache s ip) = 0 \<longrightarrow> i_valid (icache (iput ip s') ip) = 0)"
proof -
  have small: "\<And>j. j < NINODE \<Longrightarrow> sint (i_ref (icache s j)) < 2 ^ 31 - 1" using assms(2) by blast
  note g = iget_ok [OF assms(1) small assms(3)]
  have pos: "0 < sint (i_ref (icache s' ip))" using g(3) by (simp add: refers_def)
  note p = iput_ok [OF g(1,2) pos]
  have "sint (i_ref (icache s' ip) - 1) = sint (i_ref (icache s ip))" using sint_sub_1 [OF pos] g(6) by simp
  then have restored: "i_ref (icache s' ip) - 1 = i_ref (icache s ip)" by (simp add: signed_word_eqI)
  have "i_ref (icache (iput ip s') j) = i_ref (icache s j)" for j
    using p(2,5) g(4) restored by (cases "j = ip") simp_all
  moreover have "i_valid (icache (iput ip s') ip) = 0" if "i_ref (icache s ip) = 0"
    using p(3) restored that by simp
  ultimately show ?thesis using p(1) by simp
qed

theorem iget_iput_balance_witness:
  "\<exists>ip s'. iget ROOTDEV ROOTINO demo_fs = Inr (ip, s') \<and> (\<forall>j. i_ref (icache (iput ip s') j) = 0)"
proof -
  have small: "\<forall>j < NINODE. sint (i_ref (icache demo_fs j)) < 2 ^ 31 - 1"
    by (simp add: demo_icache)
  obtain ip s' where g: "iget ROOTDEV ROOTINO demo_fs = Inr (ip, s')"
    by (rule iget_cases [of demo_fs ROOTDEV ROOTINO]) (auto simp: demo_icache dest: spec [of _ 0])
  from iget_iput_balance [OF demo_icache_ok small g] g show ?thesis by (auto simp: demo_icache)
qed

text \<open>
  \<open>ilock\<close> of a slot that is not loaded reads exactly the fields of its inode from the disk and
  marks the slot loaded, leaving the disk and all other slots alone; a free inode on disk makes
  it panic.
\<close>

theorem ilock_loads:
  assumes "bcache_ok s H" and "size H < NBUF" and "refers (icache s ip) ROOTDEV inum"
    and "i_valid (icache s ip) = 0" and "unat (inode_block (sb s) inum) < disk_blocks s"
  shows "if d_type (dinode_at s inum) = 0 then ilock (Some ip) s = Inl (Panic ''ilock: no type'')
    else \<exists>s'. ilock (Some ip) s = Inr s' \<and> bcache_ok s' H \<and> disk s' = disk s \<and>
      copy_out (icache s' ip) = dinode_at s inum \<and> i_valid (icache s' ip) = 1 \<and>
      i_ref (icache s' ip) = i_ref (icache s ip) \<and> refers (icache s' ip) ROOTDEV inum \<and>
      (\<forall>j. j \<noteq> ip \<longrightarrow> icache s' j = icache s j)"
proof -
  have i: "i_dev (icache s ip) = ROOTDEV" "0 < sint (i_ref (icache s ip))" "i_inum (icache s ip) = inum"
    using assms(3) by (simp_all add: refers_def)
  have co: "copy_out ((copy_in di f)\<lparr>i_valid := 1\<rparr>) = di" for di f
    by (simp add: copy_out_def copy_in_def)
  note l = ilock_ok [OF assms(1,2) i(1,2) assms(4), unfolded i(3), OF assms(5)]
  show ?thesis
  proof (cases "d_type (dinode_at s inum) = 0")
    case False
    then obtain s' where s': "ilock (Some ip) s = Inr s'" "fs_step H s s'" "disk s' = disk s"
      "icache s' = (icache s)(ip := (copy_in (dinode_at s inum) (icache s ip))\<lparr>i_valid := 1\<rparr>)"
      using l by auto
    have "refers (icache s' ip) ROOTDEV inum" using assms(3) s'(4) by (simp add: refers_def copy_in_def)
    then show ?thesis
      using False s' co fs_step_facts(1) [OF s'(2)] by (simp add: copy_in_def)
  qed (use l in simp)
qed

text \<open>The demonstration disk with the root directory referenced and not loaded.\<close>

definition demo_root :: fs where
  "demo_root = upd_inode 0 (\<lambda>f. f\<lparr>i_dev := ROOTDEV, i_inum := 1, i_ref := 1\<rparr>) demo_fs"

lemma demo_root_facts:
  "bcache_ok demo_root {#}" "refers (icache demo_root 0) ROOTDEV 1" "i_valid (icache demo_root 0) = 0"
  "inode_block (sb demo_root) 1 = 3" "disk_blocks demo_root = 1000" "d_type (dinode_at demo_root 1) = T_DIR"
proof -
  show "bcache_ok demo_root {#}"
    unfolding demo_root_def by (rule fs_step_facts(1) [OF upd_inode_fs_step [OF demo_fs_cache]])
  show "refers (icache demo_root 0) ROOTDEV 1" "i_valid (icache demo_root 0) = 0"
    by (simp_all add: demo_root_def refers_def demo_icache)
  show b: "inode_block (sb demo_root) 1 = 3" "disk_blocks demo_root = 1000"
    by (simp_all add: demo_root_def demo_fs_sel inode_block_def)
  have "get_le 2 (demo_disk 3) 64 = T_DIR"
    by (simp add: demo_disk_def get_put_le_same get_put_le_other)
  then show "d_type (dinode_at demo_root 1) = T_DIR"
    unfolding dinode_at_def b by (simp add: dinode_of_def inode_off_def demo_root_def demo_fs_sel)
qed

theorem ilock_loads_witness:
  "\<exists>s'. ilock (Some 0) demo_root = Inr s' \<and> i_type (icache s' 0) = T_DIR \<and> i_valid (icache s' 0) = 1"
proof -
  have "unat (inode_block (sb demo_root) 1) < disk_blocks demo_root" "size ({#} :: u32 multiset) < NBUF"
    by (simp_all add: demo_root_facts)
  from ilock_loads [OF demo_root_facts(1) this(2) demo_root_facts(2,3) this(1)] demo_root_facts(6)
  show ?thesis by (auto simp: T_DIR_def copy_out_def dest!: arg_cong [of _ _ d_type])
qed

text \<open>
  C29: What \<open>iupdate\<close> writes is what a later \<open>ilock\<close> reads: the inode on disk becomes the one in
  memory, every other inode and every other block keeps its content, and loading the inode
  again into any slot gives the same fields.
\<close>

theorem iupdate_ilock_roundtrip:
  assumes "bcache_ok s H" and "size H < NBUF" and "refers (icache s ip) ROOTDEV inum"
    and "unat (inode_block (sb s) inum) < disk_blocks s" and "addrs_ok (i_addrs (icache s ip))"
    and "i_type (icache s ip) \<noteq> 0" and "refers g ROOTDEV inum" and "i_valid g = 0"
  shows "\<exists>s' s''. iupdate ip s = Inr s' \<and> bcache_ok s' H \<and> icache s' = icache s \<and>
    dinode_at s' inum = copy_out (icache s ip) \<and>
    (\<forall>j. j \<noteq> inum \<longrightarrow> dinode_at s' j = dinode_at s j) \<and>
    (\<forall>k. k \<noteq> inode_block (sb s) inum \<longrightarrow> disk s' k = disk s k) \<and>
    ilock (Some jp) (upd_inode jp (\<lambda>_. g) s') = Inr s'' \<and> copy_out (icache s'' jp) = copy_out (icache s ip)"
proof -
  have i: "i_dev (icache s ip) = ROOTDEV" "i_inum (icache s ip) = inum"
    using assms(3) by (simp_all add: refers_def)
  let ?k = "inode_block (sb s) inum"
  obtain s' where w: "iupdate ip s = Inr s'" "cache_step H s s'"
    "disk s' = (disk s)(?k := put_dinode (copy_out (icache s ip)) (disk s ?k) (inode_off inum))"
    using iupdate_ok [OF assms(1,2) i(1), unfolded i(2), OF assms(4)] by blast
  have at: "dinode_at s' inum = copy_out (icache s ip)"
    using assms(5) w(2,3) by (simp add: dinode_at_def dinode_of_put_dinode copy_out_def)
  have other: "dinode_at s' j = dinode_at s j" if "j \<noteq> inum" for j
    by (rule dinode_at_other [OF _ w(3) _ that]) (use w(2) in \<open>auto intro: put_dinode_outside\<close>)
  let ?t = "upd_inode jp (\<lambda>_. g) s'"
  have ok: "bcache_ok ?t H" by (rule fs_step_facts(1) [OF upd_inode_fs_step [OF cache_step_ok [OF w(2)]]])
  have t: "refers (icache ?t jp) ROOTDEV inum" "i_valid (icache ?t jp) = 0"
    "unat (inode_block (sb ?t) inum) < disk_blocks ?t" "dinode_at ?t inum = copy_out (icache s ip)"
    using assms(4,7,8) w(2) at by (simp_all add: dinode_at_def)
  have "d_type (copy_out (icache s ip)) \<noteq> 0" using assms(6) by (simp add: copy_out_def)
  then obtain s'' where "ilock (Some jp) ?t = Inr s''" "copy_out (icache s'' jp) = copy_out (icache s ip)"
    using ilock_loads [OF ok assms(2) t(1-3)] unfolding t(4) by auto
  then show ?thesis
    using w at other cache_step_ok [OF w(2)] by (intro exI [of _ s'] exI [of _ s'']) simp
qed

definition demo_loaded :: fs where
  "demo_loaded = upd_inode 0 (\<lambda>f. f\<lparr>i_dev := ROOTDEV, i_inum := 2, i_ref := 1, i_valid := 1, i_type := T_FILE,
     i_nlink := 1, i_size := 5\<rparr>) demo_fs"

theorem iupdate_ilock_roundtrip_witness:
  "\<exists>s' s''. iupdate 0 demo_loaded = Inr s' \<and> d_size (dinode_at s' 2) = 5 \<and>
    ilock (Some 1) (upd_inode 1 (\<lambda>_. (icache demo_loaded 0)\<lparr>i_valid := 0\<rparr>) s') = Inr s'' \<and>
    i_size (icache s'' 1) = 5"
proof -
  have 1: "bcache_ok demo_loaded {#}"
    unfolding demo_loaded_def by (rule fs_step_facts(1) [OF upd_inode_fs_step [OF demo_fs_cache]])
  have 2: "size ({#} :: u32 multiset) < NBUF" by simp
  have 3: "refers (icache demo_loaded 0) ROOTDEV 2" by (simp add: demo_loaded_def refers_def)
  have 4: "unat (inode_block (sb demo_loaded) 2) < disk_blocks demo_loaded"
    by (simp add: demo_loaded_def demo_fs_sel inode_block_def)
  have 5: "addrs_ok (i_addrs (icache demo_loaded 0))" by (simp add: demo_loaded_def addrs_ok_def demo_icache)
  have 6: "i_type (icache demo_loaded 0) \<noteq> 0" by (simp add: demo_loaded_def T_FILE_def)
  have 7: "refers ((icache demo_loaded 0)\<lparr>i_valid := 0\<rparr>) ROOTDEV 2" "i_valid ((icache demo_loaded 0)\<lparr>i_valid := 0\<rparr>) = 0"
    by (simp_all add: demo_loaded_def refers_def)
  have "d_size (copy_out (icache demo_loaded 0)) = 5" by (simp add: demo_loaded_def copy_out_def)
  moreover have "i_size f = d_size (copy_out f)" for f by (simp add: copy_out_def)
  ultimately show ?thesis
    using iupdate_ilock_roundtrip [OF 1 2 3 4 5 6 7, of 1] by (metis (no_types, lifting))
qed

text \<open>
  C30: \<open>ialloc\<close> takes the first free inode after inode 0, writes it as an empty inode of the given
  type, leaves every other inode as it was, and returns the slot \<open>iget\<close> gives for it.
\<close>

theorem ialloc_takes_first_free:
  assumes "bcache_ok s H" and "size H < NBUF" and "inodes_on_disk s"
    and "1 \<le> n" and "n < sb_ninodes (sb s)" and "d_type (dinode_at s n) = 0"
    and "\<forall>m. 1 \<le> m \<longrightarrow> m < n \<longrightarrow> d_type (dinode_at s m) \<noteq> 0"
  shows "\<exists>t. ialloc ROOTDEV ty s = iget ROOTDEV n t \<and> bcache_ok t H \<and> icache t = icache s \<and> sb t = sb s \<and>
    dinode_at t n = fresh_dinode ty \<and> (\<forall>j. j \<noteq> n \<longrightarrow> dinode_at t j = dinode_at s j) \<and>
    (\<forall>k. k \<noteq> inode_block (sb s) n \<longrightarrow> disk t k = disk s k)"
proof -
  from ialloc_from_spec [OF assms(1-3), of 1 ty]
  obtain q t where q: "1 \<le> q" "d_type (dinode_at s q) = 0" "\<forall>m. 1 \<le> m \<longrightarrow> m < q \<longrightarrow> d_type (dinode_at s m) \<noteq> 0"
    and t: "ialloc ROOTDEV ty s = iget ROOTDEV q t" "cache_step H s t"
      "disk t = (disk s)(inode_block (sb s) q := claim_inode ty (inode_off q) (disk s (inode_block (sb s) q)))"
    unfolding ialloc_def using assms(4-6) by blast
  have "q = n" using q assms(4,6,7) by (meson linorder_neqE)
  note t = t [unfolded this]
  have at: "dinode_at t n = fresh_dinode ty"
    using t(2,3) by (simp add: dinode_at_def dinode_of_claim)
  have other: "dinode_at t j = dinode_at s j" if "j \<noteq> n" for j
    by (rule dinode_at_other [OF _ t(3) _ that]) (use t(2) in \<open>auto intro: claim_inode_outside\<close>)
  show ?thesis
    by (intro exI [of _ t] conjI allI impI) (use t at other cache_step_ok [OF t(2)] in simp_all)
qed

lemma demo_inodes: "inodes_on_disk demo_fs"
proof -
  have "unat (3 + n div 16 :: u32) < 1000" if "n < 16" for n
  proof -
    have "unat (n div 16) = 0" using that by (simp add: unat_div32 word_less_nat_alt)
    then show ?thesis by (simp add: unat_add32)
  qed
  then show ?thesis by (simp add: inodes_on_disk_def demo_fs_sel inode_block_def)
qed

theorem ialloc_takes_first_free_witness:
  "\<exists>t. ialloc ROOTDEV T_FILE demo_fs = iget ROOTDEV 3 t \<and> d_type (dinode_at t 3) = T_FILE \<and> d_nlink (dinode_at t 3) = 0"
proof -
  have b: "inode_block demo_sb n = 3" if "unat n < 16" for n
  proof -
    have "n div 16 = 0" using that by (intro unat_eqD) (simp add: unat_div32)
    then show ?thesis by (simp add: inode_block_def demo_fs_sel)
  qed
  have d: "d_type (dinode_at demo_fs 1) = T_DIR" "d_type (dinode_at demo_fs 2) = T_FILE" "d_type (dinode_at demo_fs 3) = 0"
    by (simp_all add: dinode_at_def demo_fs_sel b dinode_of_def inode_off_def demo_disk_def get_put_le_same get_put_le_other)
  have "d_type (dinode_at demo_fs m) \<noteq> 0" if "1 \<le> m" "m < 3" for m
  proof -
    have "unat m = 1 \<or> unat m = 2" using that unfolding word_le_nat_alt word_less_nat_alt by auto
    then have "m = 1 \<or> m = 2" by (auto simp: word_unat_eq_iff)
    then show ?thesis using d by (auto simp: T_DIR_def T_FILE_def)
  qed
  then have m: "\<forall>m. 1 \<le> m \<longrightarrow> m < 3 \<longrightarrow> d_type (dinode_at demo_fs m) \<noteq> 0" by blast
  have "size ({#} :: u32 multiset) < NBUF" "(1 :: u32) \<le> 3" "3 < sb_ninodes (sb demo_fs)" by (simp_all add: demo_fs_sel)
  from ialloc_takes_first_free [OF demo_fs_cache this(1) demo_inodes this(2,3) d(3) m, of T_FILE]
  show ?thesis by (auto simp: fresh_dinode_def)
qed

end
