(* ===== verification/File_Data.thy ===== *)
theory File_Data
  imports Inode
begin

text \<open>
  The data of a file, \<open>kernel/fs/fs.c\<close>: \<open>bmap\<close> maps a block of the file to a block of the disk and
  allocates it on demand, \<open>readi\<close> and \<open>writei\<close> copy bytes block by block.  The caller's buffer at
  \<open>dst\<close> or \<open>src\<close> is an array of bytes indexed from the address passed in; \<open>readi\<close> returns it
  updated.  The flag that says whether the address is a user address is ignored by the code
  (everything is identity mapped) and left out.
\<close>

section \<open>Operations\<close>

definition set_addr :: "nat \<Rightarrow> nat \<Rightarrow> u32 \<Rightarrow> 'a fs_scheme \<Rightarrow> 'a fs_scheme" where
  "set_addr ip k a s = upd_inode ip (\<lambda>f. f\<lparr>i_addrs := (i_addrs f)(k := a)\<rparr>) s"

text \<open>\<open>ip->addrs[k]\<close>, allocated when it is 0.\<close>

definition addr_or_alloc :: "nat \<Rightarrow> nat \<Rightarrow> 'a fs_scheme \<Rightarrow> (u32 \<times> 'a fs_scheme) res" where
  "addr_or_alloc ip k s =
     (let addr = i_addrs (icache s ip) k in
      if addr = 0 then bindE (balloc (i_dev (icache s ip)) s) (\<lambda>(a, s1). Inr (a, set_addr ip k a s1))
      else Inr (addr, s))"

definition bmap :: "nat \<Rightarrow> u32 \<Rightarrow> 'a fs_scheme \<Rightarrow> (u32 \<times> 'a fs_scheme) res" where
  "bmap ip bn s =
     (if bn < 12 then addr_or_alloc ip (unat bn) s
      else let bn = bn - 12 in
      if bn < 256 then
        bindE (addr_or_alloc ip NDIRECT s) (\<lambda>(ind, s1).
        bindE (bread (i_dev (icache s1 ip)) ind s1) (\<lambda>(bp, s2).
          let addr = get_le 4 (b_data (bufs s2 bp)) (4 * unat bn) in
          if addr = 0 then
            bindE (balloc (i_dev (icache s2 ip)) s2) (\<lambda>(a, s3).
            bindE (bwrite bp (set_data bp (put_le 4 (b_data (bufs s3 bp)) (4 * unat bn) a) s3)) (\<lambda>s4.
            Inr (a, brelse bp s4)))
          else Inr (addr, brelse bp s2)))
      else Inl (Panic ''bmap: out of range''))"

text \<open>How many bytes one round copies.\<close>

definition chunk :: "u32 \<Rightarrow> u32 \<Rightarrow> u32 \<Rightarrow> u32" where
  "chunk off n tot = (let m = 1024 - off mod 1024 in if n - tot < m then n - tot else m)"

lemma chunk_bounds:
  assumes "tot < n"
  shows "0 < unat (chunk off n tot)" "unat (chunk off n tot) \<le> unat n - unat tot"
    "unat (chunk off n tot) = min (1024 - unat off mod 1024) (unat n - unat tot)"
    "unat (tot + chunk off n tot) = unat tot + unat (chunk off n tot)"
proof -
  have r: "unat (off mod 1024) = unat off mod 1024" by (simp add: unat_mod32)
  then have m: "unat (1024 - off mod 1024) = 1024 - unat off mod 1024" by (simp add: unat_sub32)
  have d: "unat (n - tot) = unat n - unat tot" using assms by (simp add: unat_sub32 word_less_nat_alt)
  show c: "unat (chunk off n tot) = min (1024 - unat off mod 1024) (unat n - unat tot)"
    by (simp add: chunk_def Let_def word_less_nat_alt m d)
  have "unat off mod 1024 < 1024" by simp
  then show "0 < unat (chunk off n tot)" using assms unfolding c by (simp add: word_less_nat_alt)
  show "unat (chunk off n tot) \<le> unat n - unat tot" unfolding c by simp
  then show "unat (tot + chunk off n tot) = unat tot + unat (chunk off n tot)"
    using assms unat_lt32 [of n] by (simp add: unat_add32 word_less_nat_alt)
qed

lemma chunk_decreases: "tot < n \<Longrightarrow> unat n - unat (tot + chunk off n tot) < unat n - unat tot"
  using chunk_bounds(1,4) [of tot n off] by (simp add: word_less_nat_alt)

function readi_loop :: "nat \<Rightarrow> block \<Rightarrow> u32 \<Rightarrow> u32 \<Rightarrow> u32 \<Rightarrow> 'a fs_scheme \<Rightarrow> (u32 \<times> block \<times> 'a fs_scheme) res" where
  "readi_loop ip dst tot off n s =
     (if tot < n then
        bindE (bmap ip (off div 1024) s) (\<lambda>(blk, s1).
        bindE (bread (i_dev (icache s1 ip)) blk s1) (\<lambda>(bp, s2).
          let m = chunk off n tot in
          readi_loop ip (move_bytes dst (unat tot) (b_data (bufs s2 bp)) (unat (off mod 1024)) (unat m))
            (tot + m) (off + m) n (brelse bp s2)))
      else Inr (tot, dst, s))"
  by pat_completeness auto
termination
proof (relation "measure (\<lambda>(ip, dst, tot, off, n, s). unat n - unat tot)")
  fix ip and dst dst' :: block and tot off n m :: u32 and s s' :: "'a fs_scheme"
  assume "tot < n" "m = chunk off n tot"
  then show "((ip, dst', tot + m, off + m, n, s'), ip, dst, tot, off, n, s)
      \<in> measure (\<lambda>(ip, dst, tot, off, n, s). unat n - unat tot)"
    using chunk_decreases [of tot n off] by simp
qed simp

declare readi_loop.simps [simp del]

definition readi :: "nat \<Rightarrow> block \<Rightarrow> u32 \<Rightarrow> u32 \<Rightarrow> 'a fs_scheme \<Rightarrow> (i32 \<times> block \<times> 'a fs_scheme) res" where
  "readi ip dst off n s =
     (let sz = i_size (icache s ip) in
      if sz < off \<or> off + n < off then Inr (0, dst, s)
      else readi_loop ip dst 0 off (if sz < off + n then sz - off else n) s)"

function writei_loop :: "nat \<Rightarrow> block \<Rightarrow> u32 \<Rightarrow> u32 \<Rightarrow> u32 \<Rightarrow> 'a fs_scheme \<Rightarrow> (u32 \<times> 'a fs_scheme) res" where
  "writei_loop ip src tot off n s =
     (if tot < n then
        bindE (bmap ip (off div 1024) s) (\<lambda>(blk, s1).
        bindE (bread (i_dev (icache s1 ip)) blk s1) (\<lambda>(bp, s2).
          let m = chunk off n tot;
              s3 = set_data bp (move_bytes (b_data (bufs s2 bp)) (unat (off mod 1024)) src (unat tot) (unat m)) s2
          in bindE (bwrite bp s3) (\<lambda>s4. writei_loop ip src (tot + m) (off + m) n (brelse bp s4))))
      else Inr (off, s))"
  by pat_completeness auto
termination
proof (relation "measure (\<lambda>(ip, src, tot, off, n, s). unat n - unat tot)")
  fix ip and src :: block and tot off n m :: u32 and s s' :: "'a fs_scheme"
  assume "tot < n" "m = chunk off n tot"
  then show "((ip, src, tot + m, off + m, n, s'), ip, src, tot, off, n, s)
      \<in> measure (\<lambda>(ip, src, tot, off, n, s). unat n - unat tot)"
    using chunk_decreases [of tot n off] by simp
qed simp

declare writei_loop.simps [simp del]

definition MAXFILE :: u32 where "MAXFILE = 0x43000"

definition writei :: "nat \<Rightarrow> block \<Rightarrow> u32 \<Rightarrow> u32 \<Rightarrow> 'a fs_scheme \<Rightarrow> (i32 \<times> 'a fs_scheme) res" where
  "writei ip src off n s =
     (if i_size (icache s ip) < off \<or> off + n < off then Inr (-1, s)
      else if MAXFILE < off + n then Inr (-1, s)
      else bindE (writei_loop ip src 0 off n s) (\<lambda>(off', s1).
        if 0 < n \<and> i_size (icache s1 ip) < off'
        then bindE (iupdate ip (upd_inode ip (\<lambda>f. f\<lparr>i_size := off'\<rparr>) s1)) (\<lambda>s2. Inr (n, s2))
        else Inr (n, s1)))"

section \<open>The content of a file\<close>

text \<open>The disk block of block \<open>bn\<close> of a file with the entries \<open>a\<close>; 0 when there is none.\<close>

definition fblock :: "(u32 \<Rightarrow> block) \<Rightarrow> (nat \<Rightarrow> u32) \<Rightarrow> nat \<Rightarrow> u32" where
  "fblock D a bn = (if bn < NDIRECT then a bn else if a NDIRECT = 0 then 0
     else get_le 4 (D (a NDIRECT)) (4 * (bn - NDIRECT)))"

definition fbyte :: "(u32 \<Rightarrow> block) \<Rightarrow> (nat \<Rightarrow> u32) \<Rightarrow> nat \<Rightarrow> u8" where
  "fbyte D a i = D (fblock D a (i div 1024)) (i mod 1024)"

text \<open>A file as the sequence of its bytes.\<close>

definition file_bytes :: "'a fs_scheme \<Rightarrow> nat \<Rightarrow> u8 list" where
  "file_bytes s ip = map (fbyte (disk s) (i_addrs (icache s ip))) [0..<unat (i_size (icache s ip))]"

text \<open>Every block below the size is there, and on the disk.\<close>

definition readable_blocks :: "'a fs_scheme \<Rightarrow> nat \<Rightarrow> nat \<Rightarrow> bool" where
  "readable_blocks s ip nb \<longleftrightarrow> nb \<le> 268 \<and>
     (\<forall>bn < nb. fblock (disk s) (i_addrs (icache s ip)) bn \<noteq> 0 \<and>
        unat (fblock (disk s) (i_addrs (icache s ip)) bn) < disk_blocks s) \<and>
     (NDIRECT < nb \<longrightarrow> unat (i_addrs (icache s ip) NDIRECT) < disk_blocks s)"

lemma bmap_lookup:
  assumes ok: "bcache_ok s H" "size H < NBUF" and dev: "i_dev (icache s ip) = ROOTDEV"
    and f: "fblock (disk s) (i_addrs (icache s ip)) (unat bn) = blk" "blk \<noteq> 0" "unat bn < 268"
    and ind: "NDIRECT \<le> unat bn \<Longrightarrow> unat (i_addrs (icache s ip) NDIRECT) < disk_blocks s"
  obtains s' where "bmap ip bn s = Inr (blk, s')" "cache_step H s s'" "disk s' = disk s"
proof (cases "unat bn < 12")
  case True
  then have "bmap ip bn s = Inr (blk, s)"
    using f by (simp add: bmap_def word_less_nat_alt addr_or_alloc_def fblock_def NDIRECT_def Let_def)
  moreover have "cache_step H s s" using ok by (simp add: cache_step_def)
  ultimately show thesis by (rule that) simp
next
  case False
  let ?i = "i_addrs (icache s ip) NDIRECT"
  have i: "?i \<noteq> 0" "get_le 4 (disk s ?i) (4 * (unat bn - 12)) = blk"
    using f False by (auto simp: fblock_def NDIRECT_def split: if_splits)
  have d: "unat (bn - 12) = unat bn - 12" using False by (simp add: unat_sub32)
  obtain bp s1 where r: "bread ROOTDEV ?i s = Inr (bp, s1)" "b_data (bufs s1 bp) = disk s ?i" "only_cache s s1"
    "disk s1 = disk s" "cache_step H s (brelse bp s1)" "disk (brelse bp s1) = disk s"
    by (rule bread_brelse [OF ok ind]) (use False in \<open>simp add: NDIRECT_def\<close>)
  have "\<not> bn < 12" "bn - 12 < 256" using False f(3) d by (simp_all add: word_less_nat_alt)
  moreover have "addr_or_alloc ip NDIRECT s = Inr (?i, s)" using i(1) by (simp add: addr_or_alloc_def)
  moreover have "get_le 4 (b_data (bufs s1 bp)) (4 * unat (bn - 12)) = blk" using i(2) d r(2) by simp
  ultimately have "bmap ip bn s = Inr (blk, brelse bp s1)"
    using f(2) r(1) dev by (simp add: bmap_def)
  then show thesis by (rule that [OF _ r(5,6)])
qed

lemma readi_loop_spec:
  assumes "bcache_ok s H" "size H < NBUF" "i_dev (icache s ip) = ROOTDEV" "readable_blocks s ip nb"
    and "tot \<le> n" "unat off + (unat n - unat tot) \<le> 1024 * nb"
  shows "\<exists>s'. readi_loop ip dst tot off n s = Inr (n,
      (\<lambda>i. if unat tot \<le> i \<and> i < unat n then fbyte (disk s) (i_addrs (icache s ip)) (unat off + (i - unat tot)) else dst i), s') \<and>
    cache_step H s s' \<and> disk s' = disk s"
  using assms
proof (induction ip dst tot off n s rule: readi_loop.induct)
  case (1 ip dst tot off n s)
  note ok = "1.prems"
  let ?D = "disk s" and ?a = "i_addrs (icache s ip)"
  show ?case
  proof (cases "tot < n")
    case False
    then have tn: "tot = n" using ok(5) by simp
    have l: "readi_loop ip dst tot off n s = Inr (tot, dst, s)"
      unfolding readi_loop.simps [of ip dst tot off n s] using False by (simp only: if_False)
    have c: "cache_step H s s" using ok(1) by (simp add: cache_step_def)
    have e: "(\<lambda>i. if unat tot \<le> i \<and> i < unat n then X i else dst i) = dst" for X :: "nat \<Rightarrow> u8"
      unfolding tn by (intro ext if_not_P) simp
    show ?thesis unfolding l e by (intro exI [of _ s] conjI c) (simp_all only: tn)
  next
    case True
    define m where "m = chunk off n tot"
    note cb = chunk_bounds [OF True, of off, folded m_def]
    define bn where "bn = unat off div 1024"
    have ub: "unat (off div 1024) = bn" by (simp add: bn_def unat_div32)
    have lt: "unat tot < unat n" using True by (simp add: word_less_nat_alt)
    have bn: "bn < nb" using ok(6) lt unfolding bn_def by (intro less_mult_imp_div_less) (simp add: mult.commute)
    let ?blk = "fblock ?D ?a bn"
    have blk: "?blk \<noteq> 0" "unat ?blk < disk_blocks s" "bn < 268" "NDIRECT \<le> bn \<Longrightarrow> unat (?a NDIRECT) < disk_blocks s"
      using ok(4) bn by (auto simp: readable_blocks_def)
    obtain s1 where b: "bmap ip (off div 1024) s = Inr (?blk, s1)" "cache_step H s s1" "disk s1 = disk s"
      using bmap_lookup [OF ok(1,2,3), of "off div 1024"] blk unfolding ub by blast
    have s1: "icache s1 = icache s" "disk_blocks s1 = disk_blocks s" using b(2) by simp_all
    obtain bp s2 where r: "bread ROOTDEV ?blk s1 = Inr (bp, s2)" "b_data (bufs s2 bp) = ?D ?blk" "only_cache s1 s2"
      "disk s2 = disk s1" "cache_step H s1 (brelse bp s2)" "disk (brelse bp s2) = ?D"
      using bread_brelse [OF cache_step_ok [OF b(2)] ok(2), of ?blk] blk(2) unfolding s1 b(3) by metis
    let ?t = "brelse bp s2" and ?dst = "move_bytes dst (unat tot) (?D ?blk) (unat (off mod 1024)) (unat m)"
    have t: "icache ?t = icache s" "disk_blocks ?t = disk_blocks s" "cache_step H s ?t"
      using r(5) s1 cache_step_trans [OF b(2) r(5)] by simp_all
    have unf: "readi_loop ip dst tot off n s = readi_loop ip ?dst (tot + m) (off + m) n ?t"
      unfolding readi_loop.simps [of ip dst tot off n s] using True b(1) r(1,2) s1(1) ok(3) m_def by (simp add: Let_def)
    have off: "unat (off + m) = unat off + unat m"
    proof -
      have "nb \<le> 268" using ok(4) by (simp add: readable_blocks_def)
      then have "unat off + unat m < 2 ^ 32" using ok(6) lt cb(2) by simp
      then show ?thesis by (simp add: unat_add32)
    qed
    have "\<exists>s'. readi_loop ip ?dst (tot + m) (off + m) n ?t = Inr (n,
        (\<lambda>i. if unat (tot + m) \<le> i \<and> i < unat n then fbyte ?D ?a (unat (off + m) + (i - unat (tot + m))) else ?dst i), s') \<and>
      cache_step H ?t s' \<and> disk s' = ?D"
    proof -
      have br: "bread (i_dev (icache s1 ip)) ?blk s1 = Inr (bp, s2)" using r(1) s1(1) ok(3) by simp
      have dev: "i_dev (icache ?t ip) = ROOTDEV" using t(1) ok(3) by simp
      have rb: "readable_blocks ?t ip nb" using ok(4) unfolding readable_blocks_def t r(6) .
      have le: "tot + m \<le> n" using cb(2,4) lt by (simp add: word_le_nat_alt)
      have fits: "unat (off + m) + (unat n - unat (tot + m)) \<le> 1024 * nb"
        using off cb(2,4) lt ok(6) by simp
      show ?thesis
        using "1.IH" [OF True b(1) refl br refl m_def cache_step_ok [OF r(5)] ok(2) dev rb le fits]
        unfolding t(1) r(2,6) .
    qed
    then obtain s' where s': "readi_loop ip ?dst (tot + m) (off + m) n ?t = Inr (n,
        (\<lambda>i. if unat (tot + m) \<le> i \<and> i < unat n then fbyte ?D ?a (unat (off + m) + (i - unat (tot + m))) else ?dst i), s')"
      "cache_step H ?t s'" "disk s' = ?D" by blast
    have "(if unat (tot + m) \<le> i \<and> i < unat n then fbyte ?D ?a (unat (off + m) + (i - unat (tot + m))) else ?dst i) =
      (if unat tot \<le> i \<and> i < unat n then fbyte ?D ?a (unat off + (i - unat tot)) else dst i)" for i
    proof (cases "unat tot \<le> i \<and> i < unat tot + unat m")
      case True
      moreover have "unat m \<le> 1024 - unat off mod 1024" "unat off mod 1024 < 1024" using cb(3) by simp_all
      ultimately have "unat off mod 1024 + (i - unat tot) < 1024" by linarith
      then have r: "unat off mod 1024 + (i - unat tot) < 1024" .
      have e: "unat off + (i - unat tot) = 1024 * bn + (unat off mod 1024 + (i - unat tot))"
        unfolding bn_def by simp
      have "(unat off + (i - unat tot)) div 1024 = bn" "(unat off + (i - unat tot)) mod 1024 = unat off mod 1024 + (i - unat tot)"
        unfolding e using r by simp_all
      moreover have "i < unat n" using True cb(2) lt by linarith
      ultimately show ?thesis using True cb(4) by (simp add: move_bytes_def fbyte_def unat_mod32)
    next
      case False
      have nm: "?dst i = dst i" using False by (simp only: move_bytes_def if_False)
      show ?thesis
      proof (cases "unat tot + unat m \<le> i")
        case True
        then have "unat off + unat m + (i - (unat tot + unat m)) = unat off + (i - unat tot)" "unat tot \<le> i" by linarith+
        then show ?thesis unfolding nm off cb(4) using True by (simp only: simp_thms)
      next
        case nt: False
        then have "\<not> (unat tot + unat m \<le> i \<and> i < unat n)" "\<not> (unat tot \<le> i \<and> i < unat n)" using False by linarith+
        then show ?thesis unfolding nm off cb(4) by (simp only: if_False)
      qed
    qed
    then have fe: "(\<lambda>i. if unat (tot + m) \<le> i \<and> i < unat n then fbyte ?D ?a (unat (off + m) + (i - unat (tot + m))) else ?dst i) =
      (\<lambda>i. if unat tot \<le> i \<and> i < unat n then fbyte ?D ?a (unat off + (i - unat tot)) else dst i)" by (rule ext)
    show ?thesis
      unfolding unf s'(1) fe by (intro exI [of _ s'] conjI refl cache_step_trans [OF t(3) s'(2)] s'(3))
  qed
qed

text \<open>How many bytes \<open>readi\<close> copies: 32-bit overflow of \<open>off + n\<close> counts as nothing to read.\<close>

definition read_count :: "u32 \<Rightarrow> u32 \<Rightarrow> u32 \<Rightarrow> nat" where
  "read_count sz off n =
     (if unat sz < unat off \<or> 2 ^ 32 \<le> unat off + unat n then 0 else min (unat n) (unat sz - unat off))"

lemma add_overflow_iff: "off + n < off \<longleftrightarrow> 2 ^ 32 \<le> unat off + unat (n :: u32)"
proof -
  have "unat (off + n) = (if unat off + unat n < 2 ^ 32 then unat off + unat n else unat off + unat n - 2 ^ 32)"
    using unat_lt32 [of off] unat_lt32 [of n] by (simp add: unat_add32 mod_if)
  then show ?thesis using unat_lt32 [of n] unfolding word_less_nat_alt by (auto split: if_splits)
qed

definition blocks_for :: "nat \<Rightarrow> nat" where
  "blocks_for sz = (sz + 1023) div 1024"

lemma blocks_for_bound: "sz \<le> 1024 * blocks_for sz" "i < sz \<Longrightarrow> i div 1024 < blocks_for sz"
  unfolding blocks_for_def by linarith+

lemma readi_spec:
  assumes "bcache_ok s H" "size H < NBUF" "i_dev (icache s ip) = ROOTDEV"
    and "readable_blocks s ip (blocks_for (unat (i_size (icache s ip))))"
  shows "\<exists>s'. readi ip dst off n s = Inr (of_nat (read_count (i_size (icache s ip)) off n),
      (\<lambda>i. if i < read_count (i_size (icache s ip)) off n
         then fbyte (disk s) (i_addrs (icache s ip)) (unat off + i) else dst i), s') \<and>
    cache_step H s s' \<and> disk s' = disk s"
proof -
  let ?sz = "i_size (icache s ip)" and ?k = "read_count (i_size (icache s ip)) off n"
  show ?thesis
  proof (cases "?sz < off \<or> off + n < off")
    case True
    then have "?sz < off \<or> 2 ^ 32 \<le> unat off + unat n" unfolding add_overflow_iff .
    then have k: "?k = 0" by (elim disjE) (simp_all add: read_count_def word_less_nat_alt)
    have "readi ip dst off n s = Inr (0, dst, s)" using True by (simp add: readi_def)
    moreover have "cache_step H s s" using assms(1) by (simp add: cache_step_def)
    ultimately show ?thesis by (intro exI [of _ s]) (simp only: k semiring_1_class.of_nat_0 not_less0 if_False simp_thms)
  next
    case False
    then have "\<not> ?sz < off" "\<not> 2 ^ 32 \<le> unat off + unat n" unfolding add_overflow_iff by simp_all
    then have o: "unat off \<le> unat ?sz" "unat off + unat n < 2 ^ 32" unfolding word_less_nat_alt by simp_all
    define n' where "n' = (if ?sz < off + n then ?sz - off else n)"
    have n': "unat n' = ?k"
    proof -
      have u: "unat (off + n) = unat off + unat n" "unat (?sz - off) = unat ?sz - unat off"
        using o by (simp_all add: unat_add32 unat_sub32)
      have "?sz < off + n \<longleftrightarrow> unat ?sz < unat off + unat n" by (simp add: word_less_nat_alt u)
      then show ?thesis
        using o unfolding n'_def read_count_def by (cases "unat ?sz < unat off + unat n") (simp_all add: u)
    qed
    have kb: "unat off + ?k \<le> unat ?sz" using o by (simp add: read_count_def)
    have "unat off + (unat n' - unat (0 :: u32)) \<le> 1024 * blocks_for (unat ?sz)"
      using kb blocks_for_bound(1) [of "unat ?sz"] unfolding n' by simp
    from readi_loop_spec [OF assms(1-4) _ this, of dst]
    obtain s' where "readi_loop ip dst 0 off n' s = Inr (n',
        (\<lambda>i. if unat (0 :: u32) \<le> i \<and> i < unat n' then fbyte (disk s) (i_addrs (icache s ip)) (unat off + (i - unat (0 :: u32))) else dst i), s')"
      "cache_step H s s'" "disk s' = disk s" by auto
    moreover have "readi ip dst off n s = readi_loop ip dst 0 off n' s"
      using False by (simp add: readi_def n'_def)
    moreover have "n' = of_nat ?k" unfolding n' [symmetric] by simp
    ultimately show ?thesis unfolding n' by auto
  qed
qed

section \<open>Properties of reading\<close>

text \<open>
  C31: \<open>readi\<close> returns how many bytes of the file lie in the wanted range, 0 when the range starts
  past the end or \<open>off + n\<close> wraps; it copies exactly those bytes to the front of the buffer,
  leaves the rest of the buffer and the disk alone, and needs one free buffer at a time.
\<close>

theorem readi_copies_file:
  assumes "bcache_ok s H" and "size H < NBUF" and "i_dev (icache s ip) = ROOTDEV"
    and "readable_blocks s ip (blocks_for (unat (i_size (icache s ip))))"
  shows "\<exists>dst' s'. readi ip dst off n s = Inr (of_nat (read_count (i_size (icache s ip)) off n), dst', s') \<and>
    map dst' [0..<read_count (i_size (icache s ip)) off n] =
      take (read_count (i_size (icache s ip)) off n) (drop (unat off) (file_bytes s ip)) \<and>
    (\<forall>i. read_count (i_size (icache s ip)) off n \<le> i \<longrightarrow> dst' i = dst i) \<and>
    bcache_ok s' H \<and> disk s' = disk s \<and> icache s' = icache s"
proof -
  let ?k = "read_count (i_size (icache s ip)) off n"
  obtain s' where r: "readi ip dst off n s = Inr (of_nat ?k,
      (\<lambda>i. if i < ?k then fbyte (disk s) (i_addrs (icache s ip)) (unat off + i) else dst i), s')"
    "cache_step H s s'" "disk s' = disk s"
    using readi_spec [OF assms, of dst off n] by blast
  have "unat off + ?k \<le> unat (i_size (icache s ip)) \<or> ?k = 0" by (auto simp: read_count_def)
  then have "map (\<lambda>i. if i < ?k then fbyte (disk s) (i_addrs (icache s ip)) (unat off + i) else dst i) [0..<?k] =
      take ?k (drop (unat off) (file_bytes s ip))"
    by (auto intro!: nth_equalityI simp: file_bytes_def)
  then show ?thesis using r cache_step_ok [OF r(2)] by auto
qed

text \<open>The root directory of the demonstration disk, loaded: 16 bytes in block 4.\<close>

definition demo_dir :: fs where
  "demo_dir = upd_inode 0 (\<lambda>f. f\<lparr>i_dev := ROOTDEV, i_inum := 1, i_ref := 1, i_valid := 1, i_type := T_DIR,
     i_size := 16, i_addrs := (\<lambda>_. 0)(0 := 4)\<rparr>) demo_fs"

lemma demo_dir_facts:
  "bcache_ok demo_dir {#}" "i_dev (icache demo_dir 0) = ROOTDEV" "unat (i_size (icache demo_dir 0)) = 16"
  "readable_blocks demo_dir 0 (blocks_for (unat (i_size (icache demo_dir 0))))" "disk demo_dir = demo_disk"
proof -
  show "bcache_ok demo_dir {#}"
    unfolding demo_dir_def by (rule fs_step_facts(1) [OF upd_inode_fs_step [OF demo_fs_cache]])
  show "i_dev (icache demo_dir 0) = ROOTDEV" "unat (i_size (icache demo_dir 0)) = 16" "disk demo_dir = demo_disk"
    by (simp_all add: demo_dir_def demo_fs_sel)
  then show "readable_blocks demo_dir 0 (blocks_for (unat (i_size (icache demo_dir 0))))"
    by (auto simp: blocks_for_def readable_blocks_def fblock_def NDIRECT_def) (simp_all add: demo_dir_def demo_fs_sel)
qed

theorem readi_copies_file_witness:
  "\<exists>dst' s'. readi 0 (\<lambda>_. 0xee) 2 100 demo_dir = Inr (14, dst', s') \<and> dst' 0 = 0x61 \<and> dst' 14 = 0xee"
proof -
  have k: "read_count (i_size (icache demo_dir 0)) 2 100 = 14"
    by (simp add: read_count_def demo_dir_facts(3))
  obtain dst' s' where r: "readi 0 (\<lambda>_. 0xee) 2 100 demo_dir = Inr (of_nat 14, dst', s')"
    "map dst' [0..<14] = take 14 (drop (unat (2 :: u32)) (file_bytes demo_dir 0))" "dst' 14 = 0xee"
    using readi_copies_file [OF demo_dir_facts(1) _ demo_dir_facts(2,4), of "\<lambda>_. 0xee" 2 100] unfolding k by auto
  have "dst' 0 = map dst' [0..<14] ! 0" by simp
  also have "\<dots> = fbyte demo_disk (i_addrs (icache demo_dir 0)) 2"
    unfolding r(2) file_bytes_def demo_dir_facts(3,5) by (simp, simp only: numeral_2_eq_2)
  also have "\<dots> = 0x61" by (simp add: fbyte_def fblock_def NDIRECT_def demo_dir_def demo_disk_def put_le_def)
  finally show ?thesis using r by auto
qed

text \<open>
  A negative count given as an \<open>int\<close> is a huge unsigned one: a read of \<open>-1\<close> bytes from offset 0
  does not wrap and reads the whole file, while at any other offset it reads nothing.
\<close>

theorem readi_minus_one:
  "readi ip dst off (-1) s = (if off = 0 then readi ip dst 0 (i_size (icache s ip)) s else Inr (0, dst, s))"
proof (cases "off = 0")
  case True
  show ?thesis
  proof (cases "i_size (icache s ip) < -1")
    case le: True
    then show ?thesis using True by (simp add: readi_def Let_def)
  next
    case False
    then have "i_size (icache s ip) = -1" by (simp add: not_less order.antisym)
    then show ?thesis using True by (simp add: readi_def Let_def)
  qed
next
  case False
  then have "off + (-1) < off" using unat_gt_0 [of off] by (simp add: word_less_nat_alt unat_sub32)
  then show ?thesis using False by (simp add: readi_def)
qed

end
