(* ===== verification/Dir.thy ===== *)
theory Dir
  imports File_Data
begin

text \<open>
  Directories and paths, \<open>kernel/fs/fs.c\<close>: \<open>dirlookup\<close> and \<open>dirlink\<close> read and write the 16-byte
  records of a directory, \<open>skipelem\<close> cuts a path into its components, \<open>namex\<close> walks it.  A
  path is the list of its bytes before the terminating 0; advancing the pointer drops bytes.  A
  \<open>char name[DIRSIZ]\<close> is an array of bytes that the code overwrites in place, so what an
  earlier component left behind stays in it.
\<close>

section \<open>Names\<close>

text \<open>The comparison loop of \<open>dirlookup\<close>, with \<open>k\<close> characters to go.\<close>

primrec name_match :: "nat \<Rightarrow> nat \<Rightarrow> block \<Rightarrow> block \<Rightarrow> bool" where
  "name_match 0 i a b = True"
| "name_match (Suc k) i a b = (if a i \<noteq> b i then False else if b i = 0 then True else name_match k (i + 1) a b)"

text \<open>The copying loop of \<open>dirlink\<close>.\<close>

primrec copy_name :: "nat \<Rightarrow> nat \<Rightarrow> block \<Rightarrow> block \<Rightarrow> block" where
  "copy_name 0 i name de = de"
| "copy_name (Suc k) i name de = (if name i = 0 then de else copy_name k (i + 1) name (de(2 + i := name i)))"

section \<open>Directory operations\<close>

text \<open>
  \<open>de\<close> is a local record whose first content is whatever the stack holds; nothing of it is used
  before 16 bytes have been read or written.
\<close>

lemma readi_no_overflow: "readi ip dst off n s = Inr (r, x) \<Longrightarrow> r \<noteq> 0 \<Longrightarrow> \<not> off + n < off"
  by (auto simp: readi_def split: if_splits)

lemma readi_16_increases:
  "readi ip dst off 16 s = Inr x \<Longrightarrow> (16, y) = x \<Longrightarrow>
     4294967296 - unat (off + 16) < 4294967296 - unat (off :: u32)"
  using readi_no_overflow [of ip dst off 16 s 16 y] unat_lt32 [of off]
  by (auto simp: add_overflow_iff unat_add32)

function dirlookup_from :: "nat \<Rightarrow> block \<Rightarrow> block \<Rightarrow> u32 \<Rightarrow> 'a fs_scheme \<Rightarrow> ((nat \<times> u32) option \<times> 'a fs_scheme) res" where
  "dirlookup_from dp name de off s =
     (if off < i_size (icache s dp) then
        bindE (readi dp de off 16 s) (\<lambda>(r, de, s1).
          if r \<noteq> 16 then Inl (Panic ''dirlookup: read error'')
          else let inum = get_le 2 de 0 :: u16 in
            if inum = 0 then dirlookup_from dp name de (off + 16) s1
            else if name_match DIRSIZ 0 (\<lambda>i. de (2 + i)) name then
              bindE (iget (i_dev (icache s1 dp)) (ucast inum) s1) (\<lambda>(ip, s2). Inr (Some (ip, off), s2))
            else dirlookup_from dp name de (off + 16) s1)
      else Inr (None, s))"
  by pat_completeness auto
termination
  by (relation "measure (\<lambda>(dp, name, de, off, s). 2 ^ 32 - unat off)")
    (simp_all, (erule readi_16_increases, assumption)+)

declare dirlookup_from.simps [simp del]

text \<open>The inode and the offset that is stored through \<open>poff\<close>.\<close>

definition dirlookup :: "nat \<Rightarrow> block \<Rightarrow> 'a fs_scheme \<Rightarrow> ((nat \<times> u32) option \<times> 'a fs_scheme) res" where
  "dirlookup dp name s = dirlookup_from dp name (\<lambda>_. 0) 0 s"

text \<open>The loop of \<open>dirlink\<close> that looks for an unused record; \<open>off\<close> is an \<open>int\<close> here.\<close>

function free_slot_from :: "nat \<Rightarrow> block \<Rightarrow> u32 \<Rightarrow> 'a fs_scheme \<Rightarrow> (u32 \<times> block \<times> 'a fs_scheme) res" where
  "free_slot_from dp de off s =
     (if off < i_size (icache s dp) then
        bindE (readi dp de off 16 s) (\<lambda>(r, de, s1).
          if r \<noteq> 16 then Inl (Panic ''dirlink read'')
          else if (get_le 2 de 0 :: u16) = 0 then Inr (off, de, s1)
          else if 0x7FFFFFFF - 16 < off then Inl (Fault ''dirlink: int overflow'')
          else free_slot_from dp de (off + 16) s1)
      else Inr (off, de, s))"
  by pat_completeness auto
termination
  by (relation "measure (\<lambda>(dp, de, off, s). 2 ^ 32 - unat off)")
    (simp_all, (erule readi_16_increases, assumption)+)

declare free_slot_from.simps [simp del]

definition dirlink :: "nat \<Rightarrow> block \<Rightarrow> u32 \<Rightarrow> 'a fs_scheme \<Rightarrow> (i32 \<times> 'a fs_scheme) res" where
  "dirlink dp name inum s =
     bindE (dirlookup dp name s) (\<lambda>(found, s1).
       case found of
         Some (ip, _) \<Rightarrow> Inr (-1, iput ip s1)
       | None \<Rightarrow>
           bindE (free_slot_from dp (\<lambda>_. 0) 0 s1) (\<lambda>(off, de, s2).
             let de1 = copy_name DIRSIZ 0 name (fill_bytes de 2 0 DIRSIZ);
                 de2 = put_le 2 de1 0 (ucast inum :: u16)
             in bindE (writei dp de2 off 16 s2) (\<lambda>(r, s3).
                  if r \<noteq> 16 then Inl (Panic ''dirlink write'') else Inr (0, s3))))"

section \<open>Paths\<close>

definition slash :: u8 where "slash = 0x2f"

definition skipelem :: "u8 list \<Rightarrow> block \<Rightarrow> (u8 list \<times> block) option" where
  "skipelem path name =
     (let path = dropWhile (\<lambda>c. c = slash) path in
      if path = [] then None
      else
        let s = (\<lambda>i. path ! i); len = length (takeWhile (\<lambda>c. c \<noteq> slash) path);
            rest = dropWhile (\<lambda>c. c \<noteq> slash) path;
            name' = (if DIRSIZ \<le> len then move_bytes name 0 s 0 DIRSIZ else (move_bytes name 0 s 0 len)(len := 0))
        in Some (dropWhile (\<lambda>c. c = slash) rest, name'))"

lemma length_dropWhile_less: "xs \<noteq> [] \<Longrightarrow> P (hd xs) \<Longrightarrow> length (dropWhile P xs) < length xs"
  using length_dropWhile_le [of P "tl xs"] by (cases xs) simp_all

lemma skipelem_shorter: "skipelem path name = Some (rest, name') \<Longrightarrow> length rest < length path"
proof -
  assume a: "skipelem path name = Some (rest, name')"
  let ?p = "dropWhile (\<lambda>c. c = slash) path"
  have ne: "?p \<noteq> []" and r: "rest = dropWhile (\<lambda>c. c = slash) (dropWhile (\<lambda>c. c \<noteq> slash) ?p)"
    using a by (auto simp: skipelem_def Let_def split: if_splits)
  have "length rest \<le> length (dropWhile (\<lambda>c. c \<noteq> slash) ?p)" unfolding r by (rule length_dropWhile_le)
  also have "\<dots> < length ?p" using length_dropWhile_less [of ?p "\<lambda>c. c \<noteq> slash"] hd_dropWhile [OF ne] ne by simp
  also have "\<dots> \<le> length path" by (rule length_dropWhile_le)
  finally show ?thesis .
qed

text \<open>
  The loop of \<open>namex\<close>.  The result is an inode or the null pointer, with the name of the last
  component looked at.
\<close>

function namex_loop :: "bool \<Rightarrow> nat \<Rightarrow> u8 list \<Rightarrow> block \<Rightarrow> 'a fs_scheme \<Rightarrow> (nat option \<times> block \<times> 'a fs_scheme) res" where
  "namex_loop parent ip path name s =
     (case skipelem path name of
        None \<Rightarrow> if parent then Inr (None, name, iput ip s) else Inr (Some ip, name, s)
      | Some (path, name) \<Rightarrow>
          bindE (ilock (Some ip) s) (\<lambda>s1.
            if i_type (icache s1 ip) \<noteq> T_DIR then
              bindE (iunlock (Some ip) s1) (\<lambda>s2. Inr (None, name, iput ip s2))
            else if parent \<and> path = [] then
              bindE (iunlock (Some ip) s1) (\<lambda>s2. Inr (Some ip, name, s2))
            else
              bindE (dirlookup ip name s1) (\<lambda>(found, s2).
                case found of
                  None \<Rightarrow> bindE (iunlock (Some ip) s2) (\<lambda>s3. Inr (None, name, iput ip s3))
                | Some (nxt, _) \<Rightarrow>
                    bindE (iunlock (Some ip) s2) (\<lambda>s3. namex_loop parent nxt path name (iput ip s3)))))"
  by pat_completeness auto
termination
  by (relation "measure (\<lambda>(parent, ip, path, name, s). length path)") (auto intro: skipelem_shorter)

declare namex_loop.simps [simp del]

text \<open>Both branches on the first character start at the root.\<close>

definition namex :: "bool \<Rightarrow> u8 list \<Rightarrow> block \<Rightarrow> 'a fs_scheme \<Rightarrow> (nat option \<times> block \<times> 'a fs_scheme) res" where
  "namex parent path name s =
     bindE (iget ROOTDEV ROOTINO s) (\<lambda>(ip, s1). namex_loop parent ip path name s1)"

definition namei :: "u8 list \<Rightarrow> 'a fs_scheme \<Rightarrow> (nat option \<times> 'a fs_scheme) res" where
  "namei path s = bindE (namex False path (\<lambda>_. 0) s) (\<lambda>(ip, _, s1). Inr (ip, s1))"

definition nameiparent :: "u8 list \<Rightarrow> block \<Rightarrow> 'a fs_scheme \<Rightarrow> (nat option \<times> block \<times> 'a fs_scheme) res" where
  "nameiparent path name s = namex True path name s"

section \<open>Names as strings\<close>

text \<open>The string in a name field: up to the first 0, at most 14 bytes.\<close>

definition cname :: "block \<Rightarrow> u8 list" where
  "cname a = takeWhile (\<lambda>c. c \<noteq> 0) (map a [0..<DIRSIZ])"

lemma name_match_takeWhile:
  "name_match k i a b \<longleftrightarrow> takeWhile (\<lambda>c. c \<noteq> 0) (map a [i..<i + k]) = takeWhile (\<lambda>c. c \<noteq> 0) (map b [i..<i + k])"
proof (induction k arbitrary: i)
  case (Suc k)
  have "[i..<i + Suc k] = i # [i + 1..<i + 1 + k]" by (simp add: upt_rec)
  then show ?case by (simp only: name_match.simps Suc.IH list.map takeWhile.simps) auto
qed simp

lemma name_match_cname: "name_match DIRSIZ 0 a b \<longleftrightarrow> cname a = cname b"
  unfolding cname_def name_match_takeWhile by simp

text \<open>The components of a path, by one pass over its bytes; \<open>w\<close> collects a component backwards.\<close>

primrec components :: "u8 list \<Rightarrow> u8 list \<Rightarrow> u8 list list" where
  "components [] w = (if w = [] then [] else [rev w])"
| "components (c # cs) w =
     (if c = slash then (if w = [] then components cs [] else rev w # components cs []) else components cs (c # w))"

definition path_elems :: "u8 list \<Rightarrow> u8 list list" where
  "path_elems path = components path []"

lemma components_word: "w \<noteq> [] \<or> (path \<noteq> [] \<and> hd path \<noteq> slash) \<Longrightarrow>
    components path w = (rev w @ takeWhile (\<lambda>c. c \<noteq> slash) path) # path_elems (dropWhile (\<lambda>c. c \<noteq> slash) path)"
  by (induction path arbitrary: w) (auto simp: path_elems_def)

lemma path_elems_skip: "path_elems (dropWhile (\<lambda>c. c = slash) path) = path_elems path"
  by (induction path) (simp_all add: path_elems_def)

lemma path_elems_Nil: "path_elems path = [] \<longleftrightarrow> dropWhile (\<lambda>c. c = slash) path = []"
proof
  assume e: "path_elems path = []"
  show "dropWhile (\<lambda>c. c = slash) path = []"
  proof (rule ccontr)
    assume ne: "dropWhile (\<lambda>c. c = slash) path \<noteq> []"
    then have "hd (dropWhile (\<lambda>c. c = slash) path) \<noteq> slash" by (rule hd_dropWhile)
    with ne have "path_elems (dropWhile (\<lambda>c. c = slash) path) \<noteq> []"
      unfolding path_elems_def by (subst components_word) simp_all
    then show False using e by (simp add: path_elems_skip)
  qed
next
  assume "dropWhile (\<lambda>c. c = slash) path = []"
  then have "path_elems path = path_elems []" using path_elems_skip [of path] by (simp only:)
  then show "path_elems path = []" by (simp add: path_elems_def)
qed

lemma cname_skipelem:
  assumes "0 \<notin> set w" and "\<And>i. i < length w \<Longrightarrow> p i = w ! i"
  shows "cname (if DIRSIZ \<le> length w then move_bytes name 0 p 0 DIRSIZ
    else (move_bytes name 0 p 0 (length w))(length w := 0)) = take DIRSIZ w"
proof (cases "DIRSIZ \<le> length w")
  case True
  then have "map (move_bytes name 0 p 0 DIRSIZ) [0..<DIRSIZ] = take DIRSIZ w"
    by (intro nth_equalityI) (simp_all add: move_bytes_def assms(2))
  moreover have "takeWhile (\<lambda>c. c \<noteq> 0) (take DIRSIZ w) = take DIRSIZ w"
    using assms(1) by (intro takeWhile_eq_all_conv [THEN iffD2]) (auto dest: in_set_takeD)
  ultimately show ?thesis using True by (simp add: cname_def)
next
  case False
  let ?m = "(move_bytes name 0 p 0 (length w))(length w := 0)"
  have u: "[0..<DIRSIZ] = [0..<length w] @ length w # [Suc (length w)..<DIRSIZ]"
    using False by (metis le_add1 nat_le_linear not_le plus_nat.add_0 upt_add_eq_append upt_conv_Cons le_add_diff_inverse)
  have "map ?m [0..<length w] = w" by (intro nth_equalityI) (simp_all add: move_bytes_def assms(2))
  moreover have "\<forall>c \<in> set w. c \<noteq> 0" using assms(1) by auto
  ultimately have "cname ?m = w" unfolding cname_def u by (simp add: takeWhile_append2)
  then show ?thesis using False by simp
qed

lemma skipelem_spec:
  assumes "0 \<notin> set path"
  shows "case skipelem path name of
      None \<Rightarrow> path_elems path = []
    | Some (rest, name') \<Rightarrow> \<exists>e. path_elems path = e # path_elems rest \<and> cname name' = take DIRSIZ e \<and>
        (rest = [] \<longleftrightarrow> path_elems rest = []) \<and> 0 \<notin> set rest"
proof (cases "dropWhile (\<lambda>c. c = slash) path = []")
  case True
  then have "skipelem path name = None" by (simp add: skipelem_def)
  then show ?thesis using True path_elems_Nil by simp
next
  case False
  let ?p = "dropWhile (\<lambda>c. c = slash) path"
  let ?w = "takeWhile (\<lambda>c. c \<noteq> slash) ?p" and ?r = "dropWhile (\<lambda>c. c \<noteq> slash) ?p"
  let ?rest = "dropWhile (\<lambda>c. c = slash) ?r"
  have p: "?p = ?w @ ?r" by simp
  have z: "0 \<notin> set ?p" using assms by (meson set_dropWhileD)
  then have w: "0 \<notin> set ?w" by (meson set_takeWhileD)
  have e: "path_elems path = ?w # path_elems ?rest"
    unfolding path_elems_skip using path_elems_skip [of path] components_word [of "[]" ?p] False hd_dropWhile [OF False]
    by (simp add: path_elems_def)
  define name' where "name' = (if DIRSIZ \<le> length ?w then move_bytes name 0 (\<lambda>i. ?p ! i) 0 DIRSIZ
    else (move_bytes name 0 (\<lambda>i. ?p ! i) 0 (length ?w))(length ?w := 0))"
  have n: "skipelem path name = Some (?rest, name')" "cname name' = take DIRSIZ ?w"
    unfolding skipelem_def Let_def name'_def using False cname_skipelem [OF w, of "\<lambda>i. ?p ! i" name]
    by (simp_all only: if_False takeWhile_nth)
  have "dropWhile (\<lambda>c. c = slash) ?rest = ?rest" by (rule dropWhile_idem)
  then have "?rest = [] \<longleftrightarrow> path_elems ?rest = []" unfolding path_elems_Nil by metis
  moreover have "0 \<notin> set ?rest" using z by (meson set_dropWhileD)
  ultimately show ?thesis using e n by auto
qed

text \<open>
  \<open>skipelem\<close> takes the components of a path one by one: it returns the null pointer exactly
  when no component is left, and otherwise stores the first component, cut to 14 bytes, and
  returns a path whose components are the remaining ones and that is empty when none is left.
\<close>

theorem skipelem_components:
  assumes "0 \<notin> set path"
  shows "case skipelem path name of
      None \<Rightarrow> path_elems path = []
    | Some (rest, name') \<Rightarrow> \<exists>e. path_elems path = e # path_elems rest \<and> cname name' = take DIRSIZ e \<and>
        (rest = [] \<longleftrightarrow> path_elems rest = []) \<and> 0 \<notin> set rest"
  by (rule skipelem_spec [OF assms])

theorem skipelem_components_witness:
  "\<exists>rest name'. skipelem [slash, 0x61, slash, slash, 0x62, 0x63] (\<lambda>_. 0xff) = Some (rest, name') \<and>
     cname name' = [0x61] \<and> path_elems rest = [[0x62, 0x63]]"
proof -
  have "0 \<notin> set [slash, 0x61, slash, slash, 0x62, 0x63]" by (simp add: slash_def)
  from skipelem_components [OF this, of "\<lambda>_. 0xff"] show ?thesis
    by (auto simp: path_elems_def slash_def DIRSIZ_def split: option.splits)
qed

section \<open>A directory as a list of entries\<close>

definition slot_inum :: "(u32 \<Rightarrow> block) \<Rightarrow> (nat \<Rightarrow> u32) \<Rightarrow> nat \<Rightarrow> u16" where
  "slot_inum D a k = get_le 2 (fbyte D a) (16 * k)"

definition slot_name :: "(u32 \<Rightarrow> block) \<Rightarrow> (nat \<Rightarrow> u32) \<Rightarrow> nat \<Rightarrow> u8 list" where
  "slot_name D a k = cname (\<lambda>i. fbyte D a (16 * k + 2 + i))"

text \<open>The first used record with that name, among the records \<open>lo\<close> to \<open>hi - 1\<close>.\<close>

definition dir_find :: "(u32 \<Rightarrow> block) \<Rightarrow> (nat \<Rightarrow> u32) \<Rightarrow> u8 list \<Rightarrow> nat \<Rightarrow> nat \<Rightarrow> nat option" where
  "dir_find D a nm lo hi = find (\<lambda>k. slot_inum D a k \<noteq> 0 \<and> slot_name D a k = nm) [lo..<hi]"

text \<open>A directory that can be read: complete records, every block on the disk.\<close>

definition dir_ok :: "'a fs_scheme \<Rightarrow> nat \<Rightarrow> bool" where
  "dir_ok s dp \<longleftrightarrow> i_dev (icache s dp) = ROOTDEV \<and> 16 dvd unat (i_size (icache s dp)) \<and>
     readable_blocks s dp (blocks_for (unat (i_size (icache s dp))))"

lemma dir_ok_size: "dir_ok s dp \<Longrightarrow> unat (i_size (icache s dp)) \<le> 274432"
  using blocks_for_bound(1) [of "unat (i_size (icache s dp))"] by (simp add: dir_ok_def readable_blocks_def)

lemma dir_ok_cong:
  assumes "icache s' dp = icache s dp" "disk s' = disk s" "disk_blocks s' = disk_blocks s"
  shows "dir_ok s' dp = dir_ok s dp"
  unfolding dir_ok_def readable_blocks_def assms ..

lemma read_slot:
  assumes "bcache_ok s H" "size H < NBUF" "dir_ok s dp" "k < unat (i_size (icache s dp)) div 16"
  obtains de' s' where "readi dp de (of_nat (16 * k)) 16 s = Inr (16, de', s')"
    "cache_step H s s'" "disk s' = disk s" "get_le 2 de' 0 = slot_inum (disk s) (i_addrs (icache s dp)) k"
    "cname (\<lambda>i. de' (2 + i)) = slot_name (disk s) (i_addrs (icache s dp)) k"
    "unat (of_nat (16 * k) :: u32) = 16 * k" "(of_nat (16 * k) :: u32) < i_size (icache s dp)"
proof -
  let ?sz = "i_size (icache s dp)" let ?a = "i_addrs (icache s dp)" let ?off = "of_nat (16 * k) :: u32"
  have sz: "unat ?sz \<le> 274432" by (rule dir_ok_size [OF assms(3)])
  have "16 * k < 2 ^ 32" using assms(4) sz by simp
  then have u: "unat ?off = 16 * k" by (rule unat_of_nat32)
  have le: "16 * k + 16 \<le> unat ?sz" using assms(4) by linarith
  have c: "read_count ?sz ?off 16 = 16" unfolding read_count_def u using le sz by simp
  have d: "i_dev (icache s dp) = ROOTDEV" "readable_blocks s dp (blocks_for (unat ?sz))"
    using assms(3) by (simp_all add: dir_ok_def)
  define de' where "de' = (\<lambda>i. if i < 16 then fbyte (disk s) ?a (16 * k + i) else de i)"
  obtain s' where r: "readi dp de ?off 16 s = Inr (16, de', s')" "cache_step H s s'" "disk s' = disk s"
    using readi_spec [OF assms(1,2) d, of de ?off 16] unfolding c u de'_def by auto
  have "get_le 2 de' 0 = (slot_inum (disk s) ?a k :: u16)"
    unfolding get_le_def slot_inum_def by (intro of_le_cong) (simp add: de'_def)
  moreover have "cname (\<lambda>i. de' (2 + i)) = slot_name (disk s) ?a k"
    unfolding cname_def slot_name_def by (intro arg_cong [where f = "takeWhile _"] map_cong) (auto simp: de'_def DIRSIZ_def add.assoc)
  moreover have "?off < ?sz" unfolding word_less_nat_alt u using le by simp
  ultimately show thesis by (rule that [OF r _ _ u])
qed

lemma dir_find_step:
  "k < n \<Longrightarrow> dir_find D a nm k n =
    (if slot_inum D a k \<noteq> 0 \<and> slot_name D a k = nm then Some k else dir_find D a nm (k + 1) n)"
  unfolding dir_find_def by (subst upt_conv_Cons) simp_all

lemma dirlookup_from_spec:
  assumes "bcache_ok s H" "size H < NBUF" "dir_ok s dp" "k \<le> unat (i_size (icache s dp)) div 16"
  shows "\<exists>s1. cache_step H s s1 \<and> disk s1 = disk s \<and>
    dirlookup_from dp name de (of_nat (16 * k)) s =
      (case dir_find (disk s) (i_addrs (icache s dp)) (cname name) k (unat (i_size (icache s dp)) div 16) of
        None \<Rightarrow> Inr (None, s1)
      | Some j \<Rightarrow> bindE (iget ROOTDEV (ucast (slot_inum (disk s) (i_addrs (icache s dp)) j)) s1)
          (\<lambda>(ip, s2). Inr (Some (ip, of_nat (16 * j)), s2)))"
  using assms
proof (induction "unat (i_size (icache s dp)) div 16 - k" arbitrary: k de s)
  case 0
  then have k: "k = unat (i_size (icache s dp)) div 16" by simp
  have "16 * k = unat (i_size (icache s dp))" unfolding k using 0(4) by (simp add: dir_ok_def)
  then have "\<not> (of_nat (16 * k) :: u32) < i_size (icache s dp)" by simp
  then have "dirlookup_from dp name de (of_nat (16 * k)) s = Inr (None, s)"
    unfolding dirlookup_from.simps [of dp name de "of_nat (16 * k)" s] by (simp only: if_False)
  moreover have "cache_step H s s" using 0(2) by (simp add: cache_step_def)
  moreover have "dir_find D a nm k (unat (i_size (icache s dp)) div 16) = None" for D a nm
    unfolding k dir_find_def by (simp only: upt_conv_Nil order_refl find.simps)
  ultimately show ?case by (intro exI [of _ s]) (simp only: option.case simp_thms)
next
  case (Suc m)
  let ?D = "disk s" and ?a = "i_addrs (icache s dp)" and ?n = "unat (i_size (icache s dp)) div 16"
  have k: "k < ?n" using Suc.hyps(2) by simp
  obtain de' s' where r: "readi dp de (of_nat (16 * k)) 16 s = Inr (16, de', s')" "cache_step H s s'" "disk s' = ?D"
    "get_le 2 de' 0 = slot_inum ?D ?a k" "cname (\<lambda>i. de' (2 + i)) = slot_name ?D ?a k"
    "unat (of_nat (16 * k) :: u32) = 16 * k" "(of_nat (16 * k) :: u32) < i_size (icache s dp)"
    by (rule read_slot [OF Suc.prems(1-3) k])
  have dev: "i_dev (icache s' dp) = ROOTDEV" using r(2) Suc.prems(3) by (simp add: dir_ok_def)
  have unf: "dirlookup_from dp name de (of_nat (16 * k)) s =
      (if slot_inum ?D ?a k \<noteq> 0 \<and> slot_name ?D ?a k = cname name then
         bindE (iget ROOTDEV (ucast (slot_inum ?D ?a k)) s') (\<lambda>(ip, s2). Inr (Some (ip, of_nat (16 * k)), s2))
       else dirlookup_from dp name de' (of_nat (16 * k) + 16) s')"
    unfolding dirlookup_from.simps [of dp name de "of_nat (16 * k)" s] if_P [OF r(7)] r(1) bindE_Inr prod.case
      name_match_cname r(4,5) Let_def dev
    by (cases "slot_inum ?D ?a k = 0"; cases "slot_name ?D ?a k = cname name") (simp_all only: simp_thms if_True if_False)
  show ?case
  proof (cases "slot_inum ?D ?a k \<noteq> 0 \<and> slot_name ?D ?a k = cname name")
    case True
    then show ?thesis unfolding unf dir_find_step [OF k] using r(2,3) by auto
  next
    case False
    have s': "icache s' = icache s" "disk_blocks s' = disk_blocks s" using r(2) by simp_all
    have nx: "of_nat (16 * k) + 16 = (of_nat (16 * (k + 1)) :: u32)" by simp
    have "dir_ok s' dp" using Suc.prems(3) unfolding dir_ok_cong [OF fun_cong [OF s'(1)] r(3) s'(2)] .
    have m: "m = ?n - (k + 1)" "k + 1 \<le> ?n" using Suc.hyps(2) k by simp_all
    obtain s1 where "cache_step H s' s1" "disk s1 = ?D"
      "dirlookup_from dp name de' (of_nat (16 * (k + 1))) s' =
        (case dir_find ?D ?a (cname name) (k + 1) ?n of None \<Rightarrow> Inr (None, s1)
         | Some j \<Rightarrow> bindE (iget ROOTDEV (ucast (slot_inum ?D ?a j)) s1) (\<lambda>(ip, s2). Inr (Some (ip, of_nat (16 * j)), s2)))"
      using Suc.hyps(1) [of s' "k + 1" de', unfolded s' r(3), OF m(1) cache_step_ok [OF r(2)] Suc.prems(2) \<open>dir_ok s' dp\<close> m(2)]
      by blast
    then show ?thesis
      unfolding unf if_not_P [OF False] nx dir_find_step [OF k] using cache_step_trans [OF r(2)] by blast
  qed
qed

text \<open>
  \<open>dirlookup\<close> returns an inode for the first record of the directory that is in use and carries
  the name, compared over at most 14 bytes, and the null pointer when there is none.
\<close>

lemma dirlookup_spec:
  assumes "bcache_ok s H" "size H < NBUF" "dir_ok s dp"
  shows "\<exists>s1. cache_step H s s1 \<and> disk s1 = disk s \<and>
    dirlookup dp name s =
      (case dir_find (disk s) (i_addrs (icache s dp)) (cname name) 0 (unat (i_size (icache s dp)) div 16) of
        None \<Rightarrow> Inr (None, s1)
      | Some j \<Rightarrow> bindE (iget ROOTDEV (ucast (slot_inum (disk s) (i_addrs (icache s dp)) j)) s1)
          (\<lambda>(ip, s2). Inr (Some (ip, of_nat (16 * j)), s2)))"
  unfolding dirlookup_def using dirlookup_from_spec [OF assms, of 0 name "\<lambda>_. 0"] by simp

end
