(* ===== verification/Path.thy ===== *)
theory Path
  imports Dir
begin

text \<open>
  What \<open>namei\<close> and \<open>nameiparent\<close> of \<open>kernel/fs/fs.c\<close> promise: a path is resolved against the tree of
  directories on the disk (\<open>resolve\<close>), and the walk gives back every inode reference it takes but
  the one it returns.
\<close>

section \<open>The tree on the disk\<close>

definition dir_wf :: "'a fs_scheme \<Rightarrow> dinode \<Rightarrow> bool" where
  "dir_wf s d \<longleftrightarrow> 16 dvd unat (d_size d) \<and> blocks_for (unat (d_size d)) \<le> 268 \<and>
     (\<forall>bn < blocks_for (unat (d_size d)). fblock (disk s) (d_addrs d) bn \<noteq> 0 \<and>
        unat (fblock (disk s) (d_addrs d) bn) < disk_blocks s) \<and>
     (NDIRECT < blocks_for (unat (d_size d)) \<longrightarrow> unat (d_addrs d NDIRECT) < disk_blocks s) \<and>
     (\<forall>k < unat (d_size d) div 16. slot_inum (disk s) (d_addrs d) k \<noteq> 0 \<longrightarrow>
        ucast (slot_inum (disk s) (d_addrs d) k) < sb_ninodes (sb s) \<and>
        d_type (dinode_at s (ucast (slot_inum (disk s) (d_addrs d) k))) \<noteq> 0)"

text \<open>Directories are whole and name only inodes that are in use; the root is in use.\<close>

definition tree_ok :: "'a fs_scheme \<Rightarrow> bool" where
  "tree_ok s \<longleftrightarrow> inodes_on_disk s \<and> ROOTINO < sb_ninodes (sb s) \<and> d_type (dinode_at s ROOTINO) \<noteq> 0 \<and>
     (\<forall>i. i < sb_ninodes (sb s) \<longrightarrow> d_type (dinode_at s i) = T_DIR \<longrightarrow> dir_wf s (dinode_at s i))"

definition child :: "'a fs_scheme \<Rightarrow> dinode \<Rightarrow> u8 list \<Rightarrow> u32 option" where
  "child s d e = (case dir_find (disk s) (d_addrs d) (take DIRSIZ e) 0 (unat (d_size d) div 16) of
      None \<Rightarrow> None | Some k \<Rightarrow> Some (ucast (slot_inum (disk s) (d_addrs d) k)))"

text \<open>Resolution of the components of a path from inode \<open>i\<close>, on the disk alone.\<close>

primrec resolve :: "'a fs_scheme \<Rightarrow> u8 list list \<Rightarrow> u32 \<Rightarrow> u32 option" where
  "resolve s [] i = Some i"
| "resolve s (e # es) i =
     (if d_type (dinode_at s i) \<noteq> T_DIR then None
      else case child s (dinode_at s i) e of None \<Rightarrow> None | Some j \<Rightarrow> resolve s es j)"

text \<open>The directory that holds, or would hold, the last component.\<close>

definition resolve_parent :: "'a fs_scheme \<Rightarrow> u8 list list \<Rightarrow> u32 \<Rightarrow> u32 option" where
  "resolve_parent s es i =
     (if es = [] then None
      else case resolve s (butlast es) i of
          None \<Rightarrow> None
        | Some j \<Rightarrow> if d_type (dinode_at s j) = T_DIR then Some j else None)"

definition target :: "bool \<Rightarrow> 'a fs_scheme \<Rightarrow> u8 list list \<Rightarrow> u32 \<Rightarrow> u32 option" where
  "target parent s es i = (if parent then resolve_parent s es i else resolve s es i)"

lemma target_Nil: "target parent s [] i = (if parent then None else Some i)"
  by (simp add: target_def resolve_parent_def)

lemma target_Cons:
  "target parent s (e # es) i =
     (if d_type (dinode_at s i) \<noteq> T_DIR then None
      else if parent \<and> es = [] then Some i
      else case child s (dinode_at s i) e of None \<Rightarrow> None | Some j \<Rightarrow> target parent s es j)"
  by (auto simp: target_def resolve_parent_def split: option.splits)

section \<open>Holding references\<close>

definition same_disk :: "'a fs_scheme \<Rightarrow> 'a fs_scheme \<Rightarrow> bool" where
  "same_disk s s' \<longleftrightarrow> s' = s\<lparr>bufs := bufs s', icache := icache s'\<rparr>"

lemma same_diskD:
  assumes "same_disk s s'"
  shows "disk s' = disk s" "sb s' = sb s" "disk_blocks s' = disk_blocks s" "memory s' = memory s"
proof -
  have e: "s' = s\<lparr>bufs := bufs s', icache := icache s'\<rparr>" using assms by (simp add: same_disk_def)
  show "disk s' = disk s" "sb s' = sb s" "disk_blocks s' = disk_blocks s" "memory s' = memory s"
    by (subst e, simp)+
qed

lemma same_disk_refl [simp]: "same_disk s s"
  by (simp add: same_disk_def)

lemma same_disk_trans:
  assumes "same_disk s t" "same_disk t u"
  shows "same_disk s u"
proof -
  have "t = s\<lparr>bufs := bufs t, icache := icache t\<rparr>" "u = t\<lparr>bufs := bufs u, icache := icache u\<rparr>"
    using assms by (simp_all add: same_disk_def)
  then have "u = s\<lparr>bufs := bufs u, icache := icache u\<rparr>" by (cases s; cases t; cases u) simp
  then show ?thesis by (simp add: same_disk_def)
qed

lemma fs_step_same_disk: "fs_step H s s' \<Longrightarrow> disk s' = disk s \<Longrightarrow> same_disk s s'"
  unfolding fs_step_def same_disk_def by (cases s; cases s') simp

text \<open>
  \<open>r j\<close> references are held on slot \<open>j\<close> of the cache of inodes; a held slot stands for an inode of
  the disk and, once loaded, mirrors it.
\<close>

definition holding :: "u32 multiset \<Rightarrow> (nat \<Rightarrow> int) \<Rightarrow> 'a fs_scheme \<Rightarrow> bool" where
  "holding H r s \<longleftrightarrow> bcache_ok s H \<and> icache_ok (icache s) \<and>
     (\<forall>j < NINODE. sint (i_ref (icache s j)) = r j \<and>
       (0 < r j \<longrightarrow> i_dev (icache s j) = ROOTDEV \<and> i_inum (icache s j) < sb_ninodes (sb s) \<and>
          (i_valid (icache s j) \<noteq> 0 \<longrightarrow> copy_out (icache s j) = dinode_at s (i_inum (icache s j)))))"

text \<open>A step that keeps the disk, and the inode every slot in use stands for.\<close>

definition lookup_step :: "(nat \<Rightarrow> int) \<Rightarrow> 'a fs_scheme \<Rightarrow> 'a fs_scheme \<Rightarrow> bool" where
  "lookup_step r s s' \<longleftrightarrow> same_disk s s' \<and>
     (\<forall>j < NINODE. 0 < r j \<longrightarrow> i_inum (icache s' j) = i_inum (icache s j))"

lemma lookup_step_trans: "lookup_step r s t \<Longrightarrow> lookup_step r t u \<Longrightarrow> lookup_step r s u"
  unfolding lookup_step_def using same_disk_trans by auto

lemma lookup_step_weaken: "lookup_step r s t \<Longrightarrow> \<forall>j. r0 j \<le> r j \<Longrightarrow> lookup_step r0 s t"
  unfolding lookup_step_def by (meson order_less_le_trans)

lemma same_disk_dinode: "same_disk s s' \<Longrightarrow> dinode_at s' = dinode_at s"
  unfolding dinode_at_def by (intro ext) (simp only: same_diskD)

lemma same_disk_tree:
  assumes "same_disk s s'"
  shows "tree_ok s' = tree_ok s" "resolve s' es i = resolve s es i" "target parent s' es i = target parent s es i"
proof -
  have d: "disk s' = disk s" "sb s' = sb s" "disk_blocks s' = disk_blocks s" "dinode_at s' = dinode_at s"
    using same_diskD [OF assms] same_disk_dinode [OF assms] by simp_all
  show "tree_ok s' = tree_ok s" unfolding tree_ok_def dir_wf_def inodes_on_disk_def d ..
  show r: "resolve s' es i = resolve s es i" for es i
    by (induction es arbitrary: i) (simp_all add: child_def d split: option.split)
  show "target parent s' es i = target parent s es i"
    unfolding target_def resolve_parent_def r d ..
qed

lemma holding_slot:
  assumes "holding H r s" "ip < NINODE" "0 < r ip"
  shows "refers (icache s ip) ROOTDEV (i_inum (icache s ip))" "i_inum (icache s ip) < sb_ninodes (sb s)"
    "i_dev (icache s ip) = ROOTDEV" "0 < sint (i_ref (icache s ip))"
    "i_valid (icache s ip) \<noteq> 0 \<Longrightarrow> copy_out (icache s ip) = dinode_at s (i_inum (icache s ip))"
  using assms by (auto simp: holding_def refers_def)

lemma holding_cache_step:
  assumes "holding H r s" "cache_step H s s'" "disk s' = disk s"
  shows "holding H r s'" "lookup_step r s s'"
proof -
  show l: "lookup_step r s s'" 
    using fs_step_same_disk [OF cache_step_fs_step [OF assms(2)] assms(3)] assms(2) by (simp add: lookup_step_def)
  then have "dinode_at s' = dinode_at s" by (simp add: lookup_step_def same_disk_dinode)
  then show "holding H r s'" using assms cache_step_ok [OF assms(2)] unfolding holding_def by simp
qed

lemma icache_ok_nonneg:
  assumes "icache_ok c" "j < NINODE"
  shows "0 \<le> sint (i_ref (c j))"
proof -
  have "\<forall>i < NINODE. 0 \<le> sint (i_ref (c i))" using assms(1) unfolding icache_ok_def by (rule conjunct1)
  then show ?thesis using assms(2) by blast
qed

lemma holding_iget:
  assumes h: "holding H r s" and small: "\<And>j. j < NINODE \<Longrightarrow> r j < 2 ^ 31 - 1"
    and free: "j0 < NINODE" "r j0 = 0" and inum: "inum < sb_ninodes (sb s)"
  obtains ip s' where "iget ROOTDEV inum s = Inr (ip, s')" "ip < NINODE" "i_inum (icache s' ip) = inum"
    "holding H (r(ip := r ip + 1)) s'" "lookup_step r s s'"
proof -
  have ok: "icache_ok (icache s)" and r: "\<And>j. j < NINODE \<Longrightarrow> sint (i_ref (icache s j)) = r j"
    using h by (simp_all add: holding_def)
  have f0: "i_ref (icache s j0) = 0" using r [OF free(1)] free(2) by (simp add: signed_eq_0_iff)
  have small': "\<And>j. j < NINODE \<Longrightarrow> sint (i_ref (icache s j)) < 2 ^ 31 - 1" using small r by simp
  obtain ip s' where g: "iget ROOTDEV inum s = Inr (ip, s')" and slot: "0 < r ip \<Longrightarrow>
      i_inum (icache s ip) = inum \<and> i_valid (icache s' ip) = i_valid (icache s ip) \<and> copy_out (icache s' ip) = copy_out (icache s ip)"
    and fresh: "r ip = 0 \<Longrightarrow> i_valid (icache s' ip) = 0" and lt: "ip < NINODE"
  proof (cases rule: iget_cases [of s ROOTDEV inum])
    case (hit ip)
    have "0 < r ip" using hit(1,2) r by (simp add: refers_def)
    show thesis by (rule that [OF hit(3)]) (use hit \<open>0 < r ip\<close> in \<open>simp_all add: refers_def copy_out_def\<close>)
  next
    case (miss ip)
    have "r ip = 0" using miss(1,3) r by fastforce
    show thesis by (rule that [OF miss(5)]) (use miss \<open>r ip = 0\<close> in simp_all)
  next
    case full
    then show thesis using free(1) f0 by blast
  qed
  have io: "icache_ok (icache s')" "ip < NINODE" "refers (icache s' ip) ROOTDEV inum"
    "\<And>j. j \<noteq> ip \<Longrightarrow> icache s' j = icache s j" "s' = s\<lparr>icache := icache s'\<rparr>"
    "sint (i_ref (icache s' ip)) = sint (i_ref (icache s ip)) + 1"
    by (rule iget_ok [OF ok _ g]; (rule small')?; assumption)+
  obtain c where c: "s' = s\<lparr>icache := c\<rparr>" using io(5) by blast
  have st: "same_disk s s'" unfolding same_disk_def c by simp
  have "bcache_ok s' H" unfolding c using h by (simp add: holding_def)
  moreover have sb: "sb s' = sb s" and dn: "dinode_at s' = dinode_at s"
    using same_diskD [OF st] same_disk_dinode [OF st] by simp_all
  have ipi: "i_inum (icache s' ip) = inum" "i_dev (icache s' ip) = ROOTDEV" using io(3) by (simp_all add: refers_def)
  have nn: "0 \<le> r ip" using icache_ok_nonneg [OF ok lt] r [OF lt] by simp
  have "sint (i_ref (icache s' j)) = (r(ip := r ip + 1)) j \<and> (0 < (r(ip := r ip + 1)) j \<longrightarrow>
      i_dev (icache s' j) = ROOTDEV \<and> i_inum (icache s' j) < sb_ninodes (sb s') \<and>
      (i_valid (icache s' j) \<noteq> 0 \<longrightarrow> copy_out (icache s' j) = dinode_at s' (i_inum (icache s' j))))" if j: "j < NINODE" for j
  proof (cases "j = ip")
    case True
    have "copy_out (icache s' ip) = dinode_at s inum" if "i_valid (icache s' ip) \<noteq> 0"
    proof -
      have "0 < r ip" using fresh that nn by force
      from slot [OF this] holding_slot(5) [OF h lt this] that show ?thesis by simp
    qed
    then show ?thesis using True ipi inum io(6) r [OF lt] by (simp add: sb dn)
  next
    case False
    then show ?thesis using io(4) [OF False] h j by (simp add: holding_def sb dn)
  qed
  ultimately have "holding H (r(ip := r ip + 1)) s'" using io(1) unfolding holding_def by blast
  moreover have "lookup_step r s s'"
    unfolding lookup_step_def using st io(4) ipi slot by (metis)
  ultimately show thesis by (rule that [OF g lt ipi(1)])
qed

lemma holding_iput:
  assumes h: "holding H r s" and ip: "ip < NINODE" "0 < r ip"
  shows "holding H (r(ip := r ip - 1)) (iput ip s)" "lookup_step r s (iput ip s)"
proof -
  have ok: "icache_ok (icache s)" and r: "sint (i_ref (icache s ip)) = r ip"
    using h ip(1) by (simp_all add: holding_def)
  note io = iput_ok [OF ok ip(1), unfolded r, OF ip(2)]
  obtain c where c: "iput ip s = s\<lparr>icache := c\<rparr>" using io(6) by blast
  have st: "same_disk s (iput ip s)" unfolding same_disk_def c by simp
  have b: "bcache_ok (iput ip s) H" unfolding c using h by (simp add: holding_def)
  have keep: "i_inum (icache (iput ip s) ip) = i_inum (icache s ip)" "i_dev (icache (iput ip s) ip) = i_dev (icache s ip)"
    "copy_out (icache (iput ip s) ip) = copy_out (icache s ip)"
    by (simp_all add: iput_def upd_inode_def Let_def copy_out_def)
  show "lookup_step r s (iput ip s)"
    unfolding lookup_step_def using st io(5) keep(1) by metis
  have sb: "sb (iput ip s) = sb s" and dn: "dinode_at (iput ip s) = dinode_at s"
    using same_diskD [OF st] same_disk_dinode [OF st] by simp_all
  have r1: "sint (i_ref (icache (iput ip s) ip)) = r ip - 1"
    unfolding io(2) using sint_sub_1 [of "i_ref (icache s ip)"] r ip(2) by simp
  have "sint (i_ref (icache (iput ip s) j)) = (r(ip := r ip - 1)) j \<and> (0 < (r(ip := r ip - 1)) j \<longrightarrow>
      i_dev (icache (iput ip s) j) = ROOTDEV \<and> i_inum (icache (iput ip s) j) < sb_ninodes (sb (iput ip s)) \<and>
      (i_valid (icache (iput ip s) j) \<noteq> 0 \<longrightarrow>
        copy_out (icache (iput ip s) j) = dinode_at (iput ip s) (i_inum (icache (iput ip s) j))))" if j: "j < NINODE" for j
  proof (cases "j = ip")
    case True
    have "i_valid (icache s ip) \<noteq> 0" if "i_valid (icache (iput ip s) ip) \<noteq> 0" using io(3,4) that by metis
    then show ?thesis using True r1 keep holding_slot [OF h ip] by (simp add: sb dn)
  next
    case False
    then show ?thesis using io(5) [OF False] h j by (simp add: holding_def sb dn)
  qed
  then show "holding H (r(ip := r ip - 1)) (iput ip s)" using b io(1) unfolding holding_def by blast
qed

lemma holding_ilock:
  assumes h: "holding H r s" and H: "size H < NBUF" and ip: "ip < NINODE" "0 < r ip"
    and i: "i_inum (icache s ip) = i" "d_type (dinode_at s i) \<noteq> 0" and d: "inodes_on_disk s"
  obtains s' where "ilock (Some ip) s = Inr s'" "holding H r s'" "lookup_step r s s'"
    "i_inum (icache s' ip) = i" "copy_out (icache s' ip) = dinode_at s i"
proof (cases "i_valid (icache s ip) = 0")
  case False
  have "lookup_step r s s" by (simp add: lookup_step_def)
  moreover have "ilock (Some ip) s = Inr s" using False holding_slot(4) [OF h ip] by (simp add: ilock_def)
  ultimately show thesis using h holding_slot(5) [OF h ip False] i by (intro that [of s]) simp_all
next
  case True
  note hs = holding_slot [OF h ip]
  have "unat (inode_block (sb s) (i_inum (icache s ip))) < disk_blocks s" using d hs(2) by (simp add: inodes_on_disk_def)
  from ilock_ok [OF _ H hs(3,4) True this] h i
  obtain s' where l: "ilock (Some ip) s = Inr s'" "fs_step H s s'" "disk s' = disk s"
    "icache s' = (icache s)(ip := (copy_in (dinode_at s i) (icache s ip))\<lparr>i_valid := 1\<rparr>)"
    unfolding holding_def by auto
  have n: "i_inum (icache s' ip) = i" "copy_out (icache s' ip) = dinode_at s i" "i_dev (icache s' ip) = ROOTDEV"
    "i_ref (icache s' ip) = i_ref (icache s ip)"
    using i(1) hs(3) by (simp_all add: l(4) copy_in_def copy_out_def)
  have st: "same_disk s s'" by (rule fs_step_same_disk [OF l(2,3)])
  have sb: "sb s' = sb s" and dn: "dinode_at s' = dinode_at s"
    using same_diskD [OF st] same_disk_dinode [OF st] by simp_all
  have "icache_ok (icache s')"
    unfolding l(4)
  proof (rule icache_ok_upd)
    show "icache_ok (icache s)" using h by (simp add: holding_def)
    show "ip < NINODE" by (rule ip(1))
    show "0 \<le> sint (i_ref ((copy_in (dinode_at s i) (icache s ip))\<lparr>i_valid := 1\<rparr>))"
      using hs(4) by (simp add: copy_in_def)
    fix dv nm j assume "refers ((copy_in (dinode_at s i) (icache s ip))\<lparr>i_valid := 1\<rparr>) dv nm" "j < NINODE" "j \<noteq> ip"
    then show "\<not> refers (icache s j) dv nm"
      using icache_ok_unique [of "icache s" j ip dv nm] h ip(1) by (auto simp: refers_def copy_in_def holding_def)
  qed
  moreover have "sint (i_ref (icache s' j)) = r j \<and> (0 < r j \<longrightarrow>
      i_dev (icache s' j) = ROOTDEV \<and> i_inum (icache s' j) < sb_ninodes (sb s') \<and>
      (i_valid (icache s' j) \<noteq> 0 \<longrightarrow> copy_out (icache s' j) = dinode_at s' (i_inum (icache s' j))))" if j: "j < NINODE" for j
  proof (cases "j = ip")
    case True
    then show ?thesis using n hs(2) i(1) h ip unfolding holding_def by (simp add: sb dn)
  next
    case False
    then show ?thesis using h j by (simp add: holding_def sb dn l(4))
  qed
  ultimately have "holding H r s'" using fs_step_facts(1) [OF l(2)] unfolding holding_def by blast
  moreover have "lookup_step r s s'"
    unfolding lookup_step_def using st n(1) i(1) by (metis l(4) fun_upd_other)
  ultimately show thesis by (rule that [OF l(1) _ _ n(1,2)])
qed

lemma dir_wf_dir_ok:
  assumes "copy_out (icache s ip) = d" "dir_wf s d" "i_dev (icache s ip) = ROOTDEV"
  shows "dir_ok s ip" "i_addrs (icache s ip) = d_addrs d" "i_size (icache s ip) = d_size d" "i_type (icache s ip) = d_type d"
  using assms by (auto simp: dir_ok_def dir_wf_def readable_blocks_def copy_out_def)

section \<open>The walk\<close>

text \<open>
  One round of the walk in a directory \<open>ip\<close> that has been loaded: the child is looked up and
  referenced, then \<open>ip\<close> is given back.
\<close>

lemma walk_round:
  assumes h: "holding H (r0(ip := r0 ip + 1)) s" and H: "size H < NBUF" and ip: "ip < NINODE"
    and r0: "\<And>j. 0 \<le> r0 j \<and> r0 j < 2 ^ 31 - 3"
    and free: "a < NINODE" "b < NINODE" "a \<noteq> b" "r0 a = 0" "r0 b = 0"
    and t: "tree_ok s" and d: "copy_out (icache s ip) = dinode_at s i" "i < sb_ninodes (sb s)" "i_type (icache s ip) = T_DIR"
  shows "case dir_find (disk s) (d_addrs (dinode_at s i)) (cname name) 0 (unat (d_size (dinode_at s i)) div 16) of
      None \<Rightarrow> \<exists>s1. dirlookup ip name s = Inr (None, s1) \<and> lookup_step r0 s s1 \<and> holding H (r0(ip := r0 ip + 1)) s1
    | Some k \<Rightarrow> \<exists>nxt off s1. dirlookup ip name s = Inr (Some (nxt, off), s1) \<and> lookup_step r0 s (iput ip s1) \<and>
        nxt < NINODE \<and> iunlock (Some ip) s1 = Inr s1 \<and> holding H (r0(nxt := r0 nxt + 1)) (iput ip s1) \<and>
        i_inum (icache (iput ip s1) nxt) = ucast (slot_inum (disk s) (d_addrs (dinode_at s i)) k) \<and>
        d_type (dinode_at s (ucast (slot_inum (disk s) (d_addrs (dinode_at s i)) k))) \<noteq> 0"
proof -
  let ?d = "dinode_at s i" let ?r = "r0(ip := r0 ip + 1)"
  let ?F = "dir_find (disk s) (d_addrs ?d) (cname name) 0 (unat (d_size ?d) div 16)"
  have pos: "0 < ?r ip" using r0 [of ip] by simp
  have mono: "\<forall>j. r0 j \<le> ?r j" by simp
  have ty: "d_type ?d = T_DIR" using d(3) unfolding d(1) [symmetric] by (simp add: copy_out_def)
  then have wf: "dir_wf s ?d" using t d(2) by (simp add: tree_ok_def)
  note w = dir_wf_dir_ok [OF d(1) wf holding_slot(3) [OF h ip pos]]
  have bc: "bcache_ok s H" using h by (simp add: holding_def)
  obtain s1 where l: "cache_step H s s1" "disk s1 = disk s" "dirlookup ip name s = (case ?F of None \<Rightarrow> Inr (None, s1)
      | Some k \<Rightarrow> bindE (iget ROOTDEV (ucast (slot_inum (disk s) (d_addrs ?d) k)) s1) (\<lambda>(q, s2). Inr (Some (q, of_nat (16 * k)), s2)))"
    using dirlookup_spec [OF bc H w(1), of name] unfolding w(2,3) by blast
  note h1 = holding_cache_step [OF h l(1,2)]
  show ?thesis
  proof (cases ?F)
    case None
    then show ?thesis using l(3) h1(1) lookup_step_weaken [OF h1(2) mono] by simp
  next
    case (Some k)
    let ?i = "ucast (slot_inum (disk s) (d_addrs ?d) k) :: u32"
    have "k \<in> set [0..<unat (d_size ?d) div 16] \<and> slot_inum (disk s) (d_addrs ?d) k \<noteq> 0"
      using find_SomeD [OF Some [unfolded dir_find_def]] by blast
    then have i: "?i < sb_ninodes (sb s)" "d_type (dinode_at s ?i) \<noteq> 0" using wf unfolding dir_wf_def by auto
    obtain j0 where j0: "j0 < NINODE" "?r j0 = 0" using free by (cases "a = ip") auto
    have small: "?r j < 2 ^ 31 - 1" for j using r0 [of j] r0 [of ip] by simp
    have "?i < sb_ninodes (sb s1)" using i(1) l(1) by simp
    from holding_iget [OF h1(1) small j0 this]
    obtain nxt s2 where g: "iget ROOTDEV ?i s1 = Inr (nxt, s2)" "nxt < NINODE" "i_inum (icache s2 nxt) = ?i"
      "holding H (?r(nxt := ?r nxt + 1)) s2" "lookup_step ?r s1 s2" by metis
    have pos2: "0 < (?r(nxt := ?r nxt + 1)) ip" using r0 [of ip] by (cases "ip = nxt") auto
    note p = holding_iput [OF g(4) ip pos2]
    have e: "(?r(nxt := ?r nxt + 1))(ip := (?r(nxt := ?r nxt + 1)) ip - 1) = r0(nxt := r0 nxt + 1)"
      by (cases "nxt = ip") (auto simp: fun_eq_iff)
    have "\<not> sint (i_ref (icache s2 ip)) < 1" using holding_slot(4) [OF g(4) ip pos2] by simp
    then have u: "iunlock (Some ip) s2 = Inr s2" by (simp add: iunlock_def)
    have "\<forall>j. r0 j \<le> (?r(nxt := ?r nxt + 1)) j" by auto
    then have st: "lookup_step r0 s (iput ip s2)"
      using lookup_step_trans [OF lookup_step_trans [OF lookup_step_weaken [OF h1(2) mono] lookup_step_weaken [OF g(5) mono]]]
        lookup_step_weaken [OF p(2)] by blast
    have "0 < (?r(nxt := ?r nxt + 1)) nxt" using r0 [of nxt] by (cases "ip = nxt") auto
    then have "i_inum (icache (iput ip s2) nxt) = ?i" using p(2) g(2,3) by (simp add: lookup_step_def)
    then show ?thesis
      using Some l(3) g(1,2) u st i(2) p(1) [unfolded e] by (simp del: fun_upd_apply)
  qed
qed

lemma namex_loop_resolves:
  assumes H: "size H < NBUF" and r0: "\<And>j. 0 \<le> r0 j \<and> r0 j < 2 ^ 31 - 3"
    and free: "a < NINODE" "b < NINODE" "a \<noteq> b" "r0 a = 0" "r0 b = 0"
    and "tree_ok s" "holding H (r0(ip := r0 ip + 1)) s" "ip < NINODE" "i_inum (icache s ip) = i"
    "d_type (dinode_at s i) \<noteq> 0" "0 \<notin> set path"
  shows "\<exists>res name' s'. namex_loop parent ip path name s = Inr (res, name', s') \<and> lookup_step r0 s s' \<and>
    (case target parent s (path_elems path) i of
       None \<Rightarrow> res = None \<and> holding H r0 s'
     | Some t \<Rightarrow> \<exists>q. res = Some q \<and> q < NINODE \<and> i_inum (icache s' q) = t \<and> holding H (r0(q := r0 q + 1)) s' \<and>
         (parent \<longrightarrow> cname name' = take DIRSIZ (last (path_elems path)) \<and> copy_out (icache s' q) = dinode_at s t))"
  using assms(8-)
proof (induction "length path" arbitrary: ip path name s i rule: less_induct)
  case less
  note t = less.prems(1) and h = less.prems(2) and ip = less.prems(3) and i = less.prems(4,5)
  let ?r = "r0(ip := r0 ip + 1)"
  have pos: "0 < ?r ip" using r0 [of ip] by simp
  have mono: "\<forall>j. r0 j \<le> ?r j" by simp
  have ref: "lookup_step r0 x x" for x by (simp add: lookup_step_def)
  have unhold: "?r(ip := ?r ip - 1) = r0" by simp
  have give: "holding H r0 (iput ip x) \<and> lookup_step r0 x (iput ip x)" if "holding H ?r x" for x
    using holding_iput [OF that ip pos] lookup_step_weaken [OF _ mono] unfolding unhold by blast
  have unl: "iunlock (Some ip) x = Inr x" if "holding H ?r x" for x :: "'a fs_scheme"
    using holding_slot(4) [OF that ip pos] by (simp add: iunlock_def)
  note sk = skipelem_spec [OF less.prems(6), of name]
  show ?case
  proof (cases "skipelem path name")
    case None
    then have e: "path_elems path = []" using sk by simp
    show ?thesis
    proof (cases parent)
      case True
      then show ?thesis unfolding e target_Nil namex_loop.simps [of parent ip path name s] None
        using give [OF h] by simp
    next
      case False
      then show ?thesis unfolding e target_Nil namex_loop.simps [of parent ip path name s] None
        using h ip i ref by simp
    qed
  next
    case (Some pn)
    obtain rest name1 where pn: "pn = (rest, name1)" by fastforce
    obtain e where e: "path_elems path = e # path_elems rest" "cname name1 = take DIRSIZ e"
      "rest = [] \<longleftrightarrow> path_elems rest = []" "0 \<notin> set rest"
      using sk unfolding Some pn by auto
    have inodes: "inodes_on_disk s" using t by (simp add: tree_ok_def)
    obtain s1 where l: "ilock (Some ip) s = Inr s1" "holding H ?r s1" "lookup_step ?r s s1"
      "i_inum (icache s1 ip) = i" "copy_out (icache s1 ip) = dinode_at s i"
      by (rule holding_ilock [OF h H ip pos i inodes])
    note l3 = lookup_step_weaken [OF l(3) mono]
    then have sd: "same_disk s s1" by (simp add: lookup_step_def)
    note dn = same_disk_dinode [OF sd] and tr = same_disk_tree [OF sd]
    have ty: "i_type (icache s1 ip) = d_type (dinode_at s i)" unfolding l(5) [symmetric] by (simp add: copy_out_def)
    note unf = namex_loop.simps [of parent ip path name s, unfolded Some pn option.case prod.case l(1) bindE_Inr ty]
    consider (nodir) "d_type (dinode_at s i) \<noteq> T_DIR" | (stop) "d_type (dinode_at s i) = T_DIR" "parent" "rest = []"
      | (go) "d_type (dinode_at s i) = T_DIR" "\<not> (parent \<and> rest = [])" by blast
    then show ?thesis
    proof cases
      case nodir
      then show ?thesis unfolding unf e(1) target_Cons using unl [OF l(2)] give [OF l(2)] lookup_step_trans [OF l3]
        by auto
    next
      case stop
      then have "path_elems rest = []" using e(3) by simp
      then show ?thesis unfolding unf e(1) target_Cons using stop unl [OF l(2)] l ip l3 e(2) by simp
    next
      case go
      have t1: "tree_ok s1" using t tr(1) by simp
      have lt: "i < sb_ninodes (sb s1)" using holding_slot(2) [OF l(2) ip pos] l(4) by simp
      have c1: "copy_out (icache s1 ip) = dinode_at s1 i" using l(5) dn by simp
      have ty1: "i_type (icache s1 ip) = T_DIR" using ty go(1) by simp
      note wr = walk_round [OF l(2) H ip r0 free t1 c1 lt ty1, of name1, unfolded dn e(2)]
      have ch: "child s1 (dinode_at s i) e = child s (dinode_at s i) e" unfolding child_def same_diskD(1) [OF sd] ..
      have ne: "\<not> (parent \<and> path_elems rest = [])" using go(2) e(3) by blast
      have tg: "target parent s (path_elems path) i =
          (case child s (dinode_at s i) e of None \<Rightarrow> None | Some j \<Rightarrow> target parent s (path_elems rest) j)"
        unfolding e(1) target_Cons if_not_P [OF ne] using go(1) by simp
      have unf2: "namex_loop parent ip path name s = bindE (dirlookup ip name1 s1) (\<lambda>(found, s2).
          case found of
            None \<Rightarrow> bindE (iunlock (Some ip) s2) (\<lambda>s3. Inr (None, name1, iput ip s3))
          | Some (nxt, _) \<Rightarrow> bindE (iunlock (Some ip) s2) (\<lambda>s3. namex_loop parent nxt rest name1 (iput ip s3)))"
        unfolding unf if_not_P [OF go(2)] using go(1) by simp
      show ?thesis
      proof (cases "dir_find (disk s1) (d_addrs (dinode_at s i)) (take DIRSIZ e) 0 (unat (d_size (dinode_at s i)) div 16)")
        case None
        then have "child s (dinode_at s i) e = None" unfolding ch [symmetric] by (simp add: child_def)
        moreover obtain s2 where s2: "dirlookup ip name1 s1 = Inr (None, s2)" "lookup_step r0 s1 s2" "holding H ?r s2"
          using wr unfolding None by auto
        ultimately show ?thesis
          unfolding unf2 tg using unl [OF s2(3)] give [OF s2(3)] lookup_step_trans [OF l3 lookup_step_trans [OF s2(2)]]
          by simp
      next
        case (Some k)
        let ?j = "ucast (slot_inum (disk s1) (d_addrs (dinode_at s i)) k) :: u32"
        have c: "child s (dinode_at s i) e = Some ?j" unfolding ch [symmetric] using Some by (simp add: child_def)
        obtain nxt off s2 where s2: "dirlookup ip name1 s1 = Inr (Some (nxt, off), s2)" "lookup_step r0 s1 (iput ip s2)"
          "nxt < NINODE" "iunlock (Some ip) s2 = Inr s2" "holding H (r0(nxt := r0 nxt + 1)) (iput ip s2)"
          "i_inum (icache (iput ip s2) nxt) = ?j" "d_type (dinode_at s ?j) \<noteq> 0"
          using wr unfolding Some by auto
        let ?u = "iput ip s2"
        have sd2: "same_disk s ?u" using lookup_step_trans [OF l3 s2(2)] by (simp add: lookup_step_def)
        note tr2 = same_disk_tree [OF sd2] and dn2 = same_disk_dinode [OF sd2]
        have len: "length rest < length path" using skipelem_shorter \<open>skipelem path name = Some pn\<close> pn by blast
        have ty2: "d_type (dinode_at ?u ?j) \<noteq> 0" using s2(7) dn2 by simp
        have tu: "tree_ok ?u" using t tr2(1) by simp
        have go2: "namex_loop parent ip path name s = namex_loop parent nxt rest name1 ?u"
          unfolding unf2 s2(1) by (simp add: s2(4))
        have lst: "parent \<Longrightarrow> last (path_elems path) = last (path_elems rest)" using ne e(1) by simp
        show ?thesis
          using less.hyps [OF len tu s2(5,3,6) ty2 e(4), of name1] lookup_step_trans [OF lookup_step_trans [OF l3 s2(2)]]
          unfolding go2 tg c option.case tr2(3) dn2 by (auto simp: lst split: option.splits)
      qed
    qed
  qed
qed

section \<open>Properties of path lookup\<close>

lemma namex_resolves:
  assumes "size H < NBUF" and "tree_ok s" and h: "holding H r s" and r: "\<And>j. 0 \<le> r j \<and> r j < 2 ^ 31 - 3"
    and free: "a < NINODE" "b < NINODE" "a \<noteq> b" "r a = 0" "r b = 0" and "0 \<notin> set path"
  shows "\<exists>res name' s'. namex parent path name s = Inr (res, name', s') \<and> lookup_step r s s' \<and>
    (case target parent s (path_elems path) ROOTINO of
       None \<Rightarrow> res = None \<and> holding H r s'
     | Some t \<Rightarrow> \<exists>q. res = Some q \<and> q < NINODE \<and> i_inum (icache s' q) = t \<and> holding H (r(q := r q + 1)) s' \<and>
         (parent \<longrightarrow> cname name' = take DIRSIZ (last (path_elems path)) \<and> copy_out (icache s' q) = dinode_at s t))"
proof -
  have root: "ROOTINO < sb_ninodes (sb s)" "d_type (dinode_at s ROOTINO) \<noteq> 0" using assms(2) by (simp_all add: tree_ok_def)
  have "r j < 2 ^ 31 - 1" for j using r [of j] by simp
  from holding_iget [OF h this free(1,4) root(1)]
  obtain ip s1 where g: "iget ROOTDEV ROOTINO s = Inr (ip, s1)" "ip < NINODE" "i_inum (icache s1 ip) = ROOTINO"
    "holding H (r(ip := r ip + 1)) s1" "lookup_step r s s1" by metis
  have sd: "same_disk s s1" using g(5) by (simp add: lookup_step_def)
  note tr = same_disk_tree [OF sd] and dn = same_disk_dinode [OF sd]
  have t1: "tree_ok s1" "d_type (dinode_at s1 ROOTINO) \<noteq> 0" using assms(2) root(2) tr(1) dn by simp_all
  have unf: "namex parent path name s = namex_loop parent ip path name s1" by (simp add: namex_def g(1))
  show ?thesis
    using namex_loop_resolves [OF assms(1) r free t1(1) g(4,2,3) t1(2) assms(10), of parent name] lookup_step_trans [OF g(5)]
    unfolding unf tr(3) dn by blast
qed

text \<open>
  C6: On a well-formed tree \<open>namei\<close> returns an inode for exactly the paths that resolve on the
  disk, the null pointer for the others, and never panics; it changes no block and no other
  holder's inode, keeps one reference on the inode it returns and gives back every other one it
  took.  It needs a buffer that nobody holds and two free places in the inode cache, for a directory
  and the component it looks at.
\<close>

theorem namei_resolves:
  assumes "size H < NBUF" and "tree_ok s" and "holding H r s" and "\<And>j. 0 \<le> r j \<and> r j < 2 ^ 31 - 3"
    and "a < NINODE" "b < NINODE" "a \<noteq> b" "r a = 0" "r b = 0" and "0 \<notin> set path"
  shows "case resolve s (path_elems path) ROOTINO of
      None \<Rightarrow> \<exists>s'. namei path s = Inr (None, s') \<and> holding H r s' \<and> lookup_step r s s'
    | Some i \<Rightarrow> \<exists>q s'. namei path s = Inr (Some q, s') \<and> q < NINODE \<and> i_inum (icache s' q) = i \<and>
        holding H (r(q := r q + 1)) s' \<and> lookup_step r s s'"
  using namex_resolves [OF assms, of False "\<lambda>_. 0"]
  by (auto simp: namei_def target_def split: option.splits)

text \<open>
  \<open>nameiparent\<close> returns the directory that holds, or would hold, the last component, loaded,
  with that component's name in the buffer; it returns the null pointer when the path has no
  component or some earlier one is missing or not a directory, and then keeps no reference.
\<close>

theorem nameiparent_resolves:
  assumes "size H < NBUF" and "tree_ok s" and "holding H r s" and "\<And>j. 0 \<le> r j \<and> r j < 2 ^ 31 - 3"
    and "a < NINODE" "b < NINODE" "a \<noteq> b" "r a = 0" "r b = 0" and "0 \<notin> set path"
  shows "case resolve_parent s (path_elems path) ROOTINO of
      None \<Rightarrow> \<exists>name' s'. nameiparent path name s = Inr (None, name', s') \<and> holding H r s' \<and> lookup_step r s s'
    | Some i \<Rightarrow> \<exists>q name' s'. nameiparent path name s = Inr (Some q, name', s') \<and> q < NINODE \<and>
        i_inum (icache s' q) = i \<and> copy_out (icache s' q) = dinode_at s i \<and> d_type (dinode_at s i) = T_DIR \<and>
        cname name' = take DIRSIZ (last (path_elems path)) \<and>
        holding H (r(q := r q + 1)) s' \<and> lookup_step r s s'"
proof -
  have "d_type (dinode_at s i) = T_DIR" if "resolve_parent s (path_elems path) ROOTINO = Some i" for i
    using that by (auto simp: resolve_parent_def split: if_splits option.splits)
  then show ?thesis
    using namex_resolves [OF assms, of True name]
    by (auto simp: nameiparent_def target_def split: option.splits)
qed

section \<open>The demonstration disk\<close>

lemma demo_inode_type:
  assumes "unat i < 16"
  shows "inode_block demo_sb i = 3" "d_type (dinode_at demo_fs i) = (if i = 1 then T_DIR else if i = 2 then T_FILE else 0)"
proof -
  have "i div 16 = 0" using assms by (intro unat_eqD) (simp add: unat_div32)
  then show b: "inode_block demo_sb i = 3" by (simp add: inode_block_def demo_fs_sel)
  have o: "inode_off i = 64 * unat i" using assms by (simp add: inode_off_def unat_mod32)
  have three: "demo_disk 3 = put_le 4 (put_le 4 (put_le 2 (put_le 2 (\<lambda>_. 0) 128 T_FILE) 64 T_DIR) 72 (16 :: u32)) 76 (4 :: u32)"
    by (simp add: demo_disk_def)
  have t: "d_type (dinode_at demo_fs i) = get_le 2 (demo_disk 3) (64 * unat i)"
    by (simp add: dinode_at_def dinode_of_def demo_fs_sel b o)
  consider "unat i = 1" | "unat i = 2" | "unat i \<noteq> 1" "unat i \<noteq> 2" by blast
  then show "d_type (dinode_at demo_fs i) = (if i = 1 then T_DIR else if i = 2 then T_FILE else 0)"
  proof cases
    case 1
    then have "i = 1" by (simp add: word_unat_eq_iff)
    then show ?thesis unfolding t three by (simp add: get_put_le_same get_put_le_other)
  next
    case 2
    then have "i = 2" by (simp add: word_unat_eq_iff)
    then show ?thesis unfolding t three by (simp add: get_put_le_same get_put_le_other)
  next
    case 3
    then have "i \<noteq> 1" "i \<noteq> 2" by auto
    have "get_le 2 (demo_disk 3) (64 * unat i) = (0 :: u16)"
      unfolding three by (subst get_put_le_other, use 3 in linarith)+ simp
    then show ?thesis using \<open>i \<noteq> 1\<close> \<open>i \<noteq> 2\<close> unfolding t by simp
  qed
qed

lemma demo_root_dir: "d_size (dinode_at demo_fs 1) = 16" "d_addrs (dinode_at demo_fs 1) 0 = 4"
    "slot_inum demo_disk (d_addrs (dinode_at demo_fs 1)) 0 = 2"
    "slot_name demo_disk (d_addrs (dinode_at demo_fs 1)) 0 = [0x61]"
proof -
  have b: "inode_block demo_sb 1 = 3" using demo_inode_type(1) [of 1] by simp
  have three: "demo_disk 3 = put_le 4 (put_le 4 (put_le 2 (put_le 2 (\<lambda>_. 0) 128 T_FILE) 64 T_DIR) 72 (16 :: u32)) 76 (4 :: u32)"
    by (simp add: demo_disk_def)
  show "d_size (dinode_at demo_fs 1) = 16" and a: "d_addrs (dinode_at demo_fs 1) 0 = 4"
    by (simp_all add: dinode_at_def dinode_of_def demo_fs_sel b inode_off_def three get_put_le_same get_put_le_other)
  have f: "fbyte demo_disk (d_addrs (dinode_at demo_fs 1)) i = put_le 2 ((\<lambda>_. 0)(2 := 0x61)) 0 (2 :: u16) i" if "i < 1024" for i
    using that a by (simp add: fbyte_def fblock_def NDIRECT_def demo_disk_def)
  have "slot_inum demo_disk (d_addrs (dinode_at demo_fs 1)) 0 = get_le 2 (put_le 2 ((\<lambda>_. 0)(2 := 0x61)) 0 (2 :: u16)) 0"
    unfolding slot_inum_def get_le_def by (intro of_le_cong) (simp add: f)
  then show "slot_inum demo_disk (d_addrs (dinode_at demo_fs 1)) 0 = 2" by (simp add: get_put_le_same)
  show "slot_name demo_disk (d_addrs (dinode_at demo_fs 1)) 0 = [0x61]"
  proof -
    have "[0..<DIRSIZ] = 0 # 1 # [2..<14]" by (simp add: DIRSIZ_def upt_conv_Cons)
    then show ?thesis by (simp add: slot_name_def cname_def f put_le_def)
  qed
qed

lemma demo_tree: "tree_ok demo_fs"
proof -
  let ?d = "dinode_at demo_fs 1"
  have sz: "unat (d_size ?d) = 16" "blocks_for 16 = 1" "16 div 16 = (1 :: nat)"
    by (simp_all add: demo_root_dir blocks_for_def)
  have fb: "fblock demo_disk (d_addrs ?d) 0 = 4" by (simp add: fblock_def NDIRECT_def demo_root_dir)
  have two: "d_type (dinode_at demo_fs 2) \<noteq> 0" "ucast (2 :: u16) = (2 :: u32)"
    using demo_inode_type(2) [of 2] by (simp_all add: T_FILE_def)
  have "dir_wf demo_fs ?d"
    unfolding dir_wf_def sz demo_fs_sel
  proof (intro conjI allI impI)
    show "fblock demo_disk (d_addrs ?d) bn \<noteq> 0" "unat (fblock demo_disk (d_addrs ?d) bn) < 1000" if "bn < 1" for bn
      using that fb by simp_all
    show "ucast (slot_inum demo_disk (d_addrs ?d) k) < (16 :: u32)"
      "d_type (dinode_at demo_fs (ucast (slot_inum demo_disk (d_addrs ?d) k))) \<noteq> 0" if "k < 1" for k
      using that two demo_root_dir(3) by (simp_all only: less_one) simp_all
  qed (simp_all add: NDIRECT_def)
  moreover have "i = 1" if "i < 16" "d_type (dinode_at demo_fs i) = T_DIR" for i
  proof (rule ccontr)
    assume "i \<noteq> 1"
    moreover have "unat i < 16" using that(1) by (simp add: word_less_nat_alt)
    ultimately have "d_type (dinode_at demo_fs i) = (if i = 2 then T_FILE else 0)" using demo_inode_type(2) [of i] by simp
    moreover have "T_FILE \<noteq> T_DIR" "0 \<noteq> T_DIR" by (simp_all add: T_FILE_def T_DIR_def)
    ultimately show False using that(2) by (metis (full_types))
  qed
  ultimately have "\<forall>i. i < 16 \<longrightarrow> d_type (dinode_at demo_fs i) = T_DIR \<longrightarrow> dir_wf demo_fs (dinode_at demo_fs i)"
    by blast
  moreover have "d_type (dinode_at demo_fs 1) \<noteq> 0" using demo_inode_type(2) [of 1] by (simp add: T_DIR_def)
  ultimately show ?thesis unfolding tree_ok_def demo_fs_sel ROOTINO_def by (intro conjI demo_inodes) simp_all
qed

lemma demo_holding: "holding {#} (\<lambda>_. 0) demo_fs"
  using demo_fs_cache demo_icache_ok by (simp add: holding_def demo_icache)

theorem namei_resolves_witness:
  "\<exists>q s'. namei [slash, 0x61] demo_fs = Inr (Some q, s') \<and> i_inum (icache s' q) = 2"
proof -
  have e: "path_elems [slash, 0x61] = [[0x61]]" by (simp add: path_elems_def slash_def)
  have n: "unat (d_size (dinode_at demo_fs 1)) div 16 = 1" by (simp add: demo_root_dir)
  have "child demo_fs (dinode_at demo_fs 1) [0x61] = Some 2"
    unfolding child_def n demo_fs_sel dir_find_def by (simp add: demo_root_dir DIRSIZ_def)
  moreover have "d_type (dinode_at demo_fs 1) = T_DIR" using demo_inode_type(2) [of 1] by simp
  ultimately have "resolve demo_fs (path_elems [slash, 0x61]) ROOTINO = Some 2"
    unfolding e ROOTINO_def by simp
  moreover have "0 \<notin> set [slash, 0x61]" "size ({#} :: u32 multiset) < NBUF" by (simp_all add: slash_def)
  ultimately show ?thesis
    using namei_resolves [OF _ demo_tree demo_holding, of 0 1 "[slash, 0x61]"] by auto
qed

theorem nameiparent_resolves_witness:
  "\<exists>q name' s'. nameiparent [slash, 0x62] (\<lambda>_. 0) demo_fs = Inr (Some q, name', s') \<and> i_inum (icache s' q) = 1 \<and>
     cname name' = [0x62]"
proof -
  have e: "path_elems [slash, 0x62] = [[0x62]]" by (simp add: path_elems_def slash_def)
  have "resolve_parent demo_fs [[0x62]] ROOTINO = Some 1"
    using demo_inode_type(2) [of 1] by (simp add: resolve_parent_def ROOTINO_def)
  moreover have "0 \<notin> set [slash, 0x62]" "size ({#} :: u32 multiset) < NBUF" by (simp_all add: slash_def)
  ultimately show ?thesis
    using nameiparent_resolves [OF _ demo_tree demo_holding, of 0 1 "[slash, 0x62]" "\<lambda>_. 0"] unfolding e
    by (auto simp: DIRSIZ_def)
qed

end
