(* ===== verification/File.thy ===== *)
theory File
  imports Path
begin

text \<open>
  Open files, \<open>kernel/fs/file.c\<close>: the table of \<open>struct file\<close> objects with their reference counts,
  and reading and writing at the file's own offset.  A \<open>struct file *\<close> is an index into the
  table.  User buffers are in \<open>memory\<close>, at the address the caller passes.
\<close>

section \<open>The table of open files\<close>

definition FD_NONE :: i32 where "FD_NONE = 0"
definition FD_INODE :: i32 where "FD_INODE = 1"

record file_obj =
  f_type :: i32
  f_ref :: i32
  f_readable :: u8
  f_writable :: u8
  f_ip :: "nat option"
  f_off :: u32

record files = fs +
  ftable :: "nat \<Rightarrow> file_obj"

definition upd_file :: "nat \<Rightarrow> (file_obj \<Rightarrow> file_obj) \<Rightarrow> 'a files_scheme \<Rightarrow> 'a files_scheme" where
  "upd_file f g s = s\<lparr>ftable := (ftable s)(f := g (ftable s f))\<rparr>"

lemma upd_file_sel [simp]:
  "ftable (upd_file f g s) f = g (ftable s f)" "j \<noteq> f \<Longrightarrow> ftable (upd_file f g s) j = ftable s j"
  "icache (upd_file f g s) = icache s" "disk (upd_file f g s) = disk s" "bufs (upd_file f g s) = bufs s"
  "sb (upd_file f g s) = sb s" "disk_blocks (upd_file f g s) = disk_blocks s" "memory (upd_file f g s) = memory s"
  by (simp_all add: upd_file_def)

definition filealloc :: "'a files_scheme \<Rightarrow> nat option \<times> 'a files_scheme" where
  "filealloc s =
     (case find (\<lambda>i. f_ref (ftable s i) = 0) [0..<NFILE] of
        None \<Rightarrow> (None, s)
      | Some i \<Rightarrow> (Some i, upd_file i (\<lambda>f. f\<lparr>f_ref := 1\<rparr>) s))"

definition filedup :: "nat \<Rightarrow> 'a files_scheme \<Rightarrow> (nat \<times> 'a files_scheme) res" where
  "filedup f s =
     (if sint (f_ref (ftable s f)) < 1 then Inl (Panic ''filedup'')
      else Inr (f, upd_file f (\<lambda>x. x\<lparr>f_ref := f_ref x + 1\<rparr>) s))"

definition fileclose :: "nat \<Rightarrow> 'a files_scheme \<Rightarrow> 'a files_scheme res" where
  "fileclose f s =
     (if sint (f_ref (ftable s f)) < 1 then Inl (Panic ''fileclose'')
      else
        let s1 = upd_file f (\<lambda>x. x\<lparr>f_ref := f_ref x - 1\<rparr>) s in
        if 0 < sint (f_ref (ftable s1 f)) then Inr s1
        else
          let ip = f_ip (ftable s1 f);
              s2 = upd_file f (\<lambda>x. x\<lparr>f_type := FD_NONE, f_ip := None, f_off := 0, f_readable := 0, f_writable := 0\<rparr>) s1
          in Inr (case ip of None \<Rightarrow> s2 | Some ip \<Rightarrow> iput ip s2))"

section \<open>Reading and writing\<close>

text \<open>Bytes of memory as an array indexed from an address, and back.\<close>

definition buf_at :: "mem \<Rightarrow> u64 \<Rightarrow> block" where
  "buf_at m addr = (\<lambda>i. m (addr + of_nat i))"

definition put_buf :: "mem \<Rightarrow> u64 \<Rightarrow> nat \<Rightarrow> block \<Rightarrow> mem" where
  "put_buf m addr n d = (\<lambda>a. if unat (a - addr) < n then d (unat (a - addr)) else m a)"

lemma put_buf_inside: "i < n \<Longrightarrow> n \<le> 2 ^ 64 \<Longrightarrow> put_buf m addr n d (addr + of_nat i) = d i"
  by (simp add: put_buf_def unat_of_nat64)

lemma put_buf_outside: "n \<le> unat (a - addr) \<Longrightarrow> put_buf m addr n d a = m a"
  by (simp add: put_buf_def)

definition fileread :: "nat \<Rightarrow> u64 \<Rightarrow> i32 \<Rightarrow> 'a files_scheme \<Rightarrow> (i32 \<times> 'a files_scheme) res" where
  "fileread f addr n s =
     (if f_readable (ftable s f) = 0 then Inr (-1, s)
      else case f_ip (ftable s f) of
          None \<Rightarrow> Inl (Panic ''ilock'')
        | Some ip \<Rightarrow>
            bindE (ilock (Some ip) s) (\<lambda>s1.
            bindE (readi ip (buf_at (memory s1) addr) (f_off (ftable s1 f)) n s1) (\<lambda>(r, dst, s2).
              let s3 = s2\<lparr>memory := put_buf (memory s2) addr (unat r) dst\<rparr>;
                  s4 = (if 0 < sint r then upd_file f (\<lambda>x. x\<lparr>f_off := f_off x + r\<rparr>) s3 else s3)
              in bindE (iunlock (Some ip) s4) (\<lambda>s5. Inr (r, s5)))))"

definition filewrite :: "nat \<Rightarrow> u64 \<Rightarrow> i32 \<Rightarrow> 'a files_scheme \<Rightarrow> (i32 \<times> 'a files_scheme) res" where
  "filewrite f addr n s =
     (if f_writable (ftable s f) = 0 then Inr (-1, s)
      else case f_ip (ftable s f) of
          None \<Rightarrow> Inl (Panic ''ilock'')
        | Some ip \<Rightarrow>
            bindE (ilock (Some ip) s) (\<lambda>s1.
            bindE (writei ip (buf_at (memory s1) addr) (f_off (ftable s1 f)) n s1) (\<lambda>(r, s2).
              let s3 = (if 0 < sint r then upd_file f (\<lambda>x. x\<lparr>f_off := f_off x + r\<rparr>) s2 else s2)
              in bindE (iunlock (Some ip) s3) (\<lambda>s4. Inr (r, s4)))))"

section \<open>Reference counts\<close>

text \<open>
  The references open files hold on slot \<open>ip\<close> of the cache of inodes: one for each file in use,
  however many descriptors share it.
\<close>

definition opens :: "(nat \<Rightarrow> file_obj) \<Rightarrow> nat \<Rightarrow> nat" where
  "opens ft ip = card {f. f < NFILE \<and> 0 < sint (f_ref (ft f)) \<and> f_ip (ft f) = Some ip}"

text \<open>
  Every file in use stands for an inode slot, no count is negative, and the references on the
  inode slots are those of the files and \<open>r\<close> others.
\<close>

definition ftable_ok :: "u32 multiset \<Rightarrow> (nat \<Rightarrow> int) \<Rightarrow> 'a files_scheme \<Rightarrow> bool" where
  "ftable_ok H r s \<longleftrightarrow> holding H (\<lambda>ip. int (opens (ftable s) ip) + r ip) s \<and>
     (\<forall>f < NFILE. 0 \<le> sint (f_ref (ftable s f)) \<and>
        (\<forall>ip. f_ip (ftable s f) = Some ip \<longrightarrow> ip < NINODE)) \<and> (\<forall>ip. 0 \<le> r ip)"

lemma opens_upd:
  assumes "f < NFILE" and "0 < sint (f_ref (ft f)) \<and> f_ip (ft f) = Some ip"
    and "\<not> (0 < sint (f_ref g) \<and> f_ip g = Some ip)"
  shows "opens ft ip = Suc (opens (ft(f := g)) ip)"
proof -
  let ?A = "\<lambda>t. {x. x < NFILE \<and> 0 < sint (f_ref (t x)) \<and> f_ip (t x) = Some ip}"
  have "?A ft = insert f (?A (ft(f := g)))" using assms by auto
  moreover have "f \<notin> ?A (ft(f := g))" using assms(3) by simp
  moreover have "finite (?A (ft(f := g)))" by (rule finite_subset [of _ "{..<NFILE}"]) auto
  ultimately show ?thesis unfolding opens_def by (metis (no_types, lifting) card_insert_disjoint)
qed

lemma opens_same:
  assumes "0 < sint (f_ref (ft f)) \<and> f_ip (ft f) = Some ip \<longleftrightarrow> 0 < sint (f_ref g) \<and> f_ip g = Some ip"
  shows "opens (ft(f := g)) ip = opens ft ip"
  unfolding opens_def by (rule arg_cong [where f = card]) (use assms in \<open>auto simp: fun_upd_def\<close>)

lemma holding_files [simp]: "holding H r (upd_file f g s) = holding H r s"
  unfolding holding_def dinode_at_def bcache_ok_def upd_file_def by simp

lemma ftable_okD:
  assumes "ftable_ok H r s"
  shows "holding H (\<lambda>ip. int (opens (ftable s) ip) + r ip) s" "\<And>ip. 0 \<le> r ip"
    "\<And>f. f < NFILE \<Longrightarrow> 0 \<le> sint (f_ref (ftable s f))"
    "\<And>f ip. f < NFILE \<Longrightarrow> f_ip (ftable s f) = Some ip \<Longrightarrow> ip < NINODE"
  using assms unfolding ftable_ok_def by blast+

lemma opens_pos:
  assumes "f < NFILE" "0 < sint (f_ref (ft f))" "f_ip (ft f) = Some ip"
  shows "0 < opens ft ip"
  using opens_upd [of f ft ip "(ft f)\<lparr>f_ip := None\<rparr>"] assms by simp

text \<open>
  C34: \<open>fileclose\<close> takes one reference off an open file and never panics on one.  Only the last
  close empties the slot and gives back the file's inode reference: after it the references on
  every inode slot are again exactly those of the files still open and of the other holders.
\<close>

theorem fileclose_balances:
  assumes "ftable_ok H r s" and "f < NFILE" and "0 < sint (f_ref (ftable s f))"
  shows "\<exists>s'. fileclose f s = Inr s' \<and> ftable_ok H r s' \<and> disk s' = disk s \<and>
    sint (f_ref (ftable s' f)) = sint (f_ref (ftable s f)) - 1 \<and>
    (if f_ref (ftable s f) = 1 then f_ip (ftable s' f) = None \<and> f_type (ftable s' f) = FD_NONE
     else icache s' = icache s \<and> f_ip (ftable s' f) = f_ip (ftable s f)) \<and>
    (\<forall>j. j \<noteq> f \<longrightarrow> ftable s' j = ftable s j)"
proof -
  let ?ft = "ftable s" let ?x = "?ft f"
  let ?r = "\<lambda>ip. int (opens ?ft ip) + r ip"
  note ok = ftable_okD [OF assms(1)]
  have dec: "sint (f_ref ?x - 1) = sint (f_ref ?x) - 1" by (rule sint_sub_1 [OF assms(3)])
  have nlt: "\<not> sint (f_ref ?x) < 1" using assms(3) by simp
  let ?s1 = "upd_file f (\<lambda>x. x\<lparr>f_ref := f_ref x - 1\<rparr>) s"
  have one: "0 < sint (f_ref ?x - 1) \<longleftrightarrow> f_ref ?x \<noteq> 1"
  proof -
    have "f_ref ?x = 1" if "sint (f_ref ?x) = 1" using that by (simp add: word_eq_iff_signed [where ?'a = int])
    moreover have "sint (1 :: i32) = 1" by simp
    ultimately have "sint (f_ref ?x) = 1 \<longleftrightarrow> f_ref ?x = 1" by metis
    then show ?thesis using dec assms(3) by auto
  qed
  show ?thesis
  proof (cases "f_ref ?x = 1")
    case False
    then have e: "fileclose f s = Inr ?s1" using nlt one by (simp add: fileclose_def Let_def)
    have "opens (ftable ?s1) ip = opens ?ft ip" for ip
      unfolding upd_file_def using assms(3) one False by (simp add: opens_same)
    then have "ftable_ok H r ?s1"
      using ok(1-4) dec one False unfolding ftable_ok_def holding_files
      by (auto simp: upd_file_def)
    then show ?thesis using e dec False by simp
  next
    case True
    let ?g = "\<lambda>x. x\<lparr>f_type := FD_NONE, f_ip := None, f_off := 0, f_readable := 0, f_writable := 0\<rparr>"
    let ?s2 = "upd_file f ?g ?s1"
    have ft2: "ftable ?s2 = ?ft(f := ?g (?x\<lparr>f_ref := f_ref ?x - 1\<rparr>))" by (simp add: upd_file_def)
    have z: "f_ref (ftable ?s2 f) = 0" using True by simp
    show ?thesis
    proof (cases "f_ip ?x")
      case None
      have e: "fileclose f s = Inr ?s2" using True None by (simp add: fileclose_def Let_def)
      have "opens (ftable ?s2) ip = opens ?ft ip" for ip
        unfolding ft2 by (rule opens_same) (simp add: None)
      then have "ftable_ok H r ?s2"
        using ok(1-4) z unfolding ftable_ok_def holding_files by (auto simp: upd_file_def)
      then show ?thesis using e z True by simp
    next
      case (Some ip)
      have ip: "ip < NINODE" by (rule ok(4) [OF assms(2) Some])
      have pos: "0 < ?r ip" using opens_pos [of f ?ft ip] assms(2,3) Some ok(2) [of ip] by simp
      have e: "fileclose f s = Inr (iput ip ?s2)" using True Some by (simp add: fileclose_def Let_def)
      have "opens ?ft ip = Suc (opens (ftable ?s2) ip)"
        unfolding ft2 by (rule opens_upd) (use assms(2,3) Some in simp_all)
      moreover have "opens (ftable ?s2) jp = opens ?ft jp" if "jp \<noteq> ip" for jp
        unfolding ft2 by (rule opens_same) (use that Some in simp)
      ultimately have r: "?r(ip := ?r ip - 1) = (\<lambda>jp. int (opens (ftable ?s2) jp) + r jp)"
        by (intro ext) (auto simp del: upd_file_sel)
      have h2: "holding H ?r ?s2" using ok(1) by simp
      note p = holding_iput [OF h2 ip pos, unfolded r]
      have ft: "ftable (iput ip ?s2) = ftable ?s2" by (simp add: iput_def upd_inode_def Let_def)
      have "ftable_ok H r (iput ip ?s2)"
        unfolding ftable_ok_def ft using p(1) ok(2-4) z by (auto simp: upd_file_def)
      moreover have "disk (iput ip ?s2) = disk s" by (simp add: iput_def Let_def)
      ultimately show ?thesis using e z True by (simp add: ft)
    qed
  qed
qed

section \<open>Reading at the offset\<close>

text \<open>The content of an inode of the disk, and when all of it can be read.\<close>

definition inode_bytes :: "'a fs_scheme \<Rightarrow> dinode \<Rightarrow> u8 list" where
  "inode_bytes s d = map (fbyte (disk s) (d_addrs d)) [0..<unat (d_size d)]"

definition whole :: "'a fs_scheme \<Rightarrow> dinode \<Rightarrow> bool" where
  "whole s d \<longleftrightarrow> blocks_for (unat (d_size d)) \<le> 268 \<and>
     (\<forall>bn < blocks_for (unat (d_size d)). fblock (disk s) (d_addrs d) bn \<noteq> 0 \<and>
        unat (fblock (disk s) (d_addrs d) bn) < disk_blocks s) \<and>
     (NDIRECT < blocks_for (unat (d_size d)) \<longrightarrow> unat (d_addrs d NDIRECT) < disk_blocks s)"

lemma read_count_small: "blocks_for (unat sz) \<le> 268 \<Longrightarrow> read_count sz off n \<le> 274432"
  using blocks_for_bound(1) [of "unat sz"] by (auto simp: read_count_def)

lemma small_int: "k \<le> 274432 \<Longrightarrow> sint (of_nat k :: i32) = int k" "k \<le> 274432 \<Longrightarrow> unat (of_nat k :: i32) = k"
  by (simp_all add: signed_of_nat signed_take_bit_int_eq_self unat_of_nat32)

lemma same_disk_ftable: "same_disk s s' \<Longrightarrow> ftable s' = ftable (s :: 'a files_scheme)"
  unfolding same_disk_def by (cases s; cases s') simp

lemma ftable_ok_same:
  assumes "ftable_ok H r s" "holding H (\<lambda>ip. int (opens (ftable s) ip) + r ip) t" "ftable t = ftable s"
  shows "ftable_ok H r t"
  using assms unfolding ftable_ok_def by simp

lemma ftable_ok_off:
  assumes "ftable_ok H r s"
  shows "ftable_ok H r (upd_file f (\<lambda>x. x\<lparr>f_off := o'\<rparr>) s)"
proof -
  have "opens (ftable (upd_file f (\<lambda>x. x\<lparr>f_off := o'\<rparr>) s)) ip = opens (ftable s) ip" for ip
    unfolding upd_file_def by (simp add: opens_same)
  then show ?thesis using assms unfolding ftable_ok_def holding_files by (auto simp: upd_file_def)
qed

lemma holding_memory [simp]: "holding H r (s\<lparr>memory := m\<rparr>) = holding H r s"
  unfolding holding_def dinode_at_def bcache_ok_def by simp

text \<open>
  C33: A read from an open file returns the next bytes of its inode: as many as are asked for and
  left after the offset, placed at the caller's address and nowhere else; the offset moves by
  that count, so the next read continues there, and no reference or block changes.
\<close>

theorem fileread_next_bytes:
  assumes "ftable_ok H r s" and "size H < NBUF" and "f < NFILE" and "0 < sint (f_ref (ftable s f))"
    and "f_ip (ftable s f) = Some ip" and "f_readable (ftable s f) \<noteq> 0" and "inodes_on_disk s"
    and "d = dinode_at s (i_inum (icache s ip))" and "d_type d \<noteq> 0" and "whole s d"
    and "k = read_count (d_size d) (f_off (ftable s f)) n"
  shows "\<exists>s'. fileread f addr n s = Inr (of_nat k, s') \<and>
    (\<forall>i < k. memory s' (addr + of_nat i) = inode_bytes s d ! (unat (f_off (ftable s f)) + i)) \<and>
    (\<forall>a. k \<le> unat (a - addr) \<longrightarrow> memory s' a = memory s a) \<and>
    ftable s' = (ftable s)(f := (ftable s f)\<lparr>f_off := f_off (ftable s f) + of_nat k\<rparr>) \<and>
    ftable_ok H r s' \<and> disk s' = disk s"
proof -
  let ?r = "\<lambda>ip. int (opens (ftable s) ip) + r ip" let ?off = "f_off (ftable s f)"
  note ok = ftable_okD [OF assms(1)]
  have ip: "ip < NINODE" by (rule ok(4) [OF assms(3,5)])
  have pos: "0 < ?r ip" using opens_pos [of f "ftable s", OF assms(3,4,5)] ok(2) [of ip] by simp
  obtain s1 where l: "ilock (Some ip) s = Inr s1" "holding H ?r s1" "lookup_step ?r s s1"
    "copy_out (icache s1 ip) = d"
    using holding_ilock [OF ok(1) assms(2) ip pos refl _ assms(7)] assms(8,9) by metis
  have sd1: "same_disk s s1" using l(3) by (simp add: lookup_step_def)
  have d: "d_size d = i_size (icache s1 ip)" "d_addrs d = i_addrs (icache s1 ip)"
    unfolding l(4) [symmetric] by (simp_all add: copy_out_def)
  have dev: "i_dev (icache s1 ip) = ROOTDEV" by (rule holding_slot(3) [OF l(2) ip pos])
  have rb: "readable_blocks s1 ip (blocks_for (unat (i_size (icache s1 ip))))"
    using assms(10) unfolding readable_blocks_def whole_def d same_diskD [OF sd1] by blast
  have bc: "bcache_ok s1 H" using l(2) by (simp add: holding_def)
  define dst where "dst = (\<lambda>i. if i < k then fbyte (disk s) (d_addrs d) (unat ?off + i) else buf_at (memory s) addr i)"
  obtain s2 where rd: "readi ip (buf_at (memory s1) addr) ?off n s1 = Inr (of_nat k, dst, s2)" "cache_step H s1 s2" "disk s2 = disk s1"
    using readi_spec [OF bc assms(2) dev rb, of "buf_at (memory s1) addr" ?off n]
    unfolding dst_def assms(11) d same_diskD [OF sd1] by blast
  have sd2: "same_disk s s2"
    by (rule same_disk_trans [OF sd1 fs_step_same_disk [OF cache_step_fs_step [OF rd(2)] rd(3)]])
  have h2: "holding H ?r s2" by (rule holding_cache_step(1) [OF l(2) rd(2,3)])
  have ft: "ftable s1 = ftable s" "ftable s2 = ftable s" by (rule same_disk_ftable [OF sd1], rule same_disk_ftable [OF sd2])
  have k: "k \<le> 274432" unfolding assms(11) by (rule read_count_small) (use assms(10) in \<open>simp add: whole_def\<close>)
  note ki = small_int [OF k]
  let ?m = "put_buf (memory s) addr k dst" let ?o = "?off + of_nat k"
  let ?s4 = "upd_file f (\<lambda>x. x\<lparr>f_off := ?o\<rparr>) (s2\<lparr>memory := ?m\<rparr>)"
  have mem: "memory s2 = memory s" by (rule same_diskD(4) [OF sd2])
  have eq: "(if 0 < sint (of_nat k :: i32) then upd_file f (\<lambda>x. x\<lparr>f_off := f_off x + of_nat k\<rparr>) (s2\<lparr>memory := ?m\<rparr>)
      else s2\<lparr>memory := ?m\<rparr>) = ?s4"
    unfolding upd_file_def ki(1) using ft(2) by (cases k) (simp_all add: fun_upd_idem)
  have "\<not> sint (i_ref (icache ?s4 ip)) < 1" using holding_slot(4) [OF h2 ip pos] by simp
  then have u: "iunlock (Some ip) ?s4 = Inr ?s4" by (simp add: iunlock_def)
  have e: "fileread f addr n s = Inr (of_nat k, ?s4)"
    unfolding fileread_def if_not_P [OF assms(6)] assms(5) option.case l(1) bindE_Inr ft(1) rd(1) prod.case Let_def
      mem ki(2) eq u ..
  have inr: "k \<le> 2 ^ 64" using k by simp
  have "unat ?off + k \<le> unat (d_size d) \<or> k = 0" unfolding assms(11) by (auto simp: read_count_def)
  then have bytes: "\<forall>i < k. memory ?s4 (addr + of_nat i) = inode_bytes s d ! (unat ?off + i)"
    using put_buf_inside [OF _ inr] by (auto simp: inode_bytes_def dst_def)
  have "ftable_ok H r (s2\<lparr>memory := ?m\<rparr>)"
    by (rule ftable_ok_same [OF assms(1)]) (use h2 ft(2) in simp_all)
  then have "ftable_ok H r ?s4" by (rule ftable_ok_off)
  moreover have "ftable ?s4 = (ftable s)(f := (ftable s f)\<lparr>f_off := ?o\<rparr>)" using ft(2) by (simp add: upd_file_def)
  moreover have "disk ?s4 = disk s" using same_diskD(1) [OF sd2] by simp
  ultimately show ?thesis using e bytes put_buf_outside [of k _ addr "memory s" dst] by (intro exI [of _ ?s4]) simp
qed

section \<open>Witnesses\<close>

text \<open>The root directory of the demonstration disk, open for reading as file 0.\<close>

definition demo_open :: files where
  "demo_open = \<lparr>memory = \<lambda>_. 0xee, console_out = [], free_mem_list = 0, kernel_pagetable = 0, satp = 0,
     disk = demo_disk, disk_blocks = 1000, bufs = bufs demo_fs, sb = demo_sb, icache = icache demo_root,
     ftable = (\<lambda>_. \<lparr>f_type = FD_NONE, f_ref = 0, f_readable = 0, f_writable = 0, f_ip = None, f_off = 0\<rparr>)
       (0 := \<lparr>f_type = FD_INODE, f_ref = 1, f_readable = 1, f_writable = 0, f_ip = Some 0, f_off = 2\<rparr>)\<rparr>"

lemma demo_open_sel: "disk demo_open = demo_disk" "sb demo_open = demo_sb" "disk_blocks demo_open = 1000"
  "icache demo_open = icache demo_root" "memory demo_open = (\<lambda>_. 0xee)" "dinode_at demo_open = dinode_at demo_fs"
  by (simp_all add: demo_open_def dinode_at_def fun_eq_iff demo_fs_sel)

lemma demo_root_cache: "icache demo_root = (icache demo_fs)(0 := (icache demo_fs 0)\<lparr>i_dev := ROOTDEV, i_inum := 1, i_ref := 1\<rparr>)"
  by (simp add: demo_root_def upd_inode_def)

lemma demo_open_ok: "ftable_ok {#} (\<lambda>_. 0) demo_open"
proof -
  have o: "opens (ftable demo_open) ip = (if ip = 0 then 1 else 0)" for ip
  proof -
    have "{f. f < NFILE \<and> 0 < sint (f_ref (ftable demo_open f)) \<and> f_ip (ftable demo_open f) = Some ip} = (if ip = 0 then {0} else {})"
      by (auto simp: demo_open_def)
    then show ?thesis by (simp add: opens_def)
  qed
  have "bcache_ok demo_open {#}" using demo_fs_cache unfolding bcache_ok_def by (simp add: demo_open_def demo_fs_sel)
  moreover have "icache_ok (icache demo_root)"
    unfolding demo_root_cache by (rule icache_ok_upd [OF demo_icache_ok]) (simp_all add: refers_def demo_icache)
  moreover have "sint (i_ref (icache demo_root j)) = (if j = 0 then 1 else 0)" "i_valid (icache demo_root j) = 0" for j
    by (simp_all add: demo_root_cache demo_icache)
  ultimately have "holding {#} (\<lambda>ip. int (opens (ftable demo_open) ip) + 0) demo_open"
    by (simp add: holding_def o demo_open_sel demo_root_cache demo_fs_sel)
  then show ?thesis by (simp add: ftable_ok_def demo_open_def)
qed

lemma demo_open_file: "0 < sint (f_ref (ftable demo_open 0))" "f_ip (ftable demo_open 0) = Some 0"
  "f_readable (ftable demo_open 0) \<noteq> 0" "f_off (ftable demo_open 0) = 2" "i_inum (icache demo_open 0) = 1"
  "f_ref (ftable demo_open 0) = 1"
  by (simp_all add: demo_open_def demo_root_cache)

lemma demo_root_whole: "whole demo_open (dinode_at demo_open 1)" "inodes_on_disk demo_open" "d_type (dinode_at demo_open 1) \<noteq> 0"
proof -
  have "d_size (dinode_at demo_open 1) = 16" "d_addrs (dinode_at demo_open 1) 0 = 4"
    using demo_root_dir by (simp_all add: demo_open_sel)
  then show "whole demo_open (dinode_at demo_open 1)"
    by (simp add: whole_def blocks_for_def fblock_def NDIRECT_def demo_open_sel)
  show "inodes_on_disk demo_open" using demo_inodes by (simp add: inodes_on_disk_def demo_open_sel demo_fs_sel)
  show "d_type (dinode_at demo_open 1) \<noteq> 0" using demo_inode_type(2) [of 1] by (simp add: demo_open_sel T_DIR_def)
qed

theorem fileclose_balances_witness:
  "\<exists>s'. fileclose 0 demo_open = Inr s' \<and> ftable_ok {#} (\<lambda>_. 0) s' \<and> f_ip (ftable s' 0) = None"
  using fileclose_balances [OF demo_open_ok _ demo_open_file(1)] demo_open_file(6) by auto

theorem fileread_next_bytes_witness:
  "\<exists>s'. fileread 0 0x80000000 5 demo_open = Inr (5, s') \<and> memory s' 0x80000000 = 0x61 \<and>
     memory s' 0x80000005 = 0xee \<and> f_off (ftable s' 0) = 7"
proof -
  have sz: "d_size (dinode_at demo_open 1) = 16" and a: "d_addrs (dinode_at demo_open 1) 0 = 4"
    using demo_root_dir by (simp_all add: demo_open_sel)
  have k: "5 = read_count (d_size (dinode_at demo_open 1)) (f_off (ftable demo_open 0)) 5"
    by (simp add: sz demo_open_file(4) read_count_def)
  have d: "dinode_at demo_open 1 = dinode_at demo_open (i_inum (icache demo_open 0))" by (simp add: demo_open_file(5))
  have n: "size ({#} :: u32 multiset) < NBUF" "0 < NFILE" by simp_all
  obtain s' where s': "fileread 0 0x80000000 5 demo_open = Inr (of_nat 5, s')"
    "\<forall>i < 5. memory s' (0x80000000 + of_nat i) = inode_bytes demo_open (dinode_at demo_open 1) ! (unat (2 :: u32) + i)"
    "\<forall>a. 5 \<le> unat (a - 0x80000000) \<longrightarrow> memory s' a = memory demo_open a"
    "ftable s' = (ftable demo_open)(0 := (ftable demo_open 0)\<lparr>f_off := 2 + of_nat 5\<rparr>)"
    using fileread_next_bytes [OF demo_open_ok n demo_open_file(1,2,3) demo_root_whole(2) d demo_root_whole(3,1) k, where addr = "0x80000000"]
    unfolding demo_open_file(4) by blast
  have "memory s' 0x80000000 = inode_bytes demo_open (dinode_at demo_open 1) ! 2" using spec [OF s'(2), of 0] by simp
  also have "\<dots> = fbyte demo_disk (d_addrs (dinode_at demo_open 1)) 2"
    using sz by (simp add: inode_bytes_def demo_open_sel, simp only: numeral_2_eq_2)
  also have "\<dots> = 0x61" by (simp add: fbyte_def fblock_def NDIRECT_def a demo_disk_def put_le_def)
  finally show ?thesis using s'(1,4) spec [OF s'(3), of "0x80000005"] by (auto simp: demo_open_sel)
qed

end
