(* ===== verification/Console.thy ===== *)
theory Console
  imports Machine "HOL-Library.Char_ord"
begin

text \<open>
  The console, \<open>kernel/driver/console.c\<close> and the transmit side of \<open>kernel/driver/uart.c\<close>: the
  conversion of numbers to digits and the format interpreter of \<open>printf\<close>.  What has been sent
  to the serial port is \<open>console_out\<close>.  A format is the list of its bytes before the
  terminating 0, the variable arguments are a list of tagged values; taking an argument that is
  missing or of another type is undefined in C and a \<open>Fault\<close> here, and so is negating the least integer.
\<close>

section \<open>Sending characters\<close>

definition ascii :: "string \<Rightarrow> u8 list" where
  "ascii cs = map of_char cs"

definition uart_putc :: "u8 \<Rightarrow> 'a machine_scheme \<Rightarrow> 'a machine_scheme" where
  "uart_putc c s = s\<lparr>console_out := console_out s @ [c]\<rparr>"

definition uart_puts :: "u8 list \<Rightarrow> 'a machine_scheme \<Rightarrow> 'a machine_scheme" where
  "uart_puts cs s = fold uart_putc cs s"

lemma uart_puts_out: "uart_puts cs s = s\<lparr>console_out := console_out s @ cs\<rparr>"
  unfolding uart_puts_def by (induction cs arbitrary: s) (simp_all add: uart_putc_def)

definition consputc :: "i32 \<Rightarrow> 'a machine_scheme \<Rightarrow> 'a machine_scheme" where
  "consputc c s = uart_putc (ucast c) s"

section \<open>Numbers\<close>

definition digits :: "u8 list" where
  "digits = ascii ''0123456789abcdef''"

text \<open>
  The \<open>do ... while\<close> loop that fills \<open>buf\<close>, least significant digit first, with room for
  \<open>room\<close> more characters; \<open>None\<close> is a write past the end of \<open>buf\<close>.
\<close>

primrec put_digits :: "nat \<Rightarrow> 'w::len word \<Rightarrow> 'w word \<Rightarrow> u8 list option" where
  "put_digits 0 base x = None"
| "put_digits (Suc room) base x =
     (let c = digits ! unat (x mod base); x' = x div base in
      if x' \<noteq> 0 then map_option (Cons c) (put_digits room base x') else Some [c])"

text \<open>
  Both printing routines, on their word.  \<open>-xx\<close> of the least integer is a signed overflow, undefined
  in C and a \<open>Fault\<close> here.  The characters go out last to first.
\<close>

definition least_int :: "'w::len word \<Rightarrow> bool" where
  "least_int x \<longleftrightarrow> sint x = - (2 ^ (LENGTH('w) - 1))"

lemma least_int_32 [simp]: "least_int (x :: i32) \<longleftrightarrow> x = 0x80000000"
proof -
  have "sint (0x80000000 :: i32) = - 2147483648" by simp
  then show ?thesis unfolding least_int_def by (auto intro: signed_word_eqI)
qed

lemma least_int_64 [simp]: "least_int (x :: u64) \<longleftrightarrow> x = 0x8000000000000000"
proof -
  have "sint (0x8000000000000000 :: u64) = - 9223372036854775808" by simp
  then show ?thesis unfolding least_int_def by (auto intro: signed_word_eqI)
qed

definition print_word :: "nat \<Rightarrow> 'w::len word \<Rightarrow> 'w word \<Rightarrow> bool \<Rightarrow> 'a machine_scheme \<Rightarrow> 'a machine_scheme res" where
  "print_word len xx base sign s =
     (let neg = (sign \<and> sint xx < 0); x = (if neg then - xx else xx) in
      if neg \<and> least_int xx then Inl (Fault ''signed overflow'') else
      case put_digits len base x of
        None \<Rightarrow> Inl (Fault ''buf overflow'')
      | Some buf \<Rightarrow>
          let buf' = (if neg then buf @ ascii ''-'' else buf) in
          if len < length buf' then Inl (Fault ''buf overflow'') else Inr (uart_puts (rev buf') s))"

definition printint :: "i32 \<Rightarrow> i32 \<Rightarrow> bool \<Rightarrow> 'a machine_scheme \<Rightarrow> 'a machine_scheme res" where
  "printint xx base sign s = print_word 16 xx base sign s"

definition printlong :: "u64 \<Rightarrow> u64 \<Rightarrow> bool \<Rightarrow> 'a machine_scheme \<Rightarrow> 'a machine_scheme res" where
  "printlong xx base sign s = print_word 20 xx base sign s"

section \<open>Formats\<close>

datatype va_arg = VInt i32 | VLong u64 | VStr "u8 list option"

definition int_arg :: "va_arg list \<Rightarrow> (i32 \<times> va_arg list) res" where
  "int_arg args = (case args of VInt i # rest \<Rightarrow> Inr (i, rest) | _ \<Rightarrow> Inl (Fault ''va_arg''))"

definition long_arg :: "va_arg list \<Rightarrow> (u64 \<times> va_arg list) res" where
  "long_arg args = (case args of VLong i # rest \<Rightarrow> Inr (i, rest) | _ \<Rightarrow> Inl (Fault ''va_arg''))"

definition str_arg :: "va_arg list \<Rightarrow> (u8 list \<times> va_arg list) res" where
  "str_arg args = (case args of
       VStr so # rest \<Rightarrow> Inr (case so of None \<Rightarrow> ascii ''(null)'' | Some cs \<Rightarrow> cs, rest)
     | _ \<Rightarrow> Inl (Fault ''va_arg''))"

text \<open>
  The loop of \<open>printf\<close>.  After \<open>%l\<close> at the very end of the format the code steps over the
  terminating 0 and reads on: a \<open>Fault\<close>.
\<close>

fun printf_loop :: "u8 list \<Rightarrow> va_arg list \<Rightarrow> 'a machine_scheme \<Rightarrow> 'a machine_scheme res" where
  "printf_loop [] args s = Inr s"
| "printf_loop (c # cs) args s =
     (if c \<noteq> 0x25 then printf_loop cs args (uart_putc c s)
      else case cs of
          [] \<Rightarrow> Inr s
        | d # ds \<Rightarrow>
            if d = 0x64 then
              bindE (int_arg args) (\<lambda>(i, args). bindE (printint i 10 True s) (\<lambda>s. printf_loop ds args s))
            else if d = 0x78 then
              bindE (int_arg args) (\<lambda>(i, args). bindE (printint i 16 False s) (\<lambda>s. printf_loop ds args s))
            else if d = 0x70 then
              bindE (long_arg args) (\<lambda>(i, args). bindE (printlong i 16 False s) (\<lambda>s. printf_loop ds args s))
            else if d = 0x73 then
              bindE (str_arg args) (\<lambda>(str, args). printf_loop ds args (uart_puts str s))
            else if d = 0x63 then
              bindE (int_arg args) (\<lambda>(i, args). printf_loop ds args (consputc i s))
            else if d = 0x25 then printf_loop ds args (uart_putc 0x25 s)
            else if d = 0x6c then
              (case ds of
                [] \<Rightarrow> Inl (Fault ''format read past its end'')
              | e # es \<Rightarrow>
                  if e = 0x64 then
                    bindE (long_arg args) (\<lambda>(i, args). bindE (printlong i 10 True s) (\<lambda>s. printf_loop es args s))
                  else if e = 0x75 then
                    bindE (long_arg args) (\<lambda>(i, args). bindE (printlong i 10 False s) (\<lambda>s. printf_loop es args s))
                  else if e = 0x78 then
                    bindE (long_arg args) (\<lambda>(i, args). bindE (printlong i 16 False s) (\<lambda>s. printf_loop es args s))
                  else printf_loop es args (uart_putc e (uart_putc 0x6c (uart_putc 0x25 s))))
            else printf_loop ds args (uart_putc d (uart_putc 0x25 s)))"

text \<open>The null format prints nothing.\<close>

definition printf :: "u8 list option \<Rightarrow> va_arg list \<Rightarrow> 'a machine_scheme \<Rightarrow> 'a machine_scheme res" where
  "printf fmt args s = (case fmt of None \<Rightarrow> Inr s | Some f \<Rightarrow> printf_loop f args s)"

text \<open>The escape sequences that clear the screen and bring the cursor home.\<close>

definition clear_screen :: "'a machine_scheme \<Rightarrow> 'a machine_scheme res" where
  "clear_screen s =
     bindE (printf (Some (0x1b # ascii ''[2J'')) [] s) (\<lambda>s. printf (Some (0x1b # ascii ''[H'')) [] s)"

section \<open>Reading a number back\<close>

definition digit_val :: "u8 \<Rightarrow> nat" where
  "digit_val c = (if 0x30 \<le> c \<and> c \<le> 0x39 then unat c - 48 else unat c - 87)"

definition parse_nat :: "nat \<Rightarrow> u8 list \<Rightarrow> nat" where
  "parse_nat b cs = foldl (\<lambda>acc c. acc * b + digit_val c) 0 cs"

definition parse_int :: "nat \<Rightarrow> u8 list \<Rightarrow> int" where
  "parse_int b cs = (case cs of c # r \<Rightarrow> if c = 0x2d then - int (parse_nat b r) else int (parse_nat b cs) | [] \<Rightarrow> 0)"

lemma digit_val_digits: "k < 16 \<Longrightarrow> digit_val (digits ! k) = k \<and> digits ! k \<noteq> 0x2d"
proof -
  assume "k < 16"
  then have "k \<in> set [0..<16]" by simp
  then show ?thesis
    by (simp add: upt_rec) (elim disjE; simp add: digits_def ascii_def digit_val_def of_char_def)
qed

lemma parse_nat_snoc: "parse_nat b (cs @ [c]) = parse_nat b cs * b + digit_val c"
  by (simp add: parse_nat_def)

lemma put_digits_spec:
  fixes base x :: "'w::len word"
  assumes "2 \<le> unat base" "unat base \<le> 16" "unat x < unat base ^ room" "0 < room"
  shows "\<exists>ds. put_digits room base x = Some ds \<and> ds \<noteq> [] \<and> length ds \<le> room \<and>
    parse_nat (unat base) (rev ds) = unat x \<and> 0x2d \<notin> set ds"
  using assms(3,4)
proof (induction room arbitrary: x)
  case (Suc room)
  let ?b = "unat base" let ?c = "digits ! unat (x mod base)" let ?y = "x div base"
  have m: "unat (x mod base) = unat x mod ?b" and d: "unat ?y = unat x div ?b" by (simp_all add: unat_mod_distrib unat_div)
  have "unat x mod ?b < ?b" using assms(1) by simp
  then have "unat (x mod base) < 16" using assms(2) unfolding m by linarith
  then have c: "digit_val ?c = unat x mod ?b" "?c \<noteq> 0x2d" using digit_val_digits m by auto
  have z: "?y = 0 \<longleftrightarrow> unat x div ?b = 0" unfolding d [symmetric] by (simp add: unat_eq_0)
  show ?case
  proof (cases "?y = 0")
    case True
    then have "unat x < ?b" using z assms(1) by (simp add: div_eq_0_iff)
    then have "digit_val ?c = unat x" using c by simp
    then show ?thesis using True c by (simp add: Let_def parse_nat_def)
  next
    case False
    have "0 < room" using Suc.prems(1) False z by (cases room) (simp_all add: div_eq_0_iff)
    moreover have lt: "unat ?y < ?b ^ room"
      using Suc.prems(1) unfolding d by (simp add: less_mult_imp_div_less mult.commute)
    ultimately obtain ds where ds: "put_digits room base ?y = Some ds" "ds \<noteq> []" "length ds \<le> room"
      "parse_nat ?b (rev ds) = unat ?y" "0x2d \<notin> set ds"
      using Suc.IH by blast
    have "put_digits (Suc room) base x = Some (?c # ds)" using False ds(1) by (simp add: Let_def)
    moreover have "parse_nat ?b (rev (?c # ds)) = unat x" using ds(4) c(1) d by (simp add: parse_nat_snoc)
    ultimately show ?thesis using ds c(2) by auto
  qed
qed simp

lemma put_digits_mono: "put_digits k base x = Some ds \<Longrightarrow> k \<le> room \<Longrightarrow> put_digits room base x = Some ds"
proof (induction k arbitrary: x ds room)
  case (Suc k)
  then obtain r where "room = Suc r" "k \<le> r" by (cases room) auto
  then show ?case using Suc.prems(1) Suc.IH [of "x div base" _ r] by (auto simp: Let_def split: if_splits)
qed simp

lemma unat_of_sint:
  fixes x :: "'w::len word"
  shows "0 \<le> sint x \<Longrightarrow> int (unat x) = sint x" "sint x < 0 \<Longrightarrow> int (unat (- x)) = - sint x"
proof -
  have p: "(2 :: int) ^ (LENGTH('w) - 1) < 2 ^ LENGTH('w)" by simp
  have e: "int (unat (word_of_int k :: 'w word)) = k" if "0 \<le> k" "k < 2 ^ LENGTH('w)" for k
    using that by (simp add: unsigned_of_int take_bit_int_eq_self)
  show "int (unat x) = sint x" if "0 \<le> sint x"
    using e [OF that] sint_lt [of x] p by simp
  have "- x = word_of_int (- sint x)" by simp
  moreover have "- sint x < 2 ^ LENGTH('w)" using sint_ge [of x] p by linarith
  ultimately show "int (unat (- x)) = - sint x" if "sint x < 0"
    using e [of "- sint x"] that by (metis neg_0_le_iff_le order_less_imp_le)
qed

text \<open>What both routines print of a number in base 10, given how many digits it may have.\<close>

lemma print_word_decimal:
  fixes xx base :: "'w::len word"
  assumes "unat base = 10" "- (10 ^ k) < sint xx" "sint xx < 10 ^ k" "0 < k" "k < len" "\<not> least_int xx"
  shows "\<exists>cs. print_word len xx base True s = Inr (s\<lparr>console_out := console_out s @ cs\<rparr>) \<and>
    parse_int 10 cs = sint xx \<and> length cs \<le> k + 1"
proof -
  define neg where "neg = (sint xx < 0)"
  define x where "x = (if neg then - xx else xx)"
  have u: "int (unat x) = \<bar>sint xx\<bar>"
    using unat_of_sint [of xx] by (simp add: x_def neg_def)
  have "int (unat x) < int (10 ^ k)" unfolding u using assms(2,3) by (simp add: abs_less_iff)
  then have "unat x < 10 ^ k" by (simp only: of_nat_less_iff)
  then obtain ds where ds: "put_digits k base x = Some ds" "ds \<noteq> []" "length ds \<le> k"
    "parse_nat 10 (rev ds) = unat x" "0x2d \<notin> set ds"
    using put_digits_spec [of base x k] assms(1,4) by auto
  have p: "put_digits len base x = Some ds" by (rule put_digits_mono [OF ds(1)]) (use assms(5) in simp)
  show ?thesis
  proof (cases neg)
    case True
    have "print_word len xx base True s = Inr (uart_puts (rev (ds @ ascii ''-'')) s)"
      using p ds(3) assms(5,6) True by (simp add: print_word_def x_def neg_def Let_def ascii_def)
    moreover have "rev (ds @ ascii ''-'') = 0x2d # rev ds" by (simp add: ascii_def of_char_def)
    moreover have "parse_int 10 (0x2d # rev ds) = sint xx" using u ds(4) True by (simp add: parse_int_def neg_def)
    ultimately show ?thesis using ds(3) by (intro exI [of _ "0x2d # rev ds"]) (simp add: uart_puts_out)
  next
    case False
    have "print_word len xx base True s = Inr (uart_puts (rev ds) s)"
      using p ds(3) assms(5,6) False by (simp add: print_word_def x_def neg_def Let_def)
    moreover obtain c r where cr: "rev ds = c # r" using ds(2) by (cases "rev ds") auto
    moreover have "c \<noteq> 0x2d" using ds(5) cr by (metis list.set_intros(1) set_rev)
    ultimately show ?thesis using ds(3,4) u False
      by (intro exI [of _ "rev ds"]) (simp add: uart_puts_out parse_int_def neg_def)
  qed
qed

lemma print_decimal:
  "xx \<noteq> 0x80000000 \<Longrightarrow>
    \<exists>cs. printint xx 10 True s = Inr (s\<lparr>console_out := console_out s @ cs\<rparr>) \<and> parse_int 10 cs = sint xx \<and> length cs \<le> 11"
  "yy \<noteq> 0x8000000000000000 \<Longrightarrow>
    \<exists>cs. printlong yy 10 True s = Inr (s\<lparr>console_out := console_out s @ cs\<rparr>) \<and> parse_int 10 cs = sint yy \<and> length cs \<le> 20"
proof -
  have i: "- (10 ^ 10) < sint xx" "sint xx < 10 ^ 10" using sint_ge [of xx] sint_lt [of xx] by simp_all
  show "\<exists>cs. printint xx 10 True s = Inr (s\<lparr>console_out := console_out s @ cs\<rparr>) \<and> parse_int 10 cs = sint xx \<and> length cs \<le> 11"
    if "xx \<noteq> 0x80000000"
    unfolding printint_def using i that print_word_decimal [of 10 10 xx 16 s] by simp
  have l: "- (10 ^ 19) < sint yy" "sint yy < 10 ^ 19" using sint_ge [of yy] sint_lt [of yy] by simp_all
  show "\<exists>cs. printlong yy 10 True s = Inr (s\<lparr>console_out := console_out s @ cs\<rparr>) \<and> parse_int 10 cs = sint yy \<and> length cs \<le> 20"
    if "yy \<noteq> 0x8000000000000000"
    unfolding printlong_def using l that print_word_decimal [of 10 19 yy 20 s] by simp
qed

lemma print_least:
  "printint 0x80000000 10 True s = Inl (Fault ''signed overflow'')"
  "printlong 0x8000000000000000 10 True s = Inl (Fault ''signed overflow'')"
  by (simp_all add: printint_def printlong_def print_word_def)

text \<open>Printing only sends characters.\<close>

definition only_console :: "'a machine_scheme \<Rightarrow> 'a machine_scheme \<Rightarrow> bool" where
  "only_console s s' \<longleftrightarrow> (\<exists>c. s' = s\<lparr>console_out := c\<rparr>)"

lemma only_console_refl: "only_console s s"
  unfolding only_console_def by (intro exI [of _ "console_out s"]) simp

lemma only_console_trans: "only_console s t \<Longrightarrow> only_console t u \<Longrightarrow> only_console s u"
  by (auto simp: only_console_def)

lemma only_console_putc [intro]:
  "only_console s t \<Longrightarrow> only_console s (uart_putc c t)" "only_console s t \<Longrightarrow> only_console s (uart_puts cs t)"
  "only_console s t \<Longrightarrow> only_console s (consputc i t)"
  by (auto simp: only_console_def uart_putc_def uart_puts_out consputc_def)

lemma only_console_print:
  "printint xx b sign s = Inr s' \<Longrightarrow> only_console s s'" "printlong yy d sign s = Inr s' \<Longrightarrow> only_console s s'"
  by (auto simp: printint_def printlong_def print_word_def Let_def uart_puts_out only_console_def split: option.splits if_splits)

lemma printf_loop_frame: "printf_loop fmt args s = Inr s' \<Longrightarrow> only_console s s'"
proof (induction "length fmt" arbitrary: fmt args s rule: less_induct)
  case less
  have step: "only_console s s'" if "printf_loop gs ar t = Inr s'" "length gs < length fmt" "only_console s t" for gs ar t
    using less.hyps [OF that(2,1)] that(3) only_console_trans by blast
  note r = only_console_refl
  show ?case
  proof (cases fmt)
    case Nil
    then show ?thesis using less.prems r by simp
  next
    case fmt: (Cons c cs)
    show ?thesis
    proof (cases "c \<noteq> 0x25 \<or> cs = []")
      case True
      then show ?thesis using less.prems fmt step [of cs args "uart_putc c s"] r
        by (auto split: if_splits)
    next
      case False
      then obtain d ds where cs: "cs = d # ds" and c: "c = 0x25" by (cases cs) auto
      show ?thesis
        using less.prems unfolding fmt cs c printf_loop.simps
        by (auto simp: bindE_eq_Inr simp del: printf_loop.simps split: if_splits list.splits intro: r dest!: only_console_print)
          (erule step, simp add: fmt cs, blast intro: r)+
    qed
  qed
qed

lemma printf_frame: "printf fmt args s = Inr s' \<Longrightarrow> only_console s s'"
  by (auto simp: printf_def intro: printf_loop_frame only_console_refl split: option.splits)

section \<open>Formats that match their arguments\<close>

text \<open>
  A type system for calls of \<open>printf\<close>: each conversion finds an argument of its type, and a signed
  conversion one other than the least integer of the type.
\<close>

fun fmt_ok :: "u8 list \<Rightarrow> va_arg list \<Rightarrow> bool" where
  "fmt_ok [] args \<longleftrightarrow> True"
| "fmt_ok (c # cs) args \<longleftrightarrow>
     (if c \<noteq> 0x25 then fmt_ok cs args
      else case cs of
          [] \<Rightarrow> True
        | d # ds \<Rightarrow>
            if d = 0x64 then (case args of VInt i # r \<Rightarrow> i \<noteq> 0x80000000 \<and> fmt_ok ds r | _ \<Rightarrow> False)
            else if d = 0x78 \<or> d = 0x63 then (case args of VInt _ # r \<Rightarrow> fmt_ok ds r | _ \<Rightarrow> False)
            else if d = 0x70 then (case args of VLong _ # r \<Rightarrow> fmt_ok ds r | _ \<Rightarrow> False)
            else if d = 0x73 then (case args of VStr _ # r \<Rightarrow> fmt_ok ds r | _ \<Rightarrow> False)
            else if d = 0x6c then
              (case ds of
                 [] \<Rightarrow> False
               | e # es \<Rightarrow>
                   if e = 0x64 then (case args of VLong l # r \<Rightarrow> l \<noteq> 0x8000000000000000 \<and> fmt_ok es r | _ \<Rightarrow> False)
                   else if e = 0x75 \<or> e = 0x78 then (case args of VLong _ # r \<Rightarrow> fmt_ok es r | _ \<Rightarrow> False)
                   else fmt_ok es args)
            else fmt_ok ds args)"

lemma print_word_unsigned:
  fixes xx base :: "'w::len word"
  assumes "2 \<le> unat base" "unat base \<le> 16" "unat xx < unat base ^ len" "0 < len"
  shows "\<exists>s'. print_word len xx base False s = Inr s'"
proof -
  obtain ds where "put_digits len base xx = Some ds" "length ds \<le> len" using put_digits_spec [OF assms] by blast
  then show ?thesis by (simp add: print_word_def Let_def)
qed

lemma print_never_fails:
  "i \<noteq> 0x80000000 \<Longrightarrow> \<exists>s'. printint i 10 True s = Inr s'" "\<exists>s'. printint i 16 False s = Inr s'"
  "l \<noteq> 0x8000000000000000 \<Longrightarrow> \<exists>s'. printlong l 10 True s = Inr s'"
  "\<exists>s'. printlong l 10 False s = Inr s'" "\<exists>s'. printlong l 16 False s = Inr s'"
proof -
  have u: "unat i < 2 ^ 32" "unat l < 2 ^ 64" using unsigned_less [of i] unsigned_less [of l] by simp_all
  show "i \<noteq> 0x80000000 \<Longrightarrow> \<exists>s'. printint i 10 True s = Inr s'"
    and "l \<noteq> 0x8000000000000000 \<Longrightarrow> \<exists>s'. printlong l 10 True s = Inr s'"
    using print_decimal(1) [of i s] print_decimal(2) [of l s] by blast+
  show "\<exists>s'. printint i 16 False s = Inr s'"
    unfolding printint_def by (rule print_word_unsigned) (use u in simp_all)
  show "\<exists>s'. printlong l 10 False s = Inr s'" "\<exists>s'. printlong l 16 False s = Inr s'"
    unfolding printlong_def by (rule print_word_unsigned; use u in simp)+
qed

lemma printf_loop_ok: "fmt_ok fmt args \<longleftrightarrow> (\<exists>s'. printf_loop fmt args (s :: 'a machine_scheme) = Inr s')"
proof (induction "length fmt" arbitrary: fmt args s rule: less_induct)
  case less
  show ?case
  proof (cases "fmt = [] \<or> hd fmt \<noteq> 0x25 \<or> tl fmt = []")
    case True
    then show ?thesis using less [of "tl fmt" args] by (cases fmt) auto
  next
    case False
    then obtain d ds where cs: "fmt = 0x25 # d # ds" by (cases fmt; cases "tl fmt") auto
    have bindl: "(\<exists>s'. bindE m (\<lambda>s. printf_loop gs ar s) = Inr s') \<longleftrightarrow> fmt_ok gs ar"
      if "length gs < length fmt" "\<exists>t. m = Inr t" for m :: "'a machine_scheme res" and gs ar
      using less [OF that(1)] that(2) by (metis bindE_Inr)
    have bind: "\<exists>t. m = Inr t \<Longrightarrow> (\<exists>s'. bindE m (\<lambda>s. printf_loop ds ar s) = Inr s') \<longleftrightarrow> fmt_ok ds ar"
      for m :: "'a machine_scheme res" and ar by (rule bindl) (simp_all add: cs)
    have args: "args = [] \<or> (\<exists>i r. args = VInt i # r) \<or> (\<exists>i r. args = VLong i # r) \<or> (\<exists>i r. args = VStr i # r)"
      by (metis list.exhaust va_arg.exhaust)
    consider "d = 0x64" | "d = 0x78" | "d = 0x70" | "d = 0x73" | "d = 0x63" | "d = 0x25" | "d = 0x6c" "ds = []"
      | e es where "d = 0x6c" "ds = e # es"
      | "d \<notin> {0x64, 0x78, 0x70, 0x73, 0x63, 0x25, 0x6c}" by (cases ds) auto
    then show ?thesis
    proof cases
      case 1
      have "(\<exists>s'. bindE (printint i 10 True s) (\<lambda>s. printf_loop ds r s) = Inr s') \<longleftrightarrow> i \<noteq> 0x80000000 \<and> fmt_ok ds r" for i r
        by (cases "i = 0x80000000") (simp_all add: print_least bind print_never_fails)
      with args 1 show ?thesis using cs less [of ds] by (elim disjE exE) (simp_all add: int_arg_def)
    next
      case 2
      from args this show ?thesis using cs less [of ds] by (elim disjE exE) (simp_all add: int_arg_def bind print_never_fails)
    next
      case 3
      from args this show ?thesis using cs less [of ds] by (elim disjE exE) (simp_all add: long_arg_def bind print_never_fails)
    next
      case 4
      from args this show ?thesis using cs less [of ds] by (elim disjE exE) (simp_all add: str_arg_def bind)
    next
      case 5
      from args this show ?thesis using cs less [of ds] by (elim disjE exE) (simp_all add: int_arg_def bind)
    next
      case 6
      then show ?thesis using cs less [of ds] by simp
    next
      case 7
      then show ?thesis using cs by simp
    next
      case (8 e es)
      have "\<exists>t. m = Inr t \<Longrightarrow> (\<exists>s'. bindE m (\<lambda>s. printf_loop es ar s) = Inr s') \<longleftrightarrow> fmt_ok es ar"
        for m :: "'a machine_scheme res" and ar by (rule bindl) (simp_all add: cs 8)
      moreover from this have "(\<exists>s'. bindE (printlong l 10 True s) (\<lambda>s. printf_loop es r s) = Inr s') \<longleftrightarrow>
          l \<noteq> 0x8000000000000000 \<and> fmt_ok es r" for l r
        by (cases "l = 0x8000000000000000") (simp_all add: print_least print_never_fails)
      ultimately show ?thesis using args 8 cs less [of es] by (elim disjE exE) (simp_all add: long_arg_def print_never_fails)
    next
      case 9
      then show ?thesis using cs less [of ds] by simp
    qed
  qed
qed

text \<open>
  C36: \<open>%d\<close> prints every integer but the least one in full: the characters sent to the serial port read
  back as the number, and the buffer of 16 characters never overflows.  For the least integer the code
  negates it as a signed number, which C leaves undefined.
\<close>

theorem printint_reads_back:
  "if xx = 0x80000000 then printint xx 10 True s = Inl (Fault ''signed overflow'')
   else \<exists>cs. printint xx 10 True s = Inr (s\<lparr>console_out := console_out s @ cs\<rparr>) \<and>
     parse_int 10 cs = sint xx \<and> length cs \<le> 11"
  using print_decimal(1) [of xx s] print_least(1) [of s] by simp

text \<open>
  \<open>%ld\<close> prints every other 64-bit number in full: the characters read back as the number, and at
  most the 20 characters of the buffer are used.
\<close>

theorem printlong_fits:
  "if xx = 0x8000000000000000 then printlong xx 10 True s = Inl (Fault ''signed overflow'')
   else \<exists>cs. printlong xx 10 True s = Inr (s\<lparr>console_out := console_out s @ cs\<rparr>) \<and>
     parse_int 10 cs = sint xx \<and> length cs \<le> 20"
  using print_decimal(2) [of xx s] print_least(2) [of s] by simp

text \<open>
  C39: The conversions of a format are a type system: a call of \<open>printf\<close> comes to its end, having done
  nothing but send characters, exactly when each conversion finds an argument of its type, a signed one
  is not given the least integer, and the format does not end in \<open>%l\<close>; neither of the two digit buffers can overflow.
\<close>

theorem printf_type_safe:
  "fmt_ok fmt args \<longleftrightarrow> (\<exists>s'. printf (Some fmt) args s = Inr s' \<and> only_console s s')"
proof -
  have "fmt_ok fmt args \<longleftrightarrow> (\<exists>s'. printf (Some fmt) args s = Inr s')" by (simp add: printf_def printf_loop_ok)
  then show ?thesis using printf_frame by blast
qed

lemma printf_ok: "fmt_ok fmt args \<Longrightarrow> \<exists>c. printf (Some fmt) args s = Inr (s\<lparr>console_out := c\<rparr>)"
  using printf_frame [of "Some fmt" args s] printf_loop_ok [of fmt args s]
  by (fastforce simp: printf_def only_console_def)

text \<open>The least integer in the refusal of a system call.\<close>

lemma printf_least:
  assumes "i = 0x80000000 \<or> j = 0x80000000"
  shows "printf (Some (ascii ''syscall: unknown syscall num=%d pid=%d'' @ [0x0a])) [VInt i, VInt j] s = Inl (Fault ''signed overflow'')"
proof (cases "i = 0x80000000")
  case False
  have "bindE (printint i 10 True t) (\<lambda>s. Inl (Fault ''signed overflow'')) = Inl (Fault ''signed overflow'')" for t :: "'a machine_scheme"
    using print_never_fails(1) [OF False, of t] by auto
  moreover have "printf_loop [32, 112, 105, 100, 61, 37, 100, 10] [VInt 0x80000000] =
      (\<lambda>s :: 'a machine_scheme. Inl (Fault ''signed overflow''))"
    by (rule ext) (simp add: int_arg_def print_least)
  ultimately show ?thesis using assms False by (simp add: printf_def ascii_def of_char_def int_arg_def)
qed (simp add: printf_def ascii_def of_char_def int_arg_def print_least)

text \<open>A format that ends in \<open>%l\<close>: \<open>printf\<close> steps over the terminating 0 and reads past the format.\<close>

lemma printf_reads_past_format:
  assumes "0x25 \<notin> set plain"
  shows "printf (Some (plain @ [0x25, 0x6c])) args s = Inl (Fault ''format read past its end'')"
proof -
  have "printf_loop (plain @ [0x25, 0x6c]) args s = Inl (Fault ''format read past its end'')"
    using assms by (induction plain arbitrary: s) simp_all
  then show ?thesis by (simp add: printf_def)
qed

text \<open>
  The formats of the kernel match their arguments, as long as the numbers they show in decimal are not
  the least of their type.
\<close>

lemma kernel_formats:
  "fmt_ok (ascii ''Process %d exited with status %d'' @ [0x0a]) [VInt i, VInt j] \<longleftrightarrow> i \<noteq> 0x80000000 \<and> j \<noteq> 0x80000000"
  "fmt_ok (ascii ''userinit: proczero created (pid=%d, epc=%p, sp=%p)'' @ [0x0a]) [VInt i, VLong l, VLong k] \<longleftrightarrow> i \<noteq> 0x80000000"
  "fmt_ok (ascii ''syscall: unknown syscall num=%d pid=%d'' @ [0x0a]) [VInt i, VInt j] \<longleftrightarrow> i \<noteq> 0x80000000 \<and> j \<noteq> 0x80000000"
  "fmt_ok (ascii ''Tick! (%ld)'' @ [0x0a]) [VLong l] \<longleftrightarrow> l \<noteq> 0x8000000000000000"
  "fmt_ok (ascii ''sys_trap_handler: unknown interrupt irq=%ld'' @ [0x0a]) [VLong l] \<longleftrightarrow> l \<noteq> 0x8000000000000000"
  "fmt_ok (ascii ''unexpected external interrupt irq=%d'' @ [0x0a]) [VInt i] \<longleftrightarrow> i \<noteq> 0x80000000"
  "fmt_ok (ascii ''usertrap: unexpected external interrupt irq=%d'' @ [0x0a]) [VInt i] \<longleftrightarrow> i \<noteq> 0x80000000"
  "fmt_ok (ascii ''usertrap: unexpected scause=%ld, sepc=%p, stval=%p'' @ [0x0a]) [VLong l, VLong k, VLong n] \<longleftrightarrow> l \<noteq> 0x8000000000000000"
  "fmt_ok (ascii ''sys_trap_handler: exception! scause=%ld, sepc=%p, stval=%p'' @ [0x0a]) [VLong l, VLong k, VLong n] \<longleftrightarrow> l \<noteq> 0x8000000000000000"
  "fmt_ok (ascii ''Welcome to WHU OS Lab!'' @ [0x0a]) []" "fmt_ok (ascii ''Paging enabled! Interrupts on.'' @ [0x0a]) []"
  by (simp_all add: ascii_def of_char_def)

end
