(* ===== verification/Proc.thy ===== *)
theory Proc
  imports File Console Vm
begin

text \<open>
  Processes, \<open>kernel/proc/proc.c\<close>.  A \<open>struct proc *\<close> is an index into the table \<open>proc\<close>; the
  trap frames and kernel stacks are pages of \<open>memory\<close> from \<open>kalloc\<close>.  There is one CPU.

  \<open>swtch\<close> leaves one kernel thread and goes on in another where that one had called \<open>swtch\<close>.
  The scheduler is at a slot of its loop or has dispatched the process of that slot (\<open>at\<close>);
  \<open>resume\<close> is the place in the code where a process that gave up the CPU goes on, and \<open>point\<close>
  tells where in \<open>wait\<close> or \<open>exit\<close> a process is: at the head of the loop of \<open>wait\<close>, before its
  call of \<open>sleep\<close>, or before it becomes a zombie.
\<close>

section \<open>Process table\<close>

datatype task_status = TASK_FREE | TASK_ALLOCATED | TASK_READY | TASK_RUNNING | TASK_SLEEPING | TASK_ZOMBIE

record kcontext =
  ctx_s :: "nat \<Rightarrow> u64"
  ctx_ra :: u64
  ctx_sp :: u64

text \<open>The doublewords of a trap frame, by position.\<close>

definition TF_kernel_satp :: nat where "TF_kernel_satp = 0"
definition TF_kernel_sp :: nat where "TF_kernel_sp = 1"
definition TF_kernel_trap :: nat where "TF_kernel_trap = 2"
definition TF_epc :: nat where "TF_epc = 3"
definition TF_kernel_hartid :: nat where "TF_kernel_hartid = 4"
definition TF_sp :: nat where "TF_sp = 6"
definition TF_a0 :: nat where "TF_a0 = 14"
definition TF_a7 :: nat where "TF_a7 = 21"

lemmas TF_defs = TF_kernel_satp_def TF_kernel_sp_def TF_kernel_trap_def TF_epc_def TF_kernel_hartid_def
  TF_sp_def TF_a0_def TF_a7_def

record pcb =
  p_status :: task_status
  p_pid :: i32
  p_pagetable :: u64
  p_trapframe :: u64
  p_context :: kcontext
  p_kstack :: u64
  p_sz :: u64
  p_name :: block
  p_ofile :: "nat \<Rightarrow> nat option"
  p_parent :: "nat option"
  p_chan :: "nat option"
  p_killed :: i32
  p_xstate :: i32

datatype cpu_at = Scheduler nat | Kernel nat

datatype resume_point = Forkret | Yielded | Asleep | Exited

datatype kernel_point = Running_code | In_wait u64 | Before_sleep u64 | Before_zombie

record procs = files +
  proc :: "nat \<Rightarrow> pcb"
  nextpid :: i32
  cpu_proc :: "nat option"
  at :: cpu_at
  resume :: "nat \<Rightarrow> resume_point"
  point :: "nat \<Rightarrow> kernel_point"

definition upd_proc :: "nat \<Rightarrow> (pcb \<Rightarrow> pcb) \<Rightarrow> 'a procs_scheme \<Rightarrow> 'a procs_scheme" where
  "upd_proc k f s = s\<lparr>proc := (proc s)(k := f (proc s k))\<rparr>"

lemma upd_proc_sel [simp]:
  "proc (upd_proc k f s) k = f (proc s k)" "j \<noteq> k \<Longrightarrow> proc (upd_proc k f s) j = proc s j"
  "memory (upd_proc k f s) = memory s" "free_mem_list (upd_proc k f s) = free_mem_list s"
  "nextpid (upd_proc k f s) = nextpid s" "cpu_proc (upd_proc k f s) = cpu_proc s" "at (upd_proc k f s) = at s"
  "resume (upd_proc k f s) = resume s" "point (upd_proc k f s) = point s"
  "kernel_pagetable (upd_proc k f s) = kernel_pagetable s" "console_out (upd_proc k f s) = console_out s"
  by (simp_all add: upd_proc_def)

text \<open>\<open>myproc\<close>; most callers dereference it.\<close>

definition myproc :: "'a procs_scheme \<Rightarrow> nat option" where
  "myproc s = cpu_proc s"

definition running :: "(nat \<Rightarrow> 'a procs_scheme \<Rightarrow> 'b res) \<Rightarrow> 'a procs_scheme \<Rightarrow> 'b res" where
  "running f s = (case myproc s of None \<Rightarrow> Inl (Fault ''null process'') | Some p \<Rightarrow> f p s)"

text \<open>After the pid 0x7fffffff \<open>nextpid++\<close> is a signed overflow.\<close>

definition allocpid :: "'a procs_scheme \<Rightarrow> (i32 \<times> 'a procs_scheme) res" where
  "allocpid s = (if nextpid s = 0x7fffffff then Inl (Fault ''signed overflow'')
     else Inr (nextpid s, s\<lparr>nextpid := nextpid s + 1\<rparr>))"

definition procinit :: "'a procs_scheme \<Rightarrow> 'a procs_scheme" where
  "procinit s = fold (\<lambda>p. upd_proc p (\<lambda>f. f\<lparr>p_status := TASK_FREE\<rparr>)) [0..<NPROC] s"

definition new_context :: "symbols \<Rightarrow> kcontext" where
  "new_context lk = \<lparr>ctx_s = \<lambda>_. 0, ctx_ra = forkret_addr lk, ctx_sp = 0\<rparr>"

text \<open>A new process starts in \<open>forkret\<close>, which only returns to user mode.\<close>

definition allocproc :: "symbols \<Rightarrow> 'a procs_scheme \<Rightarrow> (nat option \<times> 'a procs_scheme) res" where
  "allocproc lk s =
     (case find (\<lambda>p. p_status (proc s p) = TASK_FREE) [0..<NPROC] of
        None \<Rightarrow> Inr (None, s)
      | Some p \<Rightarrow> bindE (allocpid s) (\<lambda>(pid, s1).
          let s2 = upd_proc p (\<lambda>f. f\<lparr>p_pid := pid\<rparr>) s1;
              (tf, s3) = kalloc s2;
              s4 = upd_proc p (\<lambda>f. f\<lparr>p_trapframe := tf\<rparr>) s3
          in Inr (if tf = 0 then (None, upd_proc p (\<lambda>f. f\<lparr>p_status := TASK_FREE\<rparr>) s4)
             else (Some p, (upd_proc p (\<lambda>f. f\<lparr>p_status := TASK_ALLOCATED, p_parent := None, p_chan := None,
               p_killed := 0, p_xstate := 0, p_context := new_context lk\<rparr>) s4)
               \<lparr>resume := (resume s4)(p := Forkret), point := (point s4)(p := Running_code)\<rparr>))))"

section \<open>The first process\<close>

text \<open>\<open>userinit\<close>, with the program \<open>code\<close> of \<open>proczero\<close> as a parameter.\<close>

definition or_pte :: "u64 \<Rightarrow> u64 \<Rightarrow> 'a procs_scheme \<Rightarrow> 'a procs_scheme" where
  "or_pte pte bits s = s\<lparr>memory := store64 (memory s) pte (load64 (memory s) pte OR bits)\<rparr>"

definition put_code :: "u64 \<Rightarrow> u8 list \<Rightarrow> mem \<Rightarrow> mem" where
  "put_code dst code m = fold (\<lambda>i m. m(dst + of_nat i := code ! i)) [0..<length code] m"

definition proczero_name :: block where
  "proczero_name = (\<lambda>i. if i < 8 then ascii ''proczero'' ! i else 0)"

definition userinit :: "symbols \<Rightarrow> u8 list \<Rightarrow> 'a procs_scheme \<Rightarrow> 'a procs_scheme res" where
  "userinit lk code s =
     bindE (allocproc lk s) (\<lambda>(np, s1). case np of
        None \<Rightarrow> Inl (Panic ''userinit: allocproc failed'')
      | Some p \<Rightarrow>
          let (ks, s2) = kalloc s1;
              s3 = upd_proc p (\<lambda>f. f\<lparr>p_kstack := ks\<rparr>) s2 in
          if ks = 0 then Inl (Panic ''userinit: kalloc kstack failed'') else
          let s4 = upd_proc p (\<lambda>f. f\<lparr>p_context := (p_context f)\<lparr>ctx_sp := ks + PGSIZE\<rparr>\<rparr>) s3;
              (cp, s5) = kalloc s4 in
          if cp = 0 then Inl (Panic ''userinit: kalloc user code failed'') else
          let s6 = s5\<lparr>memory := put_code cp code (memory s5)\<rparr> in
          bindE (walk (kernel_pagetable s6) cp False s6) (\<lambda>(pte, s7).
          if pte = 0 then Inl (Panic ''userinit: walk user code failed'') else
          let s8 = or_pte pte (PTE_X OR PTE_U) s7;
              (sp, s9) = kalloc s8 in
          if sp = 0 then Inl (Panic ''userinit: kalloc user stack failed'') else
          bindE (walk (kernel_pagetable s9) sp False s9) (\<lambda>(pte, s10).
          if pte = 0 then Inl (Panic ''userinit: walk user stack failed'') else
          let s11 = or_pte pte PTE_U s10;
              tf = p_trapframe (proc s11 p);
              m = store64 (store64 (zero_page tf (memory s11)) (entry tf TF_epc) cp) (entry tf TF_sp) (sp + PGSIZE);
              s12 = upd_proc p (\<lambda>f. f\<lparr>p_pagetable := kernel_pagetable s11, p_sz := PGSIZE * 2,
                p_name := (\<lambda>i. if i \<le> 8 then proczero_name i else p_name f i), p_parent := None,
                p_status := TASK_READY\<rparr>) (s11\<lparr>memory := m\<rparr>)
          in printf (Some (ascii ''userinit: proczero created (pid=%d, epc=%p, sp=%p)'' @ [0x0a]))
               [VInt (p_pid (proc s12 p)), VLong cp, VLong (sp + PGSIZE)] s12)))"

section \<open>Switching\<close>

text \<open>
  \<open>swtch(&p->context, &mycpu()->context)\<close>: the process is left at \<open>r\<close>, the scheduler goes on
  after its own \<open>swtch\<close>, clears \<open>c->proc\<close> and turns to the next slot.
\<close>

definition swtch_out :: "nat \<Rightarrow> resume_point \<Rightarrow> 'a procs_scheme \<Rightarrow> 'a procs_scheme" where
  "swtch_out p r s = s\<lparr>cpu_proc := None, at := Scheduler (Suc p), resume := (resume s)(p := r)\<rparr>"

text \<open>Where a dispatched process goes on: after \<open>sleep\<close> it clears its channel.\<close>

definition swtch_in :: "nat \<Rightarrow> 'a procs_scheme \<Rightarrow> 'a procs_scheme res" where
  "swtch_in p s =
     (case resume s p of
        Exited \<Rightarrow> Inl (Panic ''exit: zombie returned'')
      | Asleep \<Rightarrow> Inr (upd_proc p (\<lambda>f. f\<lparr>p_chan := None\<rparr>) s)
      | _ \<Rightarrow> Inr s)"

text \<open>One round of the inner loop of \<open>scheduler\<close>; after the last slot the outer loop starts over.\<close>

definition sched_round :: "nat \<Rightarrow> 'a procs_scheme \<Rightarrow> 'a procs_scheme res" where
  "sched_round p s =
     (if NPROC \<le> p then Inr (s\<lparr>at := Scheduler 0\<rparr>)
      else if p_status (proc s p) = TASK_READY then
        swtch_in p ((upd_proc p (\<lambda>f. f\<lparr>p_status := TASK_RUNNING\<rparr>) s)\<lparr>cpu_proc := Some p, at := Kernel p\<rparr>)
      else Inr (s\<lparr>at := Scheduler (Suc p)\<rparr>))"

definition scheduler_start :: "'a procs_scheme \<Rightarrow> 'a procs_scheme" where
  "scheduler_start s = s\<lparr>cpu_proc := None, at := Scheduler 0\<rparr>"

definition yield :: "'a procs_scheme \<Rightarrow> 'a procs_scheme res" where
  "yield = running (\<lambda>p s. Inr (swtch_out p Yielded (upd_proc p (\<lambda>f. f\<lparr>p_status := TASK_READY\<rparr>) s)))"

text \<open>A channel is the process that sleeps on it; \<open>None\<close> is the null channel.\<close>

definition sleep :: "nat option \<Rightarrow> 'a procs_scheme \<Rightarrow> 'a procs_scheme res" where
  "sleep chan = running (\<lambda>p s.
     Inr (swtch_out p Asleep (upd_proc p (\<lambda>f. f\<lparr>p_chan := chan, p_status := TASK_SLEEPING\<rparr>) s)))"

definition wakeup :: "nat option \<Rightarrow> 'a procs_scheme \<Rightarrow> 'a procs_scheme" where
  "wakeup chan s = fold (\<lambda>p s.
     if Some p \<noteq> myproc s \<and> p_status (proc s p) = TASK_SLEEPING \<and> p_chan (proc s p) = chan
     then upd_proc p (\<lambda>f. f\<lparr>p_status := TASK_READY\<rparr>) s else s) [0..<NPROC] s"

section \<open>exit, wait and fork\<close>

definition reparent :: "nat \<Rightarrow> 'a procs_scheme \<Rightarrow> 'a procs_scheme" where
  "reparent p s = fold (\<lambda>pp s.
     if p_parent (proc s pp) = Some p then upd_proc pp (\<lambda>f. f\<lparr>p_parent := Some 0\<rparr>) s else s) [0..<NPROC] s"

text \<open>\<open>exit\<close> up to the call of \<open>wakeup\<close>, and the rest of it.\<close>

definition exit_begin :: "i32 \<Rightarrow> 'a procs_scheme \<Rightarrow> 'a procs_scheme res" where
  "exit_begin status = running (\<lambda>p s.
     bindE (printf (Some (ascii ''Process %d exited with status %d'' @ [0x0a])) [VInt (p_pid (proc s p)), VInt status]
       (upd_proc p (\<lambda>f. f\<lparr>p_xstate := status\<rparr>) s)) (\<lambda>s1.
     let s2 = reparent p s1 in Inr (wakeup (p_parent (proc s2 p)) s2)))"

definition exit_end :: "'a procs_scheme \<Rightarrow> 'a procs_scheme res" where
  "exit_end = running (\<lambda>p s. Inr (swtch_out p Exited (upd_proc p (\<lambda>f. f\<lparr>p_status := TASK_ZOMBIE\<rparr>) s)))"

definition exit :: "i32 \<Rightarrow> 'a procs_scheme \<Rightarrow> 'a procs_scheme res" where
  "exit status s = bindE (exit_begin status s) exit_end"

datatype wait_result = Reaped i32 | No_children | Must_sleep

definition free_page :: "symbols \<Rightarrow> u64 \<Rightarrow> 'a procs_scheme \<Rightarrow> 'a procs_scheme res" where
  "free_page lk pa s = (if pa \<noteq> 0 then kfree lk pa s else Inr s)"

definition reap :: "symbols \<Rightarrow> u64 \<Rightarrow> nat \<Rightarrow> 'a procs_scheme \<Rightarrow> 'a procs_scheme res" where
  "reap lk addr c s =
     (let s1 = (if addr \<noteq> 0 then s\<lparr>memory := store_le 4 (memory s) addr (p_xstate (proc s c))\<rparr> else s);
          s2 = upd_proc c (\<lambda>f. f\<lparr>p_status := TASK_FREE, p_pid := 0, p_parent := None, p_name := (p_name f)(0 := 0)\<rparr>) s1
      in bindE (free_page lk (p_trapframe (proc s2 c)) s2) (\<lambda>s3.
         let s4 = upd_proc c (\<lambda>f. f\<lparr>p_trapframe := 0\<rparr>) s3 in
         bindE (free_page lk (p_kstack (proc s4 c)) s4) (\<lambda>s5.
         Inr (upd_proc c (\<lambda>f. f\<lparr>p_kstack := 0\<rparr>) s5))))"

text \<open>The inner loop of \<open>wait\<close>, over the remaining slots.\<close>

primrec wait_scan :: "symbols \<Rightarrow> u64 \<Rightarrow> nat \<Rightarrow> bool \<Rightarrow> nat list \<Rightarrow> 'a procs_scheme \<Rightarrow> (wait_result \<times> 'a procs_scheme) res" where
  "wait_scan lk addr p havekids [] s = Inr (if havekids then Must_sleep else No_children, s)"
| "wait_scan lk addr p havekids (c # cs) s =
     (if p_parent (proc s c) = Some p then
        if p_status (proc s c) = TASK_ZOMBIE then
          bindE (reap lk addr c s) (\<lambda>s1. Inr (Reaped (p_pid (proc s c)), s1))
        else wait_scan lk addr p True cs s
      else wait_scan lk addr p havekids cs s)"

text \<open>One round of the loop of \<open>wait\<close>, without the call of \<open>sleep\<close> at its end.\<close>

definition wait_round :: "symbols \<Rightarrow> u64 \<Rightarrow> 'a procs_scheme \<Rightarrow> (wait_result \<times> 'a procs_scheme) res" where
  "wait_round lk addr = running (\<lambda>p s. wait_scan lk addr p False [0..<NPROC] s)"

text \<open>
  \<open>wait\<close> from its call, or from its return out of \<open>sleep\<close>, to its own return or to the next
  \<open>swtch\<close>: then the result is \<open>None\<close>.
\<close>

definition wait :: "symbols \<Rightarrow> u64 \<Rightarrow> 'a procs_scheme \<Rightarrow> (i32 option \<times> 'a procs_scheme) res" where
  "wait lk addr s = bindE (wait_round lk addr s) (\<lambda>(r, s1).
     case r of
       Reaped pid \<Rightarrow> Inr (Some pid, s1)
     | No_children \<Rightarrow> Inr (Some (-1), s1)
     | Must_sleep \<Rightarrow> bindE (sleep (myproc s1) s1) (\<lambda>s2. Inr (None, s2)))"

text \<open>The loop that copies a trap frame word by word.\<close>

definition copy_page :: "u64 \<Rightarrow> u64 \<Rightarrow> mem \<Rightarrow> mem" where
  "copy_page dst src m = fold (\<lambda>i m. store64 m (entry dst i) (load64 m (entry src i))) [0..<512] m"

definition fork :: "symbols \<Rightarrow> 'a procs_scheme \<Rightarrow> (i32 \<times> 'a procs_scheme) res" where
  "fork lk = running (\<lambda>p s.
     bindE (allocproc lk s) (\<lambda>(no, s1). case no of
       None \<Rightarrow> Inr (-1, s1)
     | Some np \<Rightarrow>
         let (ks, s2) = kalloc s1;
             s3 = upd_proc np (\<lambda>f. f\<lparr>p_kstack := ks\<rparr>) s2 in
         if ks = 0 then Inr (-1, upd_proc np (\<lambda>f. f\<lparr>p_status := TASK_FREE\<rparr>) s3)
         else
           let tf = p_trapframe (proc s3 np);
               m = store64 (copy_page tf (p_trapframe (proc s3 p)) (memory s3)) (entry tf TF_a0) 0;
               s4 = upd_proc np (\<lambda>f. f\<lparr>p_context := (p_context f)\<lparr>ctx_sp := ks + PGSIZE\<rparr>,
                 p_pagetable := p_pagetable (proc s3 p), p_sz := p_sz (proc s3 p), p_parent := Some p,
                 p_name := (\<lambda>i. if i < 16 then p_name (proc s3 p) i else p_name f i), p_status := TASK_READY\<rparr>)
                 (s3\<lparr>memory := m\<rparr>)
           in Inr (p_pid (proc s4 np), s4)))"

section \<open>What the operations leave alone\<close>

lemma fold_upd_proc:
  assumes "\<And>p s. step p s = (if C p (proc s p) then upd_proc p f s else (s :: 'a procs_scheme))"
  shows "fold step [0..<n] s = s\<lparr>proc := \<lambda>p. if p < n \<and> C p (proc s p) then f (proc s p) else proc s p\<rparr>"
proof (induction n)
  case (Suc n)
  then show ?case by (simp add: assms upd_proc_def fun_eq_iff)
qed simp

lemma procinit_eq: "procinit s = s\<lparr>proc := \<lambda>p. if p < NPROC then (proc s p)\<lparr>p_status := TASK_FREE\<rparr> else proc s p\<rparr>"
  unfolding procinit_def
  by (subst fold_upd_proc [where C = "\<lambda>_ _. True" and f = "\<lambda>f. f\<lparr>p_status := TASK_FREE\<rparr>"]) simp_all

lemma reparent_eq: "reparent p s = s\<lparr>proc := \<lambda>q. if q < NPROC \<and> p_parent (proc s q) = Some p
    then (proc s q)\<lparr>p_parent := Some 0\<rparr> else proc s q\<rparr>"
  unfolding reparent_def
  by (subst fold_upd_proc [where C = "\<lambda>_ x. p_parent x = Some p" and f = "\<lambda>f. f\<lparr>p_parent := Some 0\<rparr>"]) simp_all

lemma wakeup_eq: "wakeup chan s = s\<lparr>proc := \<lambda>q. if q < NPROC \<and> Some q \<noteq> myproc s \<and>
    p_status (proc s q) = TASK_SLEEPING \<and> p_chan (proc s q) = chan
    then (proc s q)\<lparr>p_status := TASK_READY\<rparr> else proc s q\<rparr>"
proof -
  let ?C = "\<lambda>q x. Some q \<noteq> myproc s \<and> p_status x = TASK_SLEEPING \<and> p_chan x = chan"
  let ?f = "\<lambda>f. f\<lparr>p_status := TASK_READY\<rparr>"
  let ?step = "\<lambda>p t. if Some p \<noteq> myproc t \<and> p_status (proc t p) = TASK_SLEEPING \<and> p_chan (proc t p) = chan
    then upd_proc p ?f t else t"
  have "fold ?step [0..<n] s = s\<lparr>proc := \<lambda>p. if p < n \<and> ?C p (proc s p) then ?f (proc s p) else proc s p\<rparr>" for n
  proof (induction n)
    case (Suc n)
    then show ?case by (simp add: upd_proc_def myproc_def fun_eq_iff)
  qed simp
  then show ?thesis unfolding wakeup_def by simp
qed

lemma kalloc_frame: "\<exists>fl m. kalloc s = (fst (kalloc s), s\<lparr>memory := m, free_mem_list := fl\<rparr>)"
proof (cases "free_mem_list s = 0")
  case True
  then have "kalloc s = (fst (kalloc s), s\<lparr>memory := memory s, free_mem_list := free_mem_list s\<rparr>)" by (simp add: kalloc_def)
  then show ?thesis by blast
next
  case False
  then have "kalloc s = (fst (kalloc s), s\<lparr>memory := zero_page (free_mem_list s) (memory s),
      free_mem_list := load64 (memory s) (free_mem_list s)\<rparr>)" by (cases s) (simp add: kalloc_def)
  then show ?thesis by blast
qed

text \<open>\<open>kalloc\<close> depends on the memory and the head of the free list alone.\<close>

lemma kalloc_cong:
  assumes k: "kalloc s = (r, s\<lparr>memory := m, free_mem_list := fl\<rparr>)"
    and "free_mem_list t = free_mem_list s" "memory t = memory s"
  shows "kalloc t = (r, t\<lparr>memory := m, free_mem_list := fl\<rparr>)"
proof (cases "free_mem_list s = 0")
  case True
  then have "s = s\<lparr>memory := m, free_mem_list := fl\<rparr>" "r = 0" using k by (simp_all add: kalloc_def)
  from arg_cong [OF this(1), of memory] arg_cong [OF this(1), of free_mem_list]
  have "m = memory s" "fl = free_mem_list s" by simp_all
  then have "t\<lparr>memory := m, free_mem_list := fl\<rparr> = t" using assms(2,3) by simp
  then show ?thesis using True assms(2) \<open>r = 0\<close> by (simp add: kalloc_def)
next
  case False
  then have kk: "kalloc s = (free_mem_list s, s\<lparr>free_mem_list := load64 (memory s) (free_mem_list s),
      memory := zero_page (free_mem_list s) (memory s)\<rparr>)" by (simp add: kalloc_def Let_def)
  have e: "s\<lparr>free_mem_list := load64 (memory s) (free_mem_list s), memory := zero_page (free_mem_list s) (memory s)\<rparr> =
      s\<lparr>memory := m, free_mem_list := fl\<rparr>" and r: "r = free_mem_list s"
    using k unfolding kk prod.inject by blast+
  from arg_cong [OF e, of memory] arg_cong [OF e, of free_mem_list]
  have "m = zero_page (free_mem_list s) (memory s)" "fl = load64 (memory s) (free_mem_list s)" by simp_all
  then show ?thesis using False assms(2,3) r by (cases t) (simp add: kalloc_def Let_def)
qed

lemma kfree_frame: "kfree lk pa s = Inr s' \<Longrightarrow> \<exists>fl m. s' = s\<lparr>memory := m, free_mem_list := fl\<rparr>"
  unfolding kfree_eq_Inr by blast

lemma free_page_frame: "free_page lk pa s = Inr s' \<Longrightarrow> \<exists>fl m. s' = s\<lparr>memory := m, free_mem_list := fl\<rparr>"
proof (cases "pa = 0")
  case True
  assume "free_page lk pa s = Inr s'"
  with True have "s' = s\<lparr>memory := memory s, free_mem_list := free_mem_list s\<rparr>" by (simp add: free_page_def)
  then show ?thesis by blast
qed (simp add: free_page_def kfree_frame)

end
