(* ===== verification/Sched.thy ===== *)
theory Sched
  imports Proc
begin

text \<open>
  Scheduling, \<open>kernel/proc/proc.c\<close>, as a step relation: the scheduler examines its next slot, or
  the dispatched process runs one of the operations that change the table, or the timer
  interrupts it (kernel code called from \<open>usertrap\<close> runs with interrupts enabled, so a process
  can lose the CPU between any two operations, also inside \<open>wait\<close> and \<open>exit\<close>).
\<close>

section \<open>Steps\<close>

definition at_point :: "nat \<Rightarrow> kernel_point \<Rightarrow> 'a procs_scheme \<Rightarrow> 'a procs_scheme" where
  "at_point p k s = s\<lparr>point := (point s)(p := k)\<rparr>"

inductive kstep :: "symbols \<Rightarrow> 'a procs_scheme \<Rightarrow> 'a procs_scheme \<Rightarrow> bool" for lk where
  schedule: "at s = Scheduler p \<Longrightarrow> sched_round p s = Inr s' \<Longrightarrow> kstep lk s s'"
| timer: "at s = Kernel p \<Longrightarrow> p_status (proc s p) = TASK_RUNNING \<Longrightarrow> yield s = Inr s' \<Longrightarrow> kstep lk s s'"
| do_fork: "at s = Kernel p \<Longrightarrow> point s p = Running_code \<Longrightarrow> fork lk s = Inr (r, s') \<Longrightarrow> kstep lk s s'"
| wait_returns: "at s = Kernel p \<Longrightarrow> point s p = Running_code \<or> point s p = In_wait addr \<Longrightarrow>
    wait_round lk addr s = Inr (r, s') \<Longrightarrow> r \<noteq> Must_sleep \<Longrightarrow> kstep lk s (at_point p Running_code s')"
| wait_blocks: "at s = Kernel p \<Longrightarrow> point s p = Running_code \<or> point s p = In_wait addr \<Longrightarrow>
    wait_round lk addr s = Inr (Must_sleep, s') \<Longrightarrow> kstep lk s (at_point p (Before_sleep addr) s')"
| wait_sleeps: "at s = Kernel p \<Longrightarrow> point s p = Before_sleep addr \<Longrightarrow> sleep (myproc s) s = Inr s' \<Longrightarrow>
    kstep lk s (at_point p (In_wait addr) s')"
| exit_begins: "at s = Kernel p \<Longrightarrow> point s p = Running_code \<Longrightarrow> exit_begin status s = Inr s' \<Longrightarrow>
    kstep lk s (at_point p Before_zombie s')"
| exit_ends: "at s = Kernel p \<Longrightarrow> point s p = Before_zombie \<Longrightarrow> exit_end s = Inr s' \<Longrightarrow> kstep lk s s'"

section \<open>The invariant\<close>

text \<open>
  The process the scheduler dispatched is the current one and the only one running; no slot that
  is ready, or could become ready by \<open>wakeup\<close>, has left the CPU in \<open>exit\<close>.
\<close>

definition sched_inv :: "'a procs_scheme \<Rightarrow> bool" where
  "sched_inv s \<longleftrightarrow>
     (\<forall>j. at s = Kernel j \<longrightarrow> j < NPROC) \<and>
     cpu_proc s = (case at s of Scheduler _ \<Rightarrow> None | Kernel j \<Rightarrow> Some j) \<and>
     (\<forall>j < NPROC. p_status (proc s j) = TASK_RUNNING \<longleftrightarrow> at s = Kernel j) \<and>
     (\<forall>j < NPROC. p_status (proc s j) = TASK_READY \<longrightarrow> resume s j \<noteq> Exited) \<and>
     (\<forall>j < NPROC. p_status (proc s j) = TASK_SLEEPING \<longrightarrow> resume s j = Asleep)"

lemma sched_invD:
  assumes "sched_inv s"
  shows "at s = Kernel j \<Longrightarrow> j < NPROC" "at s = Kernel j \<Longrightarrow> cpu_proc s = Some j"
    "j < NPROC \<Longrightarrow> p_status (proc s j) = TASK_RUNNING \<longleftrightarrow> at s = Kernel j"
    "j < NPROC \<Longrightarrow> p_status (proc s j) = TASK_READY \<Longrightarrow> resume s j \<noteq> Exited"
    "j < NPROC \<Longrightarrow> p_status (proc s j) = TASK_SLEEPING \<Longrightarrow> resume s j = Asleep"
  using assms unfolding sched_inv_def by auto

text \<open>Steps that keep every status, place and channel of the table keep the invariant.\<close>

lemma sched_inv_same:
  assumes "sched_inv s" "at s' = at s" "cpu_proc s' = cpu_proc s" "resume s' = resume s"
    and "\<And>j. j < NPROC \<Longrightarrow> p_status (proc s' j) = p_status (proc s j)"
  shows "sched_inv s'"
  using assms unfolding sched_inv_def by simp

text \<open>A slot that is not running changes its status to one that is neither running nor asleep.\<close>

lemma sched_inv_slot:
  assumes inv: "sched_inv s" and "at s' = at s" "cpu_proc s' = cpu_proc s" and q: "at s \<noteq> Kernel q"
    and "\<And>j. j \<noteq> q \<Longrightarrow> p_status (proc s' j) = p_status (proc s j) \<and> resume s' j = resume s j"
    and "p_status (proc s' q) \<noteq> TASK_RUNNING" "p_status (proc s' q) \<noteq> TASK_SLEEPING"
    and "p_status (proc s' q) = TASK_READY \<longrightarrow> resume s' q \<noteq> Exited"
  shows "sched_inv s'"
proof -
  have "(p_status (proc s' j) = TASK_RUNNING \<longleftrightarrow> at s = Kernel j) \<and>
      (p_status (proc s' j) = TASK_READY \<longrightarrow> resume s' j \<noteq> Exited) \<and>
      (p_status (proc s' j) = TASK_SLEEPING \<longrightarrow> resume s' j = Asleep)" if "j < NPROC" for j
    using assms sched_invD(3-5) [OF inv that] by (cases "j = q") auto
  then show ?thesis using inv assms(2,3) unfolding sched_inv_def by simp
qed

lemma sched_inv_out:
  assumes inv: "sched_inv s" and p: "at s = Kernel p"
    and "st = TASK_READY \<and> r \<noteq> Exited \<or> st = TASK_SLEEPING \<and> r = Asleep \<or> st = TASK_ZOMBIE"
    and "p_status (f (proc s p)) = st"
  shows "sched_inv (swtch_out p r (upd_proc p f s))"
proof -
  have "p < NPROC" using sched_invD(1) [OF inv p] .
  moreover have "p_status (proc s j) \<noteq> TASK_RUNNING" if "j < NPROC" "j \<noteq> p" for j
    using sched_invD(3) [OF inv that(1)] p that(2) by simp
  ultimately show ?thesis
    using inv assms(3,4) unfolding sched_inv_def swtch_out_def by (auto simp: upd_proc_def)
qed

lemma find_free:
  assumes "find (\<lambda>p. p_status (proc s p) = TASK_FREE) [0..<NPROC] = Some p"
  shows "p < NPROC" "p_status (proc s p) = TASK_FREE"
  using find_SomeD [OF assms] by auto

lemma allocproc_cases:
  obtains (full) "\<forall>j < NPROC. p_status (proc s j) \<noteq> TASK_FREE" "allocproc lk s = Inr (None, s)"
  | (no_page) p m fl where "p < NPROC" "p_status (proc s p) = TASK_FREE" "fst (kalloc s) = 0"
      "allocproc lk s = Inr (None, upd_proc p (\<lambda>f. f\<lparr>p_pid := nextpid s, p_trapframe := 0, p_status := TASK_FREE\<rparr>)
         (s\<lparr>nextpid := nextpid s + 1, memory := m, free_mem_list := fl\<rparr>))"
      "kalloc s = (0, s\<lparr>memory := m, free_mem_list := fl\<rparr>)"
  | (found) p tf m fl where "p < NPROC" "p_status (proc s p) = TASK_FREE" "tf \<noteq> 0"
      "kalloc s = (tf, s\<lparr>memory := m, free_mem_list := fl\<rparr>)"
      "allocproc lk s = Inr (Some p, (upd_proc p (\<lambda>f. f\<lparr>p_pid := nextpid s, p_trapframe := tf, p_status := TASK_ALLOCATED,
           p_parent := None, p_chan := None, p_killed := 0, p_xstate := 0, p_context := new_context lk\<rparr>)
         (s\<lparr>nextpid := nextpid s + 1, memory := m, free_mem_list := fl\<rparr>))
         \<lparr>resume := (resume s)(p := Forkret), point := (point s)(p := Running_code)\<rparr>)"
  | (overflow) p where "p < NPROC" "p_status (proc s p) = TASK_FREE" "nextpid s = 0x7fffffff"
      "allocproc lk s = Inl (Fault ''signed overflow'')"
proof (cases "find (\<lambda>p. p_status (proc s p) = TASK_FREE) [0..<NPROC]")
  case None
  then have "\<forall>j \<in> set [0..<NPROC]. p_status (proc s j) \<noteq> TASK_FREE" by (simp only: find_None_all)
  then show thesis using None by (intro full) (auto simp: allocproc_def)
next
  case (Some p)
  note p = find_free [OF Some]
  obtain m fl where k: "kalloc s = (fst (kalloc s), s\<lparr>memory := m, free_mem_list := fl\<rparr>)" using kalloc_frame by blast
  let ?s2 = "upd_proc p (\<lambda>f. f\<lparr>p_pid := nextpid s\<rparr>) (s\<lparr>nextpid := nextpid s + 1\<rparr>)"
  show thesis
  proof (cases "nextpid s = 0x7fffffff")
    case True
    have "allocproc lk s = Inl (Fault ''signed overflow'')" unfolding allocproc_def Some by (simp add: allocpid_def True)
    then show thesis by (rule overflow [OF p True])
  next
    case pid: False
    have "kalloc ?s2 = (fst (kalloc s), ?s2\<lparr>memory := m, free_mem_list := fl\<rparr>)"
      by (rule kalloc_cong [OF k]) simp_all
    then have a: "allocproc lk s = Inr (if fst (kalloc s) = 0 then
        (None, upd_proc p (\<lambda>f. f\<lparr>p_status := TASK_FREE\<rparr>) (upd_proc p (\<lambda>f. f\<lparr>p_trapframe := fst (kalloc s)\<rparr>)
          (?s2\<lparr>memory := m, free_mem_list := fl\<rparr>)))
      else (Some p, (upd_proc p (\<lambda>f. f\<lparr>p_status := TASK_ALLOCATED, p_parent := None, p_chan := None,
          p_killed := 0, p_xstate := 0, p_context := new_context lk\<rparr>)
          (upd_proc p (\<lambda>f. f\<lparr>p_trapframe := fst (kalloc s)\<rparr>) (?s2\<lparr>memory := m, free_mem_list := fl\<rparr>)))
          \<lparr>resume := (resume s)(p := Forkret), point := (point s)(p := Running_code)\<rparr>))"
      unfolding allocproc_def Some allocpid_def if_not_P [OF pid] bindE_Inr option.case prod.case Let_def by simp
    show thesis
    proof (cases "fst (kalloc s) = 0")
      case True
      show thesis by (rule no_page [OF p True _ k [unfolded True]]) (simp add: a True upd_proc_def)
    next
      case False
      show thesis by (rule found [OF p False k]) (simp add: a False upd_proc_def)
    qed
  qed
qed

lemma reap_eq:
  assumes "reap lk addr c s = Inr s'"
  shows "\<exists>m fl. s' = upd_proc c (\<lambda>f. f\<lparr>p_status := TASK_FREE, p_pid := 0, p_parent := None,
      p_name := (p_name f)(0 := 0), p_trapframe := 0, p_kstack := 0\<rparr>) (s\<lparr>memory := m, free_mem_list := fl\<rparr>)"
proof -
  obtain m0 where m0: "(if addr \<noteq> 0 then s\<lparr>memory := store_le 4 (memory s) addr (p_xstate (proc s c))\<rparr> else s) = s\<lparr>memory := m0\<rparr>"
    by (cases "addr = 0") (auto intro: that [of "memory s"])
  let ?f = "\<lambda>f. f\<lparr>p_status := TASK_FREE, p_pid := 0, p_parent := None, p_name := (p_name f)(0 := 0)\<rparr>"
  let ?s2 = "upd_proc c ?f (s\<lparr>memory := m0\<rparr>)"
  obtain s3 s5 where r: "free_page lk (p_trapframe (proc s c)) ?s2 = Inr s3"
    "free_page lk (p_kstack (proc s3 c)) (upd_proc c (\<lambda>f. f\<lparr>p_trapframe := 0\<rparr>) s3) = Inr s5"
    "s' = upd_proc c (\<lambda>f. f\<lparr>p_kstack := 0\<rparr>) s5"
    using assms unfolding reap_def m0 Let_def by (auto simp: bindE_eq_Inr)
  obtain m1 f1 where "s3 = ?s2\<lparr>memory := m1, free_mem_list := f1\<rparr>" using free_page_frame [OF r(1)] by blast
  moreover obtain m2 f2 where "s5 = (upd_proc c (\<lambda>f. f\<lparr>p_trapframe := 0\<rparr>) s3)\<lparr>memory := m2, free_mem_list := f2\<rparr>"
    using free_page_frame [OF r(2)] by blast
  ultimately show ?thesis
    unfolding r(3) by (intro exI [of _ m2] exI [of _ f2]) (cases s, simp add: upd_proc_def)
qed

lemma wait_scan_cases:
  assumes "wait_scan lk addr p h cs s = Inr (r, s')"
  shows "(r = Must_sleep \<or> r = No_children) \<and> s' = s \<or>
    (\<exists>c \<in> set cs. r = Reaped (p_pid (proc s c)) \<and> p_parent (proc s c) = Some p \<and>
       p_status (proc s c) = TASK_ZOMBIE \<and> reap lk addr c s = Inr s')"
  using assms by (induction cs arbitrary: h) (auto simp: bindE_eq_Inr split: if_splits)

lemma exit_begin_facts:
  assumes "exit_begin status s = Inr s'" "cpu_proc s = Some p"
  shows "at s' = at s" "cpu_proc s' = cpu_proc s" "resume s' = resume s" "point s' = point s"
    "proc s' j = (let x = (if j = p then (proc s j)\<lparr>p_xstate := status\<rparr> else proc s j);
        y = (if j < NPROC \<and> p_parent (proc s j) = Some p then x\<lparr>p_parent := Some 0\<rparr> else x);
        chan = (if p < NPROC \<and> p_parent (proc s p) = Some p then Some 0 else p_parent (proc s p))
      in if j < NPROC \<and> j \<noteq> p \<and> p_status (proc s j) = TASK_SLEEPING \<and> p_chan (proc s j) = chan
         then y\<lparr>p_status := TASK_READY\<rparr> else y)"
proof -
  let ?t = "upd_proc p (\<lambda>f. f\<lparr>p_xstate := status\<rparr>) s"
  obtain u where u: "printf (Some (ascii ''Process %d exited with status %d'' @ [0x0a])) [VInt (p_pid (proc s p)), VInt status] ?t = Inr u"
    "s' = (let v = reparent p u in wakeup (p_parent (proc v p)) v)"
    using assms by (auto simp: exit_begin_def running_def myproc_def bindE_eq_Inr Let_def)
  obtain c where c: "u = ?t\<lparr>console_out := c\<rparr>" using printf_frame [OF u(1)] by (auto simp: only_console_def)
  show "at s' = at s" "cpu_proc s' = cpu_proc s" "resume s' = resume s" "point s' = point s"
    by (simp_all add: u(2) c Let_def wakeup_eq reparent_eq)
  show "proc s' j = (let x = (if j = p then (proc s j)\<lparr>p_xstate := status\<rparr> else proc s j);
        y = (if j < NPROC \<and> p_parent (proc s j) = Some p then x\<lparr>p_parent := Some 0\<rparr> else x);
        chan = (if p < NPROC \<and> p_parent (proc s p) = Some p then Some 0 else p_parent (proc s p))
      in if j < NPROC \<and> j \<noteq> p \<and> p_status (proc s j) = TASK_SLEEPING \<and> p_chan (proc s j) = chan
         then y\<lparr>p_status := TASK_READY\<rparr> else y)"
    by (cases "j = p") (auto simp: u(2) c Let_def wakeup_eq reparent_eq myproc_def assms(2))
qed

lemma fork_facts:
  assumes f: "fork lk s = Inr (r, s')" and p: "cpu_proc s = Some p"
  shows "at s' = at s" "cpu_proc s' = cpu_proc s"
    "(r = -1 \<and> s' = s) \<or> (\<exists>q < NPROC. p_status (proc s q) = TASK_FREE \<and>
       (\<forall>j. j \<noteq> q \<longrightarrow> proc s' j = proc s j \<and> resume s' j = resume s j \<and> point s' j = point s j) \<and>
       (r = -1 \<and> p_status (proc s' q) = TASK_FREE \<or>
        r = nextpid s \<and> p_status (proc s' q) = TASK_READY \<and> resume s' q = Forkret \<and> point s' q = Running_code \<and>
          p_pid (proc s' q) = nextpid s \<and> p_parent (proc s' q) = Some p))"
proof -
  have "at s' = at s \<and> cpu_proc s' = cpu_proc s \<and> ((r = -1 \<and> s' = s) \<or> (\<exists>q < NPROC. p_status (proc s q) = TASK_FREE \<and>
       (\<forall>j. j \<noteq> q \<longrightarrow> proc s' j = proc s j \<and> resume s' j = resume s j \<and> point s' j = point s j) \<and>
       (r = -1 \<and> p_status (proc s' q) = TASK_FREE \<or>
        r = nextpid s \<and> p_status (proc s' q) = TASK_READY \<and> resume s' q = Forkret \<and> point s' q = Running_code \<and>
          p_pid (proc s' q) = nextpid s \<and> p_parent (proc s' q) = Some p)))"
  proof (cases rule: allocproc_cases [of s lk])
    case full
    then show ?thesis using f p by (simp add: fork_def running_def myproc_def)
  next
    case (no_page q m fl)
    then have "r = -1" "s' = upd_proc q (\<lambda>f. f\<lparr>p_pid := nextpid s, p_trapframe := 0, p_status := TASK_FREE\<rparr>)
         (s\<lparr>nextpid := nextpid s + 1, memory := m, free_mem_list := fl\<rparr>)"
      using f p by (simp_all add: fork_def running_def myproc_def)
    then show ?thesis using no_page(1,2) by (intro conjI) (simp, simp, rule disjI2, rule exI [of _ q], simp)
  next
    case (found q tf m fl)
    define g0 where "g0 = (\<lambda>f :: pcb. f\<lparr>p_pid := nextpid s, p_trapframe := tf, p_status := TASK_ALLOCATED, p_parent := None,
      p_chan := None, p_killed := 0, p_xstate := 0, p_context := new_context lk\<rparr>)"
    define s1 where "s1 = (upd_proc q g0 (s\<lparr>nextpid := nextpid s + 1, memory := m, free_mem_list := fl\<rparr>))
      \<lparr>resume := (resume s)(q := Forkret), point := (point s)(q := Running_code)\<rparr>"
    have a: "allocproc lk s = Inr (Some q, s1)" using found(5) unfolding s1_def g0_def .
    obtain ks m1 f1 where k: "kalloc s1 = (ks, s1\<lparr>memory := m1, free_mem_list := f1\<rparr>)" using kalloc_frame by blast
    have s1: "at s1 = at s" "cpu_proc s1 = cpu_proc s" "proc s1 q = g0 (proc s q)" "resume s1 q = Forkret" "point s1 q = Running_code"
      "\<And>j. j \<noteq> q \<Longrightarrow> proc s1 j = proc s j \<and> resume s1 j = resume s j \<and> point s1 j = point s j"
      by (simp_all add: s1_def)
    show ?thesis
    proof (cases "ks = 0")
      case True
      then have "r = -1" "s' = upd_proc q (\<lambda>f. f\<lparr>p_status := TASK_FREE\<rparr>) (upd_proc q (\<lambda>f. f\<lparr>p_kstack := 0\<rparr>)
          (s1\<lparr>memory := m1, free_mem_list := f1\<rparr>))"
        using f p k by (simp_all add: fork_def running_def myproc_def a Let_def)
      then show ?thesis using found(1,2) s1 by (intro conjI) (simp, simp, rule disjI2, rule exI [of _ q], simp)
    next
      case False
      define u where "u = upd_proc q (\<lambda>f. f\<lparr>p_kstack := ks\<rparr>) (s1\<lparr>memory := m1, free_mem_list := f1\<rparr>)"
      define g where "g = (\<lambda>f :: pcb. f\<lparr>p_context := (p_context f)\<lparr>ctx_sp := ks + PGSIZE\<rparr>,
        p_pagetable := p_pagetable (proc u p), p_sz := p_sz (proc u p), p_parent := Some p,
        p_name := (\<lambda>i. if i < 16 then p_name (proc u p) i else p_name f i), p_status := TASK_READY\<rparr>)"
      define m2 where "m2 = store64 (copy_page (p_trapframe (proc u q)) (p_trapframe (proc u p)) (memory u))
        (entry (p_trapframe (proc u q)) TF_a0) 0"
      have "fork lk s = Inr (p_pid (proc (upd_proc q g (u\<lparr>memory := m2\<rparr>)) q), upd_proc q g (u\<lparr>memory := m2\<rparr>))"
        unfolding fork_def running_def myproc_def p option.case a bindE_Inr k prod.case Let_def if_not_P [OF False] g_def m2_def u_def ..
      then have "r = p_pid (proc (upd_proc q g (u\<lparr>memory := m2\<rparr>)) q)" "s' = upd_proc q g (u\<lparr>memory := m2\<rparr>)"
        using f by simp_all
      then show ?thesis using found(1,2) s1 by (intro conjI) (simp add: u_def, simp add: u_def, rule disjI2, rule exI [of _ q], simp add: g_def g0_def u_def)
    qed
  next
    case overflow
    then show ?thesis using f p by (simp add: fork_def running_def myproc_def)
  qed
  then show "at s' = at s" "cpu_proc s' = cpu_proc s"
    "(r = -1 \<and> s' = s) \<or> (\<exists>q < NPROC. p_status (proc s q) = TASK_FREE \<and>
       (\<forall>j. j \<noteq> q \<longrightarrow> proc s' j = proc s j \<and> resume s' j = resume s j \<and> point s' j = point s j) \<and>
       (r = -1 \<and> p_status (proc s' q) = TASK_FREE \<or>
        r = nextpid s \<and> p_status (proc s' q) = TASK_READY \<and> resume s' q = Forkret \<and> point s' q = Running_code \<and>
          p_pid (proc s' q) = nextpid s \<and> p_parent (proc s' q) = Some p))" by blast+
qed

section \<open>Every step keeps the invariant\<close>

lemma at_point_inv [simp]: "sched_inv (at_point p k s) = sched_inv s"
  by (simp add: sched_inv_def at_point_def)

lemma sched_round_inv:
  assumes inv: "sched_inv s" and p: "at s = Scheduler p" and r: "sched_round p s = Inr s'"
  shows "sched_inv s'"
proof -
  have none: "cpu_proc s = None" using inv p by (simp add: sched_inv_def)
  show ?thesis
  proof (cases "p < NPROC \<and> p_status (proc s p) = TASK_READY")
    case False
    then have "s' = s\<lparr>at := Scheduler 0\<rparr> \<or> s' = s\<lparr>at := Scheduler (Suc p)\<rparr>"
      using r by (auto simp: sched_round_def split: if_splits)
    then show ?thesis using inv p unfolding sched_inv_def by auto
  next
    case True
    let ?t = "(upd_proc p (\<lambda>f. f\<lparr>p_status := TASK_RUNNING\<rparr>) s)\<lparr>cpu_proc := Some p, at := Kernel p\<rparr>"
    have t: "sched_inv ?t"
      using inv p True unfolding sched_inv_def by (auto simp: upd_proc_def)
    have "s' = ?t \<or> s' = upd_proc p (\<lambda>f. f\<lparr>p_chan := None\<rparr>) ?t"
      using r True by (auto simp: sched_round_def swtch_in_def split: resume_point.splits)
    moreover have "sched_inv (upd_proc p (\<lambda>f. f\<lparr>p_chan := None\<rparr>) ?t)"
      by (rule sched_inv_same [OF t]) (simp_all add: upd_proc_def)
    ultimately show ?thesis using t by auto
  qed
qed

lemma kstep_inv:
  assumes "kstep lk s s'" "sched_inv s"
  shows "sched_inv s'"
  using assms
proof (induction rule: kstep.induct)
  case (schedule s p s')
  then show ?case using sched_round_inv by blast
next
  case (timer s p s')
  then have "s' = swtch_out p Yielded (upd_proc p (\<lambda>f. f\<lparr>p_status := TASK_READY\<rparr>) s)"
    using sched_invD(2) [of s p] by (auto simp: yield_def running_def myproc_def)
  then show ?case using sched_inv_out [OF timer.prems timer.hyps(1), of TASK_READY] by simp
next
  case (do_fork s p r s')
  have c: "cpu_proc s = Some p" by (rule sched_invD(2) [OF do_fork.prems do_fork.hyps(1)])
  note f = fork_facts [OF do_fork.hyps(3) c]
  from f(3) show ?case
  proof (elim disjE exE conjE)
    fix q assume q: "q < NPROC" "p_status (proc s q) = TASK_FREE"
      "\<forall>j. j \<noteq> q \<longrightarrow> proc s' j = proc s j \<and> resume s' j = resume s j \<and> point s' j = point s j"
    have nq: "at s \<noteq> Kernel q" using sched_invD(3) [OF do_fork.prems q(1)] q(2) by auto
    show "sched_inv s'" if "r = -1" "p_status (proc s' q) = TASK_FREE"
      by (rule sched_inv_slot [OF do_fork.prems f(1,2) nq]) (use q that in auto)
    show "sched_inv s'" if "p_status (proc s' q) = TASK_READY" "resume s' q = Forkret"
      by (rule sched_inv_slot [OF do_fork.prems f(1,2) nq]) (use q that in auto)
  qed (use do_fork.prems in simp)
next
  case (wait_returns s p addr r s')
  have c: "cpu_proc s = Some p" by (rule sched_invD(2) [OF wait_returns.prems wait_returns.hyps(1)])
  have "wait_scan lk addr p False [0..<NPROC] s = Inr (r, s')"
    using wait_returns.hyps(3) c by (simp add: wait_round_def running_def myproc_def)
  from wait_scan_cases [OF this] show ?case
  proof (elim disjE conjE bexE)
    fix q assume q: "q \<in> set [0..<NPROC]" "p_status (proc s q) = TASK_ZOMBIE" "reap lk addr q s = Inr s'"
    have nq: "at s \<noteq> Kernel q" using sched_invD(3) [OF wait_returns.prems, of q] q(1,2) by auto
    have "sched_inv s'"
      by (rule sched_inv_slot [OF wait_returns.prems _ _ nq]) (use reap_eq [OF q(3)] in auto)
    then show ?thesis by simp
  qed (use wait_returns in simp_all)
next
  case (wait_blocks s p addr s')
  have c: "cpu_proc s = Some p" by (rule sched_invD(2) [OF wait_blocks.prems wait_blocks.hyps(1)])
  have "wait_scan lk addr p False [0..<NPROC] s = Inr (Must_sleep, s')"
    using wait_blocks.hyps(3) c by (simp add: wait_round_def running_def myproc_def)
  from wait_scan_cases [OF this] show ?case using wait_blocks.prems by auto
next
  case (wait_sleeps s p addr s')
  have c: "cpu_proc s = Some p" by (rule sched_invD(2) [OF wait_sleeps.prems wait_sleeps.hyps(1)])
  then have "s' = swtch_out p Asleep (upd_proc p (\<lambda>f. f\<lparr>p_chan := Some p, p_status := TASK_SLEEPING\<rparr>) s)"
    using wait_sleeps.hyps(3) by (auto simp: sleep_def running_def myproc_def)
  then show ?case using sched_inv_out [OF wait_sleeps.prems wait_sleeps.hyps(1), of TASK_SLEEPING] by simp
next
  case (exit_begins s p status s')
  have c: "cpu_proc s = Some p" by (rule sched_invD(2) [OF exit_begins.prems exit_begins.hyps(1)])
  note e = exit_begin_facts [OF exit_begins.hyps(3) c]
  have st: "p_status (proc s' j) = p_status (proc s j) \<or> p_status (proc s j) = TASK_SLEEPING \<and> p_status (proc s' j) = TASK_READY" for j
    unfolding e(5) Let_def by auto
  have "(p_status (proc s' j) = TASK_RUNNING \<longleftrightarrow> at s = Kernel j) \<and>
      (p_status (proc s' j) = TASK_READY \<longrightarrow> resume s' j \<noteq> Exited) \<and>
      (p_status (proc s' j) = TASK_SLEEPING \<longrightarrow> resume s' j = Asleep)" if "j < NPROC" for j
    using st [of j] sched_invD(3-5) [OF exit_begins.prems that] e(3) by auto
  then have "sched_inv s'" using exit_begins.prems e(1,2) unfolding sched_inv_def by simp
  then show ?case by simp
next
  case (exit_ends s p s')
  have c: "cpu_proc s = Some p" by (rule sched_invD(2) [OF exit_ends.prems exit_ends.hyps(1)])
  then have "s' = swtch_out p Exited (upd_proc p (\<lambda>f. f\<lparr>p_status := TASK_ZOMBIE\<rparr>) s)"
    using exit_ends.hyps(3) by (auto simp: exit_end_def running_def myproc_def)
  then show ?case using sched_inv_out [OF exit_ends.prems exit_ends.hyps(1), of TASK_ZOMBIE] by simp
qed

lemma ksteps_inv: "(kstep lk)\<^sup>*\<^sup>* s s' \<Longrightarrow> sched_inv s \<Longrightarrow> sched_inv s'"
  by (induction rule: rtranclp_induct) (auto intro: kstep_inv)

lemma inv_one_running:
  assumes "sched_inv s" "i < NPROC" "j < NPROC" "p_status (proc s i) = TASK_RUNNING" "p_status (proc s j) = TASK_RUNNING"
  shows "i = j \<and> cpu_proc s = Some i"
  using sched_invD(2,3) [OF assms(1)] assms(2-5) by (metis cpu_at.inject(2))

lemma inv_no_zombie:
  assumes "sched_inv s" "at s = Scheduler p"
  shows "sched_round p s \<noteq> Inl (Panic ''exit: zombie returned'')"
proof
  assume a: "sched_round p s = Inl (Panic ''exit: zombie returned'')"
  then have "p < NPROC" "p_status (proc s p) = TASK_READY" "resume s p = Exited"
    by (auto simp: sched_round_def swtch_in_def split: if_splits resume_point.splits)
  then show False using sched_invD(4) [OF assms(1)] by blast
qed

section \<open>Round robin\<close>

text \<open>\<open>n\<close> rounds of the scheduler, stopping at a dispatch.\<close>

primrec sched_rounds :: "nat \<Rightarrow> 'a procs_scheme \<Rightarrow> 'a procs_scheme res" where
  "sched_rounds 0 s = Inr s"
| "sched_rounds (Suc n) s =
     (case at s of Kernel _ \<Rightarrow> Inr s | Scheduler p \<Rightarrow> bindE (sched_round p s) (sched_rounds n))"

lemma sched_rounds_add:
  "sched_rounds m s = Inr t \<Longrightarrow> sched_rounds (m + n) s = sched_rounds n t"
proof (induction m arbitrary: s)
  case (Suc m)
  show ?case
  proof (cases "at s")
    case (Kernel k)
    then have "t = s" using Suc.prems by simp
    moreover have "sched_rounds n s = Inr s" for n using Kernel by (cases n) simp_all
    ultimately show ?thesis by simp
  next
    case (Scheduler p)
    then show ?thesis using Suc by (auto simp: bindE_eq_Inr)
  qed
qed simp

lemma sched_rounds_ksteps: "sched_rounds n s = Inr t \<Longrightarrow> (kstep lk)\<^sup>*\<^sup>* s t"
proof (induction n arbitrary: s)
  case (Suc n)
  show ?case
  proof (cases "at s")
    case (Scheduler p)
    then obtain u where "sched_round p s = Inr u" "sched_rounds n u = Inr t" using Suc.prems by (auto simp: bindE_eq_Inr)
    then show ?thesis using Suc.IH kstep.schedule [OF Scheduler] by (meson converse_rtranclp_into_rtranclp)
  qed (use Suc.prems in simp)
qed simp

text \<open>Slots that are not ready are passed over.\<close>

lemma sched_skip:
  "at s = Scheduler i \<Longrightarrow> i + k \<le> NPROC \<Longrightarrow> \<forall>j. i \<le> j \<longrightarrow> j < i + k \<longrightarrow> p_status (proc s j) \<noteq> TASK_READY \<Longrightarrow>
     sched_rounds k s = Inr (s\<lparr>at := Scheduler (i + k)\<rparr>)"
proof (induction k arbitrary: s i)
  case 0
  then have "s\<lparr>at := Scheduler (i + 0)\<rparr> = s" by simp
  then show ?case by simp
next
  case (Suc k)
  let ?t = "s\<lparr>at := Scheduler (Suc i)\<rparr>"
  have "sched_round i s = Inr ?t" using Suc.prems by (simp add: sched_round_def)
  moreover have "sched_rounds k ?t = Inr (?t\<lparr>at := Scheduler (Suc i + k)\<rparr>)"
    by (rule Suc.IH) (use Suc.prems in simp_all)
  ultimately show ?case using Suc.prems(1) by simp
qed

definition dispatched :: "nat \<Rightarrow> 'a procs_scheme \<Rightarrow> 'a procs_scheme" where
  "dispatched p s =
     (let t = (upd_proc p (\<lambda>f. f\<lparr>p_status := TASK_RUNNING\<rparr>) s)\<lparr>cpu_proc := Some p, at := Kernel p\<rparr>
      in if resume s p = Asleep then upd_proc p (\<lambda>f. f\<lparr>p_chan := None\<rparr>) t else t)"

lemma sched_dispatch:
  assumes "p < NPROC" "p_status (proc s p) = TASK_READY" "resume s p \<noteq> Exited"
  shows "sched_round p s = Inr (dispatched p s)"
  using assms by (cases "resume s p") (simp_all add: sched_round_def swtch_in_def dispatched_def Let_def)

text \<open>The order in which the slots get their turn from slot \<open>i\<close> on.\<close>

definition turn_order :: "nat \<Rightarrow> nat list" where
  "turn_order i = [i..<NPROC] @ [0..<i]"

lemma find_upt_Some:
  assumes "find P [i..<n] = Some j"
  shows "i \<le> j" "j < n" "P j" "i \<le> a \<Longrightarrow> a < j \<Longrightarrow> \<not> P a"
proof -
  obtain m where m: "m < n - i" "P (i + m)" "j = i + m" "\<forall>k < m. \<not> P (i + k)"
    using assms by (auto simp: find_Some_iff)
  show "i \<le> j" "j < n" "P j" using m by auto
  show "\<not> P a" if "i \<le> a" "a < j" using m(4) [rule_format, of "a - i"] that m(3) by simp
qed

lemma find_append_Some: "find P (xs @ ys) = Some j \<longleftrightarrow> find P xs = Some j \<or> find P xs = None \<and> find P ys = Some j"
  by (induction xs) auto

lemma sched_next:
  assumes inv: "sched_inv s" and i: "at s = Scheduler i" "i \<le> NPROC"
    and f: "find (\<lambda>j. p_status (proc s j) = TASK_READY) (turn_order i) = Some j"
  shows "\<exists>n \<le> NPROC + 2. \<exists>k. sched_rounds n s = Inr (dispatched j (s\<lparr>at := k\<rparr>))"
proof -
  let ?P = "\<lambda>j. p_status (proc s j) = TASK_READY"
  have hit: "sched_rounds (Suc 0) u = Inr (dispatched j u)" if "u = s\<lparr>at := Scheduler j\<rparr>" "j < NPROC" "?P j" for u
    using sched_dispatch [of j u] that sched_invD(4) [OF inv that(2,3)] by (simp add: bindE_def)
  from f consider (now) "find ?P [i..<NPROC] = Some j" | (again) "find ?P [i..<NPROC] = None" "find ?P [0..<i] = Some j"
    unfolding turn_order_def find_append_Some by (elim disjE conjE) assumption+
  then show ?thesis
  proof cases
    case now
    note fu = find_upt_Some [OF now]
    have s1: "sched_rounds (j - i) s = Inr (s\<lparr>at := Scheduler (i + (j - i))\<rparr>)"
      by (rule sched_skip [OF i(1)]) (use fu in auto)
    have "i + (j - i) = j" using fu(1) by simp
    note s1 = s1 [unfolded this]
    have "sched_rounds ((j - i) + Suc 0) s = Inr (dispatched j (s\<lparr>at := Scheduler j\<rparr>))"
      unfolding sched_rounds_add [OF s1] by (rule hit [OF refl]) (use fu in simp_all)
    then show ?thesis using fu(2) by (intro exI [of _ "(j - i) + Suc 0"]) auto
  next
    case again
    note fu = find_upt_Some [OF again(2)]
    have no: "\<not> ?P a" if "i \<le> a" "a < NPROC" for a using again(1) that by (auto simp: find_None_iff)
    have "sched_rounds (NPROC - i) s = Inr (s\<lparr>at := Scheduler (i + (NPROC - i))\<rparr>)"
      by (rule sched_skip [OF i(1)]) (use i(2) no in auto)
    moreover have "i + (NPROC - i) = NPROC" using i(2) by simp
    ultimately have s1: "sched_rounds (NPROC - i) s = Inr (s\<lparr>at := Scheduler NPROC\<rparr>)" by simp
    let ?u = "s\<lparr>at := Scheduler NPROC\<rparr>"
    have s2: "sched_rounds (Suc 0) ?u = Inr (s\<lparr>at := Scheduler 0\<rparr>)"
      by (simp add: sched_round_def)
    have "sched_rounds j (s\<lparr>at := Scheduler 0\<rparr>) = Inr ((s\<lparr>at := Scheduler 0\<rparr>)\<lparr>at := Scheduler (0 + j)\<rparr>)"
      by (rule sched_skip) (use fu i(2) in auto)
    then have s3: "sched_rounds j (s\<lparr>at := Scheduler 0\<rparr>) = Inr (s\<lparr>at := Scheduler j\<rparr>)" by simp
    have jn: "j < NPROC" using fu(2) i(2) by simp
    have "sched_rounds (j + Suc 0) (s\<lparr>at := Scheduler 0\<rparr>) = Inr (dispatched j (s\<lparr>at := Scheduler j\<rparr>))"
      unfolding sched_rounds_add [OF s3] by (rule hit [OF refl]) (use jn fu(3) in simp_all)
    then have "sched_rounds (Suc 0 + (j + Suc 0)) ?u = Inr (dispatched j (s\<lparr>at := Scheduler j\<rparr>))"
      unfolding sched_rounds_add [OF s2] .
    then have "sched_rounds ((NPROC - i) + (Suc 0 + (j + Suc 0))) s = Inr (dispatched j (s\<lparr>at := Scheduler j\<rparr>))"
      unfolding sched_rounds_add [OF s1] .
    moreover have "(NPROC - i) + (Suc 0 + (j + Suc 0)) \<le> NPROC + 2" using fu(2) i(2) by linarith
    ultimately show ?thesis by blast
  qed
qed

section \<open>Properties of the scheduler\<close>

text \<open>The table as \<open>userinit\<close> leaves it: processes that have never run, in unused slots otherwise.\<close>

definition boot_table :: "'a procs_scheme \<Rightarrow> bool" where
  "boot_table s \<longleftrightarrow> (\<forall>j < NPROC. p_status (proc s j) = TASK_FREE \<or>
     p_status (proc s j) = TASK_READY \<and> resume s j = Forkret)"

lemma boot_inv: "boot_table s \<Longrightarrow> sched_inv (scheduler_start s)"
  unfolding boot_table_def sched_inv_def scheduler_start_def by auto

text \<open>
  C4: From the boot on, whatever processes do and whenever the timer interrupts them, at most one
  process is marked as running, and it is the one the CPU's descriptor names.
\<close>

theorem one_process_runs:
  assumes "boot_table s" and "(kstep lk)\<^sup>*\<^sup>* (scheduler_start s) u"
    and "i < NPROC" and "j < NPROC" and "p_status (proc u i) = TASK_RUNNING" and "p_status (proc u j) = TASK_RUNNING"
  shows "i = j \<and> cpu_proc u = Some i"
  using inv_one_running [OF ksteps_inv [OF assms(2) boot_inv [OF assms(1)]]] assms(3-6) by blast

text \<open>
  C35: No process that has finished \<open>exit\<close> ever gets the CPU again: the scheduler never runs into
  the panic that guards the end of \<open>exit\<close>.
\<close>

theorem zombie_never_returns:
  assumes "boot_table s" and "(kstep lk)\<^sup>*\<^sup>* (scheduler_start s) u" and "at u = Scheduler p"
  shows "sched_round p u \<noteq> Inl (Panic ''exit: zombie returned'')"
  by (rule inv_no_zombie [OF ksteps_inv [OF assms(2) boot_inv [OF assms(1)]] assms(3)])


text \<open>A table with two processes that have not run yet.\<close>

definition demo_pcb :: pcb where
  "demo_pcb = \<lparr>p_status = TASK_FREE, p_pid = 0, p_pagetable = 0, p_trapframe = 0,
     p_context = \<lparr>ctx_s = \<lambda>_. 0, ctx_ra = 0, ctx_sp = 0\<rparr>, p_kstack = 0, p_sz = 0, p_name = \<lambda>_. 0,
     p_ofile = \<lambda>_. None, p_parent = None, p_chan = None, p_killed = 0, p_xstate = 0\<rparr>"

definition demo_procs :: procs where
  "demo_procs = files.extend demo_open (procs.fields
     ((\<lambda>_. demo_pcb)(0 := demo_pcb\<lparr>p_status := TASK_READY, p_pid := 1\<rparr>,
        1 := demo_pcb\<lparr>p_status := TASK_READY, p_pid := 2, p_parent := Some 0\<rparr>))
     3 None (Scheduler 0) (\<lambda>_. Forkret) (\<lambda>_. Running_code))"

lemma demo_procs_sel: "proc demo_procs 0 = demo_pcb\<lparr>p_status := TASK_READY, p_pid := 1\<rparr>"
  "proc demo_procs (Suc 0) = demo_pcb\<lparr>p_status := TASK_READY, p_pid := 2, p_parent := Some 0\<rparr>"
  "j \<noteq> 0 \<Longrightarrow> j \<noteq> Suc 0 \<Longrightarrow> proc demo_procs j = demo_pcb" "resume demo_procs j = Forkret" "point demo_procs j = Running_code"
  "p_status demo_pcb = TASK_FREE" "p_parent demo_pcb = None" "nextpid demo_procs = 3"
  by (simp_all add: demo_procs_def files.defs procs.defs demo_pcb_def)

lemma demo_boot: "boot_table demo_procs"
proof -
  have "p_status (proc demo_procs j) = TASK_FREE \<or> p_status (proc demo_procs j) = TASK_READY" for j
    by (cases "j = 0 \<or> j = Suc 0") (auto simp: demo_procs_sel)
  then show ?thesis by (simp add: boot_table_def demo_procs_sel(4))
qed

lemma demo_dispatch: "(kstep lk)\<^sup>*\<^sup>* (scheduler_start demo_procs) (dispatched 0 (scheduler_start demo_procs))"
  "p_status (proc (dispatched 0 (scheduler_start demo_procs)) 0) = TASK_RUNNING"
proof -
  have "sched_round 0 (scheduler_start demo_procs) = Inr (dispatched 0 (scheduler_start demo_procs))"
    by (rule sched_dispatch) (simp_all add: scheduler_start_def demo_procs_sel)
  then show "(kstep lk)\<^sup>*\<^sup>* (scheduler_start demo_procs) (dispatched 0 (scheduler_start demo_procs))"
    by (intro r_into_rtranclp kstep.schedule [of _ 0]) (simp_all add: scheduler_start_def)
  show "p_status (proc (dispatched 0 (scheduler_start demo_procs)) 0) = TASK_RUNNING"
    by (simp add: dispatched_def Let_def)
qed

theorem one_process_runs_witness:
  "cpu_proc (dispatched 0 (scheduler_start demo_procs)) = Some 0"
  using one_process_runs [OF demo_boot demo_dispatch(1) [of demo_symbols] _ _ demo_dispatch(2,2)] by simp

theorem zombie_never_returns_witness:
  "sched_round 0 (scheduler_start demo_procs) \<noteq> Inl (Panic ''exit: zombie returned'')"
  by (rule zombie_never_returns [OF demo_boot rtranclp.rtrancl_refl [of "kstep demo_symbols"]])
    (simp add: scheduler_start_def)


end
