(* ===== verification/Lost_Wakeup.thy ===== *)
theory Lost_Wakeup
  imports Sched
begin

text \<open>
  The window between the scan of \<open>wait\<close> and its call of \<open>sleep\<close> (\<open>kernel/proc/proc.c\<close>): neither
  holds a lock and interrupts are on, so the wakeup of an exiting child can fall into it.
\<close>

section \<open>Steps of the two processes\<close>

lemma wait_scan_blocks:
  assumes "\<forall>c \<in> set cs. p_parent (proc s c) = Some p \<longrightarrow> p_status (proc s c) \<noteq> TASK_ZOMBIE"
    and "h \<or> (\<exists>c \<in> set cs. p_parent (proc s c) = Some p)"
  shows "wait_scan lk addr p h cs s = Inr (Must_sleep, s)"
  using assms by (induction cs arbitrary: h) auto

lemma find_only:
  assumes "c \<in> set xs" "P c" "\<forall>x \<in> set xs. P x \<longrightarrow> x = c"
  shows "find P xs = Some c"
proof -
  obtain x where x: "find P xs = Some x" using assms(1,2) by (cases "find P xs") (auto simp: find_None_iff)
  then have "x = c" using find_SomeD [OF x] assms(3) by blast
  then show ?thesis using x by simp
qed

text \<open>Of all processes only \<open>p\<close> and \<open>c\<close> exist, with the statuses \<open>sp\<close> and \<open>sc\<close>.\<close>

definition two_processes :: "nat \<Rightarrow> nat \<Rightarrow> task_status \<Rightarrow> task_status \<Rightarrow> 'a procs_scheme \<Rightarrow> bool" where
  "two_processes p c sp sc s \<longleftrightarrow> p < NPROC \<and> c < NPROC \<and> c \<noteq> p \<and> p_status (proc s p) = sp \<and> p_status (proc s c) = sc \<and>
     (\<forall>j < NPROC. j \<noteq> p \<longrightarrow> j \<noteq> c \<longrightarrow> p_status (proc s j) = TASK_FREE)"

lemma two_processes_ready:
  "two_processes p c sp sc s \<Longrightarrow> j < NPROC \<Longrightarrow> p_status (proc s j) = TASK_READY \<Longrightarrow>
     j = p \<and> sp = TASK_READY \<or> j = c \<and> sc = TASK_READY"
  unfolding two_processes_def by (cases "j = p"; cases "j = c") auto

text \<open>The scheduler dispatches the only ready process, or from behind \<open>p\<close> on the other one.\<close>

lemma dispatch_only:
  assumes inv: "sched_inv s" and i: "at s = Scheduler i" "i \<le> NPROC" and j: "j < NPROC" "p_status (proc s j) = TASK_READY"
    and only: "\<And>k. k < NPROC \<Longrightarrow> p_status (proc s k) = TASK_READY \<Longrightarrow> k = j \<or> i = Suc k"
    and wake: "resume s j \<noteq> Asleep"
  shows "\<exists>k. (kstep lk)\<^sup>*\<^sup>* s ((upd_proc j (\<lambda>f. f\<lparr>p_status := TASK_RUNNING\<rparr>) s)\<lparr>cpu_proc := Some j, at := Kernel j\<rparr>)"
proof -
  let ?P = "\<lambda>j. p_status (proc s j) = TASK_READY"
  have mem: "x \<in> set (turn_order i) \<Longrightarrow> x < NPROC" for x using i(2) by (auto simp: turn_order_def)
  have "find ?P (turn_order i) = Some j"
  proof (cases "i = Suc j")
    case True
    have "k = j" if "k < NPROC" "?P k" for k using only [OF that] True by (metis nat.inject)
    then have "\<forall>x \<in> set (turn_order i). ?P x \<longrightarrow> x = j" using mem by blast
    moreover have "j \<in> set (turn_order i)" using j(1) True by (simp add: turn_order_def)
    ultimately show ?thesis using j(2) by (intro find_only)
  next
    case False
    define front where "front = filter (\<lambda>x. i \<noteq> Suc x) (turn_order i)"
    obtain rest where t: "turn_order i = front @ rest"
    proof (cases i)
      case 0
      then have "turn_order i = front @ []" by (simp add: front_def turn_order_def)
      then show thesis by (rule that)
    next
      case (Suc k)
      have "filter (\<lambda>x. x \<noteq> k) [Suc k..<NPROC] = [Suc k..<NPROC]" "filter (\<lambda>x. x \<noteq> k) [0..<k] = [0..<k]"
        by (auto simp: filter_id_conv simp del: NPROC_def)
      moreover have "front = filter (\<lambda>x. x \<noteq> k) ([Suc k..<NPROC] @ [0..<k] @ [k])"
        unfolding front_def turn_order_def Suc by (rule filter_cong) auto
      ultimately have "turn_order i = front @ [k]" by (simp add: turn_order_def Suc del: NPROC_def)
      then show thesis by (rule that)
    qed
    have "x \<in> set front \<Longrightarrow> x < NPROC \<and> i \<noteq> Suc x" for x using i(2) by (auto simp: front_def turn_order_def)
    then have "\<forall>x \<in> set front. ?P x \<longrightarrow> x = j" using only by blast
    moreover have "j \<in> set front" using j(1) False by (auto simp: front_def turn_order_def)
    ultimately have "find ?P front = Some j" using j(2) by (intro find_only)
    then show ?thesis unfolding t find_append_Some by blast
  qed
  then obtain n k where r: "sched_rounds n s = Inr (dispatched j (s\<lparr>at := k\<rparr>))" using sched_next [OF inv i] by blast
  have "dispatched j (s\<lparr>at := k\<rparr>) = (upd_proc j (\<lambda>f. f\<lparr>p_status := TASK_RUNNING\<rparr>) s)\<lparr>cpu_proc := Some j, at := Kernel j\<rparr>"
    using wake by (simp add: dispatched_def upd_proc_def)
  then show ?thesis using sched_rounds_ksteps [OF r, of lk] by auto
qed

text \<open>With nobody ready only the scheduler's position changes, for ever.\<close>

lemma idle_forever:
  assumes "(kstep lk)\<^sup>*\<^sup>* s v" "at s = Scheduler i" "\<forall>j < NPROC. p_status (proc s j) \<noteq> TASK_READY"
  shows "\<exists>k. v = s\<lparr>at := Scheduler k\<rparr>"
  using assms(1)
proof (induction rule: rtranclp_induct)
  case base
  have "s = s\<lparr>at := Scheduler i\<rparr>" using assms(2) [symmetric] by simp
  then show ?case by blast
next
  case (step u v)
  then obtain k where u: "u = s\<lparr>at := Scheduler k\<rparr>" by blast
  from step.hyps(2) show ?case
  proof cases
    case (schedule p)
    then have "v = u\<lparr>at := Scheduler 0\<rparr> \<or> v = u\<lparr>at := Scheduler (Suc p)\<rparr>"
      using assms(3) u by (auto simp: sched_round_def split: if_splits)
    then show ?thesis unfolding u by auto
  qed (simp_all add: u)
qed

lemma exit_begin_returns:
  assumes "cpu_proc s = Some p" and "p_pid (proc s p) \<noteq> 0x80000000" and "status \<noteq> 0x80000000"
  shows "\<exists>s'. exit_begin status s = Inr s'"
proof -
  obtain k where "printf (Some (ascii ''Process %d exited with status %d'' @ [0x0a])) [VInt (p_pid (proc s p)), VInt status]
      (upd_proc p (\<lambda>f. f\<lparr>p_xstate := status\<rparr>) s) = Inr ((upd_proc p (\<lambda>f. f\<lparr>p_xstate := status\<rparr>) s)\<lparr>console_out := k\<rparr>)"
    using printf_ok [OF kernel_formats(1) [THEN iffD2]] assms(2,3) by blast
  then show ?thesis unfolding exit_begin_def running_def myproc_def assms(1) option.case by (simp only: bindE_Inr Let_def) blast
qed

section \<open>The run\<close>

lemma wakeup_lost:
  assumes inv: "sched_inv s" and p: "at s = Kernel p" "point s p = Running_code"
    and two: "two_processes p c TASK_RUNNING TASK_READY s"
    and c: "p_parent (proc s c) = Some p" "point s c = Running_code" "resume s c \<noteq> Asleep" "p_pid (proc s c) \<noteq> 0x80000000"
  shows "\<exists>u. (kstep lk)\<^sup>*\<^sup>* s u \<and> at u = Scheduler (Suc p) \<and> two_processes p c TASK_SLEEPING TASK_ZOMBIE u"
proof -
  have pc: "p < NPROC" "c < NPROC" "c \<noteq> p" "p_status (proc s p) = TASK_RUNNING" "p_status (proc s c) = TASK_READY"
    and fr: "\<And>j. j < NPROC \<Longrightarrow> j \<noteq> p \<Longrightarrow> j \<noteq> c \<Longrightarrow> p_status (proc s j) = TASK_FREE"
    using two unfolding two_processes_def by auto
  have cp: "cpu_proc s = Some p" by (rule sched_invD(2) [OF inv p(1)])
  text \<open>The scan finds the child still running, then the timer interrupts the parent.\<close>
  have "p_status (proc s j) \<noteq> TASK_ZOMBIE" if "j \<in> set [0..<NPROC]" for j
    using fr [of j] pc(4,5) that by (cases "j = p"; cases "j = c") auto
  moreover have "c \<in> set [0..<NPROC]" using pc(2) by simp
  ultimately have w: "wait_round lk 0 s = Inr (Must_sleep, s)"
    unfolding wait_round_def running_def myproc_def cp option.case using c(1) by (intro wait_scan_blocks) blast+
  let ?s1 = "at_point p (Before_sleep 0) s"
  have st1: "kstep lk s ?s1" by (rule kstep.wait_blocks [OF p(1) _ w]) (simp add: p(2))
  let ?s2 = "swtch_out p Yielded (upd_proc p (\<lambda>f. f\<lparr>p_status := TASK_READY\<rparr>) ?s1)"
  have st2: "kstep lk ?s1 ?s2"
    by (rule kstep.timer [of _ p]) (simp_all add: at_point_def p pc yield_def running_def myproc_def cp)
  have inv2: "sched_inv ?s2" using kstep_inv [OF st2 kstep_inv [OF st1 inv]] .
  text \<open>The child runs, and exits.\<close>
  let ?s3 = "(upd_proc c (\<lambda>f. f\<lparr>p_status := TASK_RUNNING\<rparr>) ?s2)\<lparr>cpu_proc := Some c, at := Kernel c\<rparr>"
  have o3: "k = c \<or> Suc p = Suc k" if "k < NPROC" "p_status (proc ?s2 k) = TASK_READY" for k
    using that fr [of k] by (cases "k = p") (auto simp: swtch_out_def upd_proc_def at_point_def)
  have st3: "(kstep lk)\<^sup>*\<^sup>* ?s2 ?s3"
    using dispatch_only [OF inv2 _ _ pc(2) _ o3] pc c(3) by (simp add: swtch_out_def upd_proc_def at_point_def)
  have inv3: "sched_inv ?s3" by (rule ksteps_inv [OF st3 inv2])
  obtain s4 where e: "exit_begin 0 ?s3 = Inr s4" 
    using exit_begin_returns [of ?s3 c 0] c(4) pc(3) by (auto simp: swtch_out_def upd_proc_def at_point_def)
  have cp3: "cpu_proc ?s3 = Some c" by simp
  note f4 = exit_begin_facts [OF e cp3]
  have c3: "p_status (proc ?s3 c) = TASK_RUNNING" "p_status (proc ?s3 p) = TASK_READY" "p_parent (proc ?s3 c) = Some p"
    "point ?s3 c = Running_code" "point ?s3 p = Before_sleep 0" "resume ?s3 p = Yielded"
    "\<And>j. j < NPROC \<Longrightarrow> j \<noteq> p \<Longrightarrow> j \<noteq> c \<Longrightarrow> p_status (proc ?s3 j) = TASK_FREE"
    using pc c fr by (simp_all add: swtch_out_def upd_proc_def at_point_def)
  have st4: "kstep lk ?s3 (at_point c Before_zombie s4)"
    by (rule kstep.exit_begins [OF _ _ e]) (use c3 in simp_all)
  have p4: "p_status (proc s4 j) = p_status (proc ?s3 j)" if "j < NPROC" for j
  proof -
    have "p_status (proc ?s3 j) \<noteq> TASK_SLEEPING" using c3(1,2) c3(7) [OF that] by (cases "j = p"; cases "j = c") auto
    then show ?thesis unfolding f4(5) Let_def by auto
  qed
  let ?s5 = "swtch_out c Exited (upd_proc c (\<lambda>f. f\<lparr>p_status := TASK_ZOMBIE\<rparr>) (at_point c Before_zombie s4))"
  have st5: "kstep lk (at_point c Before_zombie s4) ?s5"
    by (rule kstep.exit_ends [of _ c]) (simp_all add: at_point_def f4 exit_end_def running_def myproc_def)
  have inv5: "sched_inv ?s5" using kstep_inv [OF st5 kstep_inv [OF st4 inv3]] .
  have f5: "p_status (proc ?s5 p) = TASK_READY" "p_status (proc ?s5 c) = TASK_ZOMBIE" "at ?s5 = Scheduler (Suc c)"
    "resume ?s5 p = Yielded" "point ?s5 p = Before_sleep 0"
    "\<And>j. j < NPROC \<Longrightarrow> j \<noteq> p \<Longrightarrow> j \<noteq> c \<Longrightarrow> p_status (proc ?s5 j) = TASK_FREE"
    using pc c3 p4 f4(3,4) by (simp_all add: swtch_out_def upd_proc_def at_point_def)
  text \<open>The parent goes on, with its call of \<open>sleep\<close>.\<close>
  let ?s6 = "(upd_proc p (\<lambda>f. f\<lparr>p_status := TASK_RUNNING\<rparr>) ?s5)\<lparr>cpu_proc := Some p, at := Kernel p\<rparr>"
  have o6: "k = p \<or> Suc c = Suc k" if "k < NPROC" "p_status (proc ?s5 k) = TASK_READY" for k
    using that f5(6) [of k] by (cases "k = p"; cases "k = c") auto
  have st6: "(kstep lk)\<^sup>*\<^sup>* ?s5 ?s6"
    using dispatch_only [OF inv5 f5(3) _ pc(1) f5(1) o6] pc(2) f5(4) by simp
  let ?s7 = "at_point p (In_wait 0) (swtch_out p Asleep (upd_proc p (\<lambda>f. f\<lparr>p_chan := Some p, p_status := TASK_SLEEPING\<rparr>) ?s6))"
  have st7: "kstep lk ?s6 ?s7"
    by (rule kstep.wait_sleeps) (use f5(5) in \<open>simp_all add: sleep_def running_def myproc_def\<close>)
  have "(kstep lk)\<^sup>*\<^sup>* s ?s7"
    using st1 st2 st3 st4 st5 st6 st7 by (meson rtranclp.rtrancl_into_rtrancl rtranclp.rtrancl_refl rtranclp_trans)
  moreover have "at ?s7 = Scheduler (Suc p)" by (simp add: at_point_def swtch_out_def)
  moreover have "two_processes p c TASK_SLEEPING TASK_ZOMBIE ?s7"
    unfolding two_processes_def using pc f5 by (auto simp: at_point_def swtch_out_def upd_proc_def)
  ultimately show ?thesis by blast
qed

text \<open>
  C18: A wakeup can be lost.  From any state in which a process is about to call \<open>wait\<close> while its only
  child is ready to run, there is an interleaving (the timer strikes between the scan of \<open>wait\<close> and
  its call of \<open>sleep\<close>, and the child exits) after which the parent sleeps with its child a zombie,
  and whatever happens from then on neither changes: \<open>wait\<close> never returns.  (The child's process id must
  not be the least integer, which \<open>exit\<close> could not print; \<open>allocpid\<close> gives no negative ones.)
\<close>

theorem wait_can_miss_wakeup:
  assumes "sched_inv s" and "at s = Kernel p" and "point s p = Running_code"
    and "two_processes p c TASK_RUNNING TASK_READY s"
    and "p_parent (proc s c) = Some p" and "point s c = Running_code" and "resume s c \<noteq> Asleep"
    and "p_pid (proc s c) \<noteq> 0x80000000"
  shows "\<exists>u. (kstep lk)\<^sup>*\<^sup>* s u \<and> two_processes p c TASK_SLEEPING TASK_ZOMBIE u \<and>
    (\<forall>v. (kstep lk)\<^sup>*\<^sup>* u v \<longrightarrow> two_processes p c TASK_SLEEPING TASK_ZOMBIE v)"
proof -
  obtain u where u: "(kstep lk)\<^sup>*\<^sup>* s u" "at u = Scheduler (Suc p)" "two_processes p c TASK_SLEEPING TASK_ZOMBIE u"
    using wakeup_lost [OF assms] by blast
  have "\<forall>j < NPROC. p_status (proc u j) \<noteq> TASK_READY" using two_processes_ready [OF u(3)] by blast
  then have "two_processes p c TASK_SLEEPING TASK_ZOMBIE v" if "(kstep lk)\<^sup>*\<^sup>* u v" for v
    using idle_forever [OF that u(2)] u(3) by (auto simp: two_processes_def)
  then show ?thesis using u(1,3) by blast
qed

text \<open>Both processes of the example table after the first dispatch.\<close>

theorem wait_can_miss_wakeup_witness:
  "\<exists>u. (kstep demo_symbols)\<^sup>*\<^sup>* (scheduler_start demo_procs) u \<and> p_status (proc u 0) = TASK_SLEEPING \<and>
     p_status (proc u 1) = TASK_ZOMBIE"
proof -
  let ?s = "dispatched 0 (scheduler_start demo_procs)"
  have s: "at ?s = Kernel 0" "point ?s j = Running_code" "resume ?s j = Forkret" "p_status (proc ?s 0) = TASK_RUNNING"
    "j \<noteq> 0 \<Longrightarrow> proc ?s j = proc demo_procs j" for j
    by (simp_all add: dispatched_def scheduler_start_def demo_procs_sel)
  have inv: "sched_inv ?s" using ksteps_inv [OF demo_dispatch(1) boot_inv [OF demo_boot]] .
  have two: "two_processes 0 1 TASK_RUNNING TASK_READY ?s"
    unfolding two_processes_def by (simp add: s demo_procs_sel)
  obtain u where "(kstep demo_symbols)\<^sup>*\<^sup>* ?s u" "two_processes 0 1 TASK_SLEEPING TASK_ZOMBIE u"
    using wait_can_miss_wakeup [OF inv s(1,2) two, of demo_symbols] by (auto simp: s demo_procs_sel)
  then show ?thesis using rtranclp_trans [OF demo_dispatch(1)] by (auto simp: two_processes_def intro!: exI [of _ u])
qed

end
