(* ===== verification/User_Program.thy ===== *)
theory User_Program
  imports Console Fs_Alloc
begin

text \<open>
  The first user program, \<open>user/proczero.c\<close>, as the sequence of its system calls: a \<open>prog\<close> is its next
  call and how it goes on with the reply.  The stubs of \<open>user/usys.S\<close> are the constructors of \<open>ucall\<close>.
\<close>

section \<open>Programs\<close>

datatype ucall = U_getpid | U_fork | U_wait | U_write i32 "u8 list" | U_open "u8 list" i32
  | U_read i32 nat | U_close i32

text \<open>A reply is the result and the bytes the kernel has put into the buffer of the caller.\<close>

datatype prog = Sys ucall "i32 \<times> u8 list \<Rightarrow> prog" | Exit i32 | Undefined

section \<open>Output\<close>

definition printchar :: "u8 \<Rightarrow> prog \<Rightarrow> prog" where
  "printchar c k = Sys (U_write 1 [c]) (\<lambda>_. k)"

text \<open>The bytes of a string in memory, before its terminating 0.\<close>

definition printstr :: "u8 list \<Rightarrow> prog \<Rightarrow> prog" where
  "printstr s k = Sys (U_write 1 s) (\<lambda>_. k)"

text \<open>The loop that fills \<open>buf\<close>, which has \<open>room\<close> more places, and the one that sends it from the end.\<close>

primrec num_digits :: "nat \<Rightarrow> u32 \<Rightarrow> u8 list option" where
  "num_digits 0 x = (if 0 < x then None else Some [])"
| "num_digits (Suc room) x =
     (if 0 < x then map_option (Cons (0x30 + ucast (x mod 10))) (num_digits room (x div 10)) else Some [])"

primrec send_back :: "u8 list \<Rightarrow> prog \<Rightarrow> prog" where
  "send_back [] k = k"
| "send_back (c # cs) k = Sys (U_write 1 [c]) (\<lambda>_. send_back cs k)"

text \<open>\<open>-n\<close> is undefined for the least integer.\<close>

definition printnum :: "i32 \<Rightarrow> prog \<Rightarrow> prog" where
  "printnum n k =
     (let rest = (\<lambda>x. if x = 0 then printchar 0x30 k
        else case num_digits 16 x of None \<Rightarrow> Undefined | Some buf \<Rightarrow> send_back (rev buf) k)
      in if sint n < 0 then printchar 0x2d (if least_int n then Undefined else rest (ucast (- n))) else rest (ucast n))"

section \<open>main\<close>

definition hello_path :: "u8 list" where "hello_path = ascii ''/hello.txt''"
definition hello_text :: "u8 list" where "hello_text = ascii ''Hello, File System!'' @ [0x0a]"

definition write_test :: "prog \<Rightarrow> prog" where
  "write_test k =
     printstr (ascii ''Test 1: Writing file /hello.txt'' @ [0x0a])
       (Sys (U_open hello_path 0x201) (\<lambda>(fd, _).
          if sint fd < 0 then printstr (ascii ''open failed'' @ [0x0a]) k
          else Sys (U_write fd hello_text) (\<lambda>(r, _).
            let close_it = Sys (U_close fd) (\<lambda>_. k) in
            if r \<noteq> 20 then printstr (ascii ''write failed'' @ [0x0a]) close_it
            else printstr (ascii ''Test 1 passed: write 20 bytes'' @ [0x0a]) close_it)))"

text \<open>A buffer of 64 zeros that \<open>read\<close> has written into; without a 0 in it \<open>printstr\<close> would run past its end.\<close>

definition read_test :: "prog \<Rightarrow> prog" where
  "read_test k =
     printstr (ascii ''Test 2: Reading file /hello.txt'' @ [0x0a])
       (Sys (U_open hello_path 0) (\<lambda>(fd, _).
          if sint fd < 0 then printstr (ascii ''reopen failed'' @ [0x0a]) k
          else Sys (U_read fd 64) (\<lambda>(r, bs).
            Sys (U_close fd) (\<lambda>_.
              let buf = bs @ replicate (64 - length bs) 0 in
              if r \<noteq> 20 then printstr (ascii ''read wrong length'' @ [0x0a]) k
              else printstr (ascii ''Test 2 passed: read back: '')
                (if 0 \<in> set buf then printstr (takeWhile (\<lambda>c. c \<noteq> 0) buf) k else Undefined)))))"

definition fork_test :: "prog" where
  "fork_test =
     Sys U_fork (\<lambda>(child, _).
       if child = 0 then printstr (ascii ''Child: hello'' @ [0x0a]) (Exit 1)
       else Sys U_wait (\<lambda>(cpid, bs).
         printstr (ascii ''Parent: child '') (printnum cpid (printstr (ascii '' exited with '')
           (printnum (of_le 4 (\<lambda>i. bs ! i)) (printchar 0x0a (Exit 0)))))))"

definition user_main :: "prog" where
  "user_main =
     Sys U_getpid (\<lambda>(pid, _).
       printstr (ascii ''My pid: '') (printnum pid (printchar 0x0a (write_test (read_test fork_test)))))"

section \<open>Running a program\<close>

text \<open>What a program has sent to standard output after the replies \<open>rs\<close>, and what is left of it.\<close>

fun run :: "prog \<Rightarrow> (i32 \<times> u8 list) list \<Rightarrow> u8 list \<times> prog" where
  "run (Sys c k) (r # rs) =
     (let (out, p) = run (k r) rs in ((case c of U_write fd bs \<Rightarrow> if fd = 1 then bs @ out else out | _ \<Rightarrow> out), p))"
| "run p rs = ([], p)"

text \<open>
  \<open>char_calls p cs k\<close>: whatever the replies are, \<open>p\<close> calls \<open>write\<close> on standard output with one
  character at a time, those of \<open>cs\<close> in this order and no other call between them, and is then \<open>k\<close>.
\<close>

inductive char_calls :: "prog \<Rightarrow> u8 list \<Rightarrow> prog \<Rightarrow> bool" where
  no_char: "char_calls k [] k"
| one_char: "(\<And>r. char_calls (f r) cs k) \<Longrightarrow> char_calls (Sys (U_write 1 [c]) f) (c # cs) k"

inductive_simps char_calls_Cons: "char_calls p (c # cs) k"

text \<open>One reply is taken for each character, and the output is the characters.\<close>

lemma char_calls_run:
  "char_calls p cs k \<Longrightarrow> length rs = length cs \<Longrightarrow> run p (rs @ rest) = (let (out, q) = run k rest in (cs @ out, q))"
proof (induction arbitrary: rs rule: char_calls.induct)
  case (one_char f cs k c)
  then obtain r rs' where "rs = r # rs'" "length rs' = length cs" by (cases rs) auto
  then show ?case using one_char.IH by (simp add: Let_def split: prod.split)
qed simp

lemma char_calls_printchar: "char_calls p cs k \<Longrightarrow> char_calls (printchar c p) (c # cs) k"
  unfolding printchar_def by (rule one_char)

lemma char_calls_send_back: "char_calls (send_back cs k) cs k"
  by (induction cs) (auto intro: char_calls.intros)

lemma digit_char: "j < 10 \<Longrightarrow> digits ! j = 0x30 + of_nat j"
proof -
  assume "j < 10"
  then have "j \<in> set [0..<10]" by simp
  then show ?thesis by (simp add: upt_rec) (elim disjE; simp add: digits_def ascii_def of_char_def)
qed

lemma num_digits_put_digits:
  assumes "x \<noteq> 0" "put_digits room 10 x = Some ds"
  shows "num_digits room x = Some ds"
  using assms
proof (induction room arbitrary: x ds)
  case (Suc room)
  have m: "unat (x mod 10) < 10" by (simp add: unat_mod_distrib)
  then have "digits ! unat (x mod 10) = 0x30 + of_nat (unat (x mod 10))" by (rule digit_char)
  moreover have "of_nat (unat (x mod 10)) = (ucast (x mod 10) :: u8)" by simp
  ultimately have d: "digits ! unat (x mod 10) = 0x30 + ucast (x mod 10)" by simp
  have "0 < x" using Suc.prems(1) by (simp add: word_gt_0)
  show ?case
  proof (cases "x div 10 = 0")
    case True
    have "num_digits room 0 = Some []" by (cases room) simp_all
    then show ?thesis using Suc.prems(2) \<open>0 < x\<close> True d by (simp add: Let_def)
  next
    case False
    then show ?thesis using Suc.prems(2) \<open>0 < x\<close> d Suc.IH [OF False] by (auto simp: Let_def)
  qed
qed simp

text \<open>C40: The number printing of user programs is the kernel's: \<open>printnum\<close> makes one \<open>write\<close> call for each
  character and no other call, whatever the calls return, with exactly the characters the kernel sends for \<open>%d\<close>, and its
  buffer never overflows.  For the least integer both are undefined: the kernel at once, \<open>printnum\<close> after the minus sign.\<close>

theorem printnum_is_printint:
  "if n = 0x80000000 then printint n 10 True s = Inl (Fault ''signed overflow'') \<and> printnum n k = printchar 0x2d Undefined
   else \<exists>cs. printint n 10 True s = Inr (s\<lparr>console_out := console_out s @ cs\<rparr>) \<and> char_calls (printnum n k) cs k"
proof (cases "n = 0x80000000")
  case True
  then show ?thesis by (simp add: print_least printnum_def)
next
  case least: False
  define neg where "neg = (sint n < 0)"
  define x where "x = (if neg then - n else n)"
  have "unat x < 10 ^ 10" using unat_lt32 [of x] by simp
  then obtain ds where d: "put_digits 10 10 x = Some ds" "length ds \<le> 10"
    using put_digits_spec [of 10 x 10] by auto
  have ds: "put_digits 16 10 x = Some ds" using put_digits_mono [OF d(1)] by simp
  let ?cs = "(if neg then [0x2d] else []) @ rev ds"
  have minus: "ascii ''-'' = [0x2d]" by (simp add: ascii_def of_char_def)
  have "printint n 10 True s = Inr (s\<lparr>console_out := console_out s @ ?cs\<rparr>)"
    using ds d(2) least unfolding printint_def print_word_def neg_def x_def by (auto simp: Let_def uart_puts_out minus)
  moreover have "char_calls (printnum n k) ?cs k"
  proof (cases "x = 0")
    case True
    then have "\<not> neg" by (auto simp: neg_def x_def split: if_splits)
    moreover have "ds = [0x30]" using ds True by (simp add: digits_def ascii_def of_char_def Let_def numeral_nat)
    moreover have "ucast n = (0 :: u32)" using True \<open>\<not> neg\<close> by (simp add: x_def)
    ultimately show ?thesis
      using char_calls_printchar [OF no_char] by (simp add: printnum_def Let_def neg_def)
  next
    case False
    then have n: "num_digits 16 x = Some ds" using ds by (rule num_digits_put_digits)
    have "printnum n k = (if neg then printchar 0x2d (send_back (rev ds) k) else send_back (rev ds) k)"
      using False n least by (cases neg) (auto simp: printnum_def neg_def x_def)
    then show ?thesis using char_calls_send_back [of "rev ds" k] char_calls_printchar by simp
  qed
  ultimately show ?thesis using least by auto
qed

end
