(* ===== verification/File_Bounds.thy ===== *)
theory File_Bounds
  imports File_Data
begin

text \<open>
  The bounds checks of \<open>writei\<close> (\<open>kernel/fs/fs.c\<close>) in any state whatever, well formed or not: they are
  what keeps \<open>bmap\<close> from ever being asked for a block past the largest file.
\<close>

section \<open>What the file system operations leave alone\<close>

text \<open>The error \<open>bmap\<close> raises for a block number past the largest file, and only \<open>bmap\<close> does.\<close>

abbreviation out_of_range :: kerror where
  "out_of_range \<equiv> Panic ''bmap: out of range''"

lemma walk_list_in_range: "walk_list n go P bs b \<noteq> Inl out_of_range"
  by (induction n arbitrary: b) auto

lemma disk_request_in_range: "disk_request b w s \<noteq> Inl out_of_range"
  by (simp add: disk_request_def Let_def)

lemma bread_in_range: "bread dev blk s \<noteq> Inl out_of_range"
  by (auto simp: bread_def bget_def bindE_eq_Inl walk_list_in_range disk_request_in_range split: option.splits if_splits)

lemma bwrite_in_range: "bwrite b s \<noteq> Inl out_of_range"
  by (simp add: bwrite_def disk_request_in_range)

lemmas io_in_range = bread_in_range bwrite_in_range

text \<open>Operations on blocks do not touch the inodes in memory.\<close>

lemma io_icache:
  shows "bread dev blk s = Inr (b, t) \<Longrightarrow> icache t = icache (s :: 'a fs_scheme)"
    "bwrite b s = Inr t \<Longrightarrow> icache t = icache s" "icache (brelse b s) = icache s"
  using only_cache_fs [OF bread_only_cache] only_cache_fs [OF only_cache_bwrite] only_cache_fs [OF only_cache_brelse] by blast+

lemma set_data_icache [simp]: "icache (set_data b d s) = icache (s :: 'a fs_scheme)"
  by (simp add: set_data_def upd_buf_def)

lemma bzero_frame:
  shows "bzero dev b s \<noteq> Inl out_of_range" "bzero dev b s = Inr t \<Longrightarrow> icache t = icache (s :: 'a fs_scheme)"
  by (auto simp: bzero_def bindE_eq_Inl bindE_eq_Inr io_in_range io_icache dest!: io_icache(1,2))

lemma balloc_from_frame:
  shows "balloc_from dev b s \<noteq> Inl out_of_range \<and> (\<forall>a t. balloc_from dev b s = Inr (a, t) \<longrightarrow> icache t = icache s)"
proof (induction dev b s rule: balloc_from.induct)
  case (1 dev b s)
  show ?case
  proof (cases "b < sb_size (sb s)")
    case False
    then show ?thesis unfolding balloc_from.simps [of dev b s] by simp
  next
    case True
    note r = True
    show ?thesis
    proof (cases "bread dev (sb_bmapstart (sb s) + b div 8192) s")
      case (Inl e)
      then show ?thesis using True bread_in_range [of dev "sb_bmapstart (sb s) + b div 8192" s]
        unfolding balloc_from.simps [of dev b s] by simp
    next
      case (Inr x)
      obtain bp s1 where x: "x = (bp, s1)" by (cases x)
      note rd = Inr [unfolded x]
      show ?thesis
      proof (cases "scan_bitmap (b_data (bufs s1 bp)) b (sb_size (sb s1))")
        case (Some p)
        then show ?thesis using True rd unfolding balloc_from.simps [of dev b s]
          by (cases p) (auto simp: bindE_eq_Inl bindE_eq_Inr io_in_range bzero_frame io_icache dest!: io_icache(1,2) bzero_frame(2))
      next
        case None
        then show ?thesis using True rd "1.IH" [OF True rd refl None] unfolding balloc_from.simps [of dev b s]
          by (auto simp: io_icache dest: io_icache(1))
      qed
    qed
  qed
qed

lemma balloc_frame:
  shows "balloc dev s \<noteq> Inl out_of_range" "balloc dev s = Inr (a, t) \<Longrightarrow> icache t = icache s"
  using balloc_from_frame [of dev 0 s] by (simp_all add: balloc_def)

text \<open>Two states that agree on the sizes of all files.\<close>

definition same_sizes :: "'a fs_scheme \<Rightarrow> 'a fs_scheme \<Rightarrow> bool" where
  "same_sizes s t \<longleftrightarrow> (\<forall>q. i_size (icache t q) = i_size (icache s q))"

lemma same_sizes_icache: "icache t = icache s \<Longrightarrow> same_sizes s t"
  by (simp add: same_sizes_def)

lemma same_sizes_trans: "same_sizes s t \<Longrightarrow> same_sizes t u \<Longrightarrow> same_sizes s u"
  by (simp add: same_sizes_def)

lemma addr_or_alloc_frame:
  shows "addr_or_alloc ip k s \<noteq> Inl out_of_range" "addr_or_alloc ip k s = Inr (a, t) \<Longrightarrow> same_sizes s t"
  by (auto simp: addr_or_alloc_def Let_def bindE_eq_Inl bindE_eq_Inr balloc_frame same_sizes_def set_addr_def upd_inode_def
    dest!: balloc_frame(2) split: if_splits)

lemma bmap_frame:
  shows "unat bn < 268 \<Longrightarrow> bmap ip bn s \<noteq> Inl out_of_range" "bmap ip bn s = Inr (a, t) \<Longrightarrow> same_sizes s t"
proof -
  show "bmap ip bn s \<noteq> Inl out_of_range" if "unat bn < 268"
  proof -
    have "bn < 12 \<or> bn - 12 < 256" using that by (auto simp: word_less_nat_alt unat_sub32)
    then show ?thesis
      by (auto simp: bmap_def Let_def bindE_eq_Inl io_in_range balloc_frame addr_or_alloc_frame split: if_splits)
  qed
  show "same_sizes s t" if "bmap ip bn s = Inr (a, t)"
    using that
    by (auto simp: bmap_def Let_def bindE_eq_Inr io_icache same_sizes_def split: if_splits
      dest!: io_icache(1,2) balloc_frame(2) addr_or_alloc_frame(2))
qed

lemma iupdate_frame:
  shows "iupdate ip s \<noteq> Inl out_of_range" "iupdate ip s = Inr t \<Longrightarrow> icache t = icache s"
  by (auto simp: iupdate_def Let_def bindE_eq_Inl bindE_eq_Inr io_in_range io_icache dest!: io_icache(1,2))

section \<open>The bounds of a write\<close>

lemma writei_loop_bounds:
  assumes "tot \<le> n" "unat off + (unat n - unat tot) \<le> 274432"
  shows "writei_loop ip src tot off n s \<noteq> Inl out_of_range \<and>
    (\<forall>off' t. writei_loop ip src tot off n s = Inr (off', t) \<longrightarrow> off' = off + (n - tot) \<and> same_sizes s t)"
  using assms
proof (induction ip src tot off n s rule: writei_loop.induct)
  case (1 ip src tot off n s)
  note unf = writei_loop.simps [of ip src tot off n s]
  show ?case
  proof (cases "tot < n")
    case False
    then show ?thesis using "1.prems"(1) unfolding unf by (simp add: same_sizes_def)
  next
    case True
    define m where "m = chunk off n tot"
    note cb = chunk_bounds [OF True, of off, folded m_def]
    have lt: "unat tot < unat n" using True by (simp add: word_less_nat_alt)
    have "unat (off div 1024) < 268" unfolding unat_div32
      using "1.prems"(2) lt by (intro less_mult_imp_div_less) simp
    note bf = bmap_frame(1) [OF this, of ip s]
    show ?thesis
    proof (cases "bmap ip (off div 1024) s")
      case (Inl e)
      then show ?thesis using True bf unfolding unf by simp
    next
      case (Inr x)
      obtain blk s1 where b: "bmap ip (off div 1024) s = Inr (blk, s1)" using Inr by (cases x) simp
      note f1 = bmap_frame(2) [OF b]
      show ?thesis
      proof (cases "bread (i_dev (icache s1 ip)) blk s1")
        case (Inl e)
        then show ?thesis using True b io_in_range(1) [of "i_dev (icache s1 ip)" blk s1] unfolding unf by simp
      next
        case (Inr y)
        obtain bp s2 where r: "bread (i_dev (icache s1 ip)) blk s1 = Inr (bp, s2)" using Inr by (cases y) simp
        let ?s3 = "set_data bp (move_bytes (b_data (bufs s2 bp)) (unat (off mod 1024)) src (unat tot) (unat m)) s2"
        show ?thesis
        proof (cases "bwrite bp ?s3")
          case (Inl e)
          then show ?thesis using True b r io_in_range(2) [of bp ?s3] unfolding unf m_def by (simp add: Let_def)
        next
          case (Inr s4)
          have le: "tot + m \<le> n" using cb(2,4) lt by (simp add: word_le_nat_alt)
          have um: "unat (off + m) = unat off + unat m" using "1.prems"(2) cb(2) lt by (simp add: unat_add32)
          have fits: "unat (off + m) + (unat n - unat (tot + m)) \<le> 274432" using um cb(2,4) lt "1.prems"(2) by simp
          have "same_sizes s (brelse bp s4)"
            using f1 io_icache(1) [OF r] io_icache(2) [OF Inr] by (simp add: same_sizes_def io_icache(3))
          moreover have "writei_loop ip src tot off n s = writei_loop ip src (tot + m) (off + m) n (brelse bp s4)"
            using True b r Inr unfolding unf m_def by (simp add: Let_def)
          moreover have "off + m + (n - (tot + m)) = off + (n - tot)" by simp
          ultimately show ?thesis
            using "1.IH" [OF True b refl r refl m_def refl Inr le fits] same_sizes_trans by metis
        qed
      qed
    qed
  qed
qed

text \<open>
  C22: In any state, \<open>writei\<close> accepts a write exactly when it starts at or before the end of the file and
  ends within the largest file, with no wrap-around of \<open>off + n\<close>.  A write that is refused changes nothing
  and gives -1; one that is accepted never asks \<open>bmap\<close> for a block out of range, and when it returns
  the file is just long enough for it and all other files have the size they had.
\<close>

theorem writei_bounds:
  "case writei ip src off n s of
     Inl e \<Rightarrow> e \<noteq> out_of_range \<and> unat off \<le> unat (i_size (icache s ip)) \<and> unat off + unat n \<le> 274432
   | Inr (r, s') \<Rightarrow>
       if unat off \<le> unat (i_size (icache s ip)) \<and> unat off + unat n \<le> 274432
       then r = n \<and> unat (i_size (icache s' ip)) = max (unat (i_size (icache s ip))) (unat off + unat n) \<and>
         (\<forall>q. q = ip \<or> i_size (icache s' q) = i_size (icache s q))
       else r = -1 \<and> s' = s"
proof (cases "unat off \<le> unat (i_size (icache s ip)) \<and> unat off + unat n \<le> 274432")
  case False
  have "i_size (icache s ip) < off \<or> off + n < off \<or> MAXFILE < off + n"
  proof (rule ccontr)
    assume n: "\<not> (i_size (icache s ip) < off \<or> off + n < off \<or> MAXFILE < off + n)"
    then have "\<not> 2 ^ 32 \<le> unat off + unat n" unfolding add_overflow_iff by blast
    then have "unat (off + n) = unat off + unat n" by (simp add: unat_add32)
    then show False using n False by (simp add: word_less_nat_alt MAXFILE_def)
  qed
  then have "writei ip src off n s = Inr (-1, s)" by (auto simp: writei_def)
  then show ?thesis using False by (simp only: sum.case prod.case if_False)
next
  case True
  then have un: "unat (off + n) = unat off + unat n" by (simp add: unat_add32)
  have g: "\<not> (i_size (icache s ip) < off \<or> off + n < off)" "\<not> MAXFILE < off + n"
    using True un by (simp_all add: word_less_nat_alt MAXFILE_def)
  have wb: "writei_loop ip src 0 off n s \<noteq> Inl out_of_range \<and>
      (\<forall>off' t. writei_loop ip src 0 off n s = Inr (off', t) \<longrightarrow> off' = off + (n - 0) \<and> same_sizes s t)"
    by (rule writei_loop_bounds) (use True in simp_all)
  show ?thesis
  proof (cases "writei_loop ip src 0 off n s")
    case (Inl e)
    then have "writei ip src off n s = Inl e" unfolding writei_def using g by (simp only: if_False bindE_Inl)
    then show ?thesis using True wb Inl by simp
  next
    case (Inr x)
    obtain t where w: "writei_loop ip src 0 off n s = Inr (off + n, t)" and sz: "same_sizes s t"
      using Inr wb by (cases x) simp
    let ?u = "upd_inode ip (\<lambda>f. f\<lparr>i_size := off + n\<rparr>) t"
    have v: "writei ip src off n s =
        (if 0 < n \<and> i_size (icache t ip) < off + n then bindE (iupdate ip ?u) (\<lambda>s2. Inr (n, s2)) else Inr (n, t))"
      unfolding writei_def w using g by (simp only: if_False bindE_Inr prod.case)
    show ?thesis
    proof (cases "0 < n \<and> i_size (icache t ip) < off + n")
      case False
      have "writei ip src off n s = Inr (n, t)" unfolding v by (rule if_not_P [OF False])
      then show ?thesis using False True sz un by (auto simp: same_sizes_def word_less_nat_alt)
    next
      case grow: True
      have v: "writei ip src off n s = bindE (iupdate ip ?u) (\<lambda>s2. Inr (n, s2))" unfolding v by (rule if_P [OF grow])
      have s: "i_size (icache ?u q) = (if q = ip then off + n else i_size (icache s q))" for q
        using sz by (simp add: same_sizes_def upd_inode_def)
      show ?thesis
      proof (cases "iupdate ip ?u")
        case (Inl e)
        then show ?thesis unfolding v using True iupdate_frame(1) [of ip ?u] by simp
      next
        case (Inr s2)
        have "i_size (icache s2 q) = (if q = ip then off + n else i_size (icache s q))" for q
          unfolding iupdate_frame(2) [OF Inr] by (rule s)
        moreover have "unat (i_size (icache s ip)) < unat off + unat n"
          using grow sz un by (simp add: same_sizes_def word_less_nat_alt)
        ultimately show ?thesis unfolding v Inr using True un by simp
      qed
    qed
  qed
qed

end
