(* ===== verification/File_Write.thy ===== *)
theory File_Write
  imports File_Data
begin

text \<open>
  Writing to a file, \<open>bmap\<close> and \<open>writei\<close> of \<open>kernel/fs/fs.c\<close>: when a file keeps to its own blocks,
  allocation gives it blocks that nobody has, and a write changes exactly the bytes written.
\<close>

section \<open>The blocks of a file\<close>

text \<open>The blocks a file refers to, its indirect block included.\<close>

definition refs :: "(u32 \<Rightarrow> block) \<Rightarrow> (nat \<Rightarrow> u32) \<Rightarrow> u32 \<Rightarrow> bool" where
  "refs D a b \<longleftrightarrow> b \<noteq> 0 \<and> (a NDIRECT = b \<or> (\<exists>j < 268. fblock D a j = b))"

definition bitmap_block :: "u32 \<Rightarrow> nat \<Rightarrow> u32 \<Rightarrow> bool" where
  "bitmap_block bm sz b \<longleftrightarrow> (\<exists>x. unat x < sz \<and> b = bm + x div 8192)"

text \<open>
  A file that keeps to itself: its blocks are marked, lie inside the file system, are no blocks of the
  bitmap and are all different.  Block 0 is marked, so no file ever gets it.
\<close>

definition file_wf :: "(u32 \<Rightarrow> block) \<Rightarrow> u32 \<Rightarrow> nat \<Rightarrow> (nat \<Rightarrow> u32) \<Rightarrow> bool" where
  "file_wf D bm sz a \<longleftrightarrow> blk_used D bm 0 \<and>
     (\<forall>b. refs D a b \<longrightarrow> unat b < sz \<and> blk_used D bm b \<and> \<not> bitmap_block bm sz b) \<and>
     (\<forall>i < 268. \<forall>j < 268. fblock D a i \<noteq> 0 \<longrightarrow> fblock D a i = fblock D a j \<longrightarrow> i = j) \<and>
     (\<forall>j < 268. a NDIRECT \<noteq> 0 \<longrightarrow> fblock D a j \<noteq> a NDIRECT)"

lemma refsI: "j < 268 \<Longrightarrow> fblock D a j \<noteq> 0 \<Longrightarrow> refs D a (fblock D a j)" "a NDIRECT \<noteq> 0 \<Longrightarrow> refs D a (a NDIRECT)"
  by (auto simp: refs_def)

lemma file_wfD:
  assumes "file_wf D bm sz a"
  shows "blk_used D bm 0" "refs D a b \<Longrightarrow> unat b < sz" "refs D a b \<Longrightarrow> blk_used D bm b"
    "refs D a b \<Longrightarrow> \<not> bitmap_block bm sz b"
    "i < 268 \<Longrightarrow> j < 268 \<Longrightarrow> fblock D a i \<noteq> 0 \<Longrightarrow> fblock D a i = fblock D a j \<Longrightarrow> i = j"
    "j < 268 \<Longrightarrow> a NDIRECT \<noteq> 0 \<Longrightarrow> fblock D a j \<noteq> a NDIRECT"
  using assms by (simp_all add: file_wf_def)

text \<open>The disk before and after an allocation, as far as files can tell.\<close>

definition fresh_block :: "(u32 \<Rightarrow> block) \<Rightarrow> (u32 \<Rightarrow> block) \<Rightarrow> u32 \<Rightarrow> nat \<Rightarrow> u32 \<Rightarrow> bool" where
  "fresh_block D D' bm sz blk \<longleftrightarrow> unat blk < sz \<and> \<not> blk_used D bm blk \<and> \<not> bitmap_block bm sz blk \<and>
     (\<forall>i < 1024. D' blk i = 0) \<and> (\<forall>k. k \<noteq> blk \<longrightarrow> \<not> bitmap_block bm sz k \<longrightarrow> D' k = D k) \<and>
     (\<forall>b. unat b < sz \<longrightarrow> blk_used D' bm b = (blk_used D bm b \<or> b = blk))"

lemma fresh_blockD:
  assumes "fresh_block D D' bm sz blk"
  shows "unat blk < sz" "\<not> blk_used D bm blk" "\<not> bitmap_block bm sz blk" "i < 1024 \<Longrightarrow> D' blk i = 0"
    "k \<noteq> blk \<Longrightarrow> \<not> bitmap_block bm sz k \<Longrightarrow> D' k = D k" "unat b < sz \<Longrightarrow> blk_used D' bm b = (blk_used D bm b \<or> b = blk)"
  using assms by (simp_all add: fresh_block_def)

lemma allocates_fresh:
  assumes ok: "alloc_ok s" and a: "allocates H s s' blk"
  shows "fresh_block (disk s) (disk s') (sb_bmapstart (sb s)) (unat (sb_size (sb s))) blk"
proof -
  let ?bm = "sb_bmapstart (sb s)" and ?sz = "unat (sb_size (sb s))"
  note f = allocates_facts [OF ok a]
  have b: "unat blk < ?sz" "\<not> blk_used (disk s) ?bm blk" using a by (simp_all add: allocates_def)
  have "\<not> bitmap_block ?bm ?sz blk" using alloc_ok_bitmap_block(2) [OF ok] b(2) unfolding bitmap_block_def by blast
  moreover have "disk s' k = disk s k" if "k \<noteq> blk" "\<not> bitmap_block ?bm ?sz k" for k
    using f(8) [of k] that b(1) unfolding bitmap_block_def by blast
  ultimately show ?thesis using b f(7,9) unfolding fresh_block_def by blast
qed

lemma fblock_kept:
  assumes wf: "file_wf D bm sz a" and fr: "fresh_block D D' bm sz blk"
  shows "refs D a b \<Longrightarrow> b \<noteq> blk" "refs D a b \<Longrightarrow> D' b = D b" "blk \<noteq> 0" "fblock D' a j = fblock D a j"
proof -
  note w = file_wfD [OF wf] and f = fresh_blockD [OF fr]
  show ne: "b \<noteq> blk" if "refs D a b" for b using w(3) [OF that] f(2) by metis
  show k: "D' b = D b" if "refs D a b" for b by (rule f(5) [OF ne [OF that] w(4) [OF that]])
  show "blk \<noteq> 0" using w(1) f(2) by metis
  show "fblock D' a j = fblock D a j"
  proof (cases "a NDIRECT = 0")
    case False
    show ?thesis unfolding fblock_def k [OF refsI(2) [where a = a, OF False]] ..
  qed (simp add: fblock_def)
qed

text \<open>One of the 13 entries gets the new block.\<close>

lemma fblock_new_entry:
  assumes wf: "file_wf D bm sz a" and fr: "fresh_block D D' bm sz blk" and k: "k \<le> NDIRECT" "a k = 0" and j: "j < 268"
  shows "fblock D' (a(k := blk)) j = (if j = k \<and> k < NDIRECT then blk else fblock D a j)"
proof (cases "k = NDIRECT")
  case True
  have "get_le 4 (D' blk) (4 * (j - NDIRECT)) = (get_le 4 (\<lambda>_. 0) (4 * (j - NDIRECT)) :: u32)" if "NDIRECT \<le> j"
    using j that unfolding get_le_def by (intro of_le_cong fresh_blockD(4) [OF fr]) (simp add: NDIRECT_def)
  then show ?thesis using True k fblock_kept(3) [OF wf fr] by (simp add: fblock_def)
next
  case False
  have "fblock D' (a(k := blk)) j = (if j = k \<and> k < NDIRECT then blk else fblock D' a j)"
    using False k by (simp add: fblock_def)
  then show ?thesis unfolding fblock_kept(4) [OF wf fr] .
qed

lemma refs_new_entry:
  assumes wf: "file_wf D bm sz a" and fr: "fresh_block D D' bm sz blk" and k: "k \<le> NDIRECT" "a k = 0"
  shows "refs D' (a(k := blk)) b \<Longrightarrow> refs D a b \<or> b = blk"
  unfolding refs_def
proof (elim conjE disjE exE)
  fix j assume "b \<noteq> 0" "j < 268" "fblock D' (a(k := blk)) j = b"
  then show "b \<noteq> 0 \<and> (a NDIRECT = b \<or> (\<exists>j<268. fblock D a j = b)) \<or> b = blk"
    unfolding fblock_new_entry [OF assms \<open>j < 268\<close>] by (metis (full_types))
qed (auto split: if_splits)

lemma file_wf_new_entry:
  assumes wf: "file_wf D bm sz a" and fr: "fresh_block D D' bm sz blk" and k: "k \<le> NDIRECT" "a k = 0"
  shows "file_wf D' bm sz (a(k := blk))"
proof -
  let ?a = "a(k := blk)"
  note fb = fblock_new_entry [OF wf fr k] and kept = fblock_kept [OF wf fr] and w = file_wfD [OF wf] and f = fresh_blockD [OF fr]
  have fa: "fblock D a j \<noteq> blk" if "j < 268" for j using kept(1,3) refsI(1) [OF that] by metis
  have ia: "a NDIRECT \<noteq> blk" using kept(1,3) refsI(2) by metis
  show ?thesis
    unfolding file_wf_def
  proof (intro conjI allI impI)
    have "unat (0 :: u32) < sz" using f(1) by simp
    then show "blk_used D' bm 0" using w(1) f(6) by blast
    fix b assume "refs D' ?a b"
    then have r: "refs D a b \<or> b = blk" by (rule refs_new_entry [OF wf fr k])
    then show sz: "unat b < sz" and "\<not> bitmap_block bm sz b" using w(2,4) f(1,3) by metis+
    show "blk_used D' bm b" using r w(3) f(6) [OF sz] by metis
  next
    fix i j assume ij: "i < 268" "j < 268" "fblock D' ?a i \<noteq> 0" "fblock D' ?a i = fblock D' ?a j"
    then show "i = j"
      using w(5) [OF ij(1,2)] fa [OF ij(1)] fa [OF ij(2)] unfolding fb [OF ij(1)] fb [OF ij(2)] by (simp split: if_splits)
  next
    fix j assume j: "j < (268 :: nat)" "?a NDIRECT \<noteq> 0"
    show "fblock D' ?a j \<noteq> ?a NDIRECT"
    proof (cases "k = NDIRECT")
      case True
      then show ?thesis using fa [OF j(1)] unfolding fb [OF j(1)] by simp
    next
      case False
      then have "fblock D a j \<noteq> a NDIRECT" using w(6) [OF j(1)] j(2) by simp
      then show ?thesis using False ia unfolding fb [OF j(1)] by simp
    qed
  qed
qed

section \<open>Steps of a file\<close>

lemma blk_used_upd: "\<not> bitmap_block bm sz x \<Longrightarrow> unat b < sz \<Longrightarrow> blk_used (D(x := e)) bm b = blk_used D bm b"
  unfolding blk_used_def bitmap_block_def by auto

text \<open>The bytes of a file, with a 0 where it has no block.\<close>

definition hbyte :: "(u32 \<Rightarrow> block) \<Rightarrow> (nat \<Rightarrow> u32) \<Rightarrow> nat \<Rightarrow> u8" where
  "hbyte D a i = (if fblock D a (i div 1024) = 0 then 0 else fbyte D a i)"

lemma hbyte_fbyte: "fblock D a (i div 1024) \<noteq> 0 \<Longrightarrow> fbyte D a i = hbyte D a i"
  by (simp add: hbyte_def)

text \<open>
  What a step of a file may do to the disk: the file keeps its blocks and stays well formed, new
  blocks are ones that were free, marks stay, and the blocks of everybody else keep their contents.
\<close>

definition file_step :: "u32 \<Rightarrow> nat \<Rightarrow> (u32 \<Rightarrow> block) \<Rightarrow> (nat \<Rightarrow> u32) \<Rightarrow> (u32 \<Rightarrow> block) \<Rightarrow> (nat \<Rightarrow> u32) \<Rightarrow> bool" where
  "file_step bm sz D a D' a' \<longleftrightarrow> file_wf D' bm sz a' \<and>
     (\<forall>j < 268. fblock D a j \<noteq> 0 \<longrightarrow> fblock D' a' j = fblock D a j) \<and>
     (\<forall>b. unat b < sz \<longrightarrow> blk_used D bm b \<longrightarrow> blk_used D' bm b) \<and>
     (\<forall>b. refs D' a' b \<longrightarrow> refs D a b \<or> \<not> blk_used D bm b) \<and>
     (\<forall>b. unat b < sz \<longrightarrow> blk_used D bm b \<longrightarrow> \<not> refs D a b \<longrightarrow> \<not> bitmap_block bm sz b \<longrightarrow> D' b = D b)"

lemma file_stepD:
  assumes "file_step bm sz D a D' a'"
  shows "file_wf D' bm sz a'" "j < 268 \<Longrightarrow> fblock D a j \<noteq> 0 \<Longrightarrow> fblock D' a' j = fblock D a j"
    "unat b < sz \<Longrightarrow> blk_used D bm b \<Longrightarrow> blk_used D' bm b" "refs D' a' b \<Longrightarrow> blk_used D bm b \<Longrightarrow> refs D a b"
    "unat b < sz \<Longrightarrow> blk_used D bm b \<Longrightarrow> \<not> refs D a b \<Longrightarrow> \<not> bitmap_block bm sz b \<Longrightarrow> D' b = D b"
  using assms unfolding file_step_def by blast+

lemma file_step_refl: "file_wf D bm sz a \<Longrightarrow> file_step bm sz D a D a"
  by (simp add: file_step_def)

lemma file_step_trans:
  assumes "file_step bm sz D a D1 a1" "file_step bm sz D1 a1 D2 a2"
  shows "file_step bm sz D a D2 a2"
proof -
  note s = file_stepD [OF assms(1)] and t = file_stepD [OF assms(2)]
  have r: "refs D a b" if "refs D2 a2 b" "blk_used D bm b" for b
  proof -
    have "unat b < sz" by (rule file_wfD(2) [OF t(1) that(1)])
    then have "refs D1 a1 b" using t(4) s(3) that by blast
    then show ?thesis using s(4) that(2) by blast
  qed
  have f: "fblock D2 a2 j = fblock D a j" if "j < 268" "fblock D a j \<noteq> 0" for j
    using s(2) [OF that] t(2) [OF that(1)] that(2) by simp
  have d: "D2 b = D b" if "unat b < sz" "blk_used D bm b" "\<not> refs D a b" "\<not> bitmap_block bm sz b" for b
    using s(3-5) [of b] t(5) [of b] that by metis
  show ?thesis unfolding file_step_def using t(1) f r d s(3) t(3) by blast
qed

lemma step_new_entry:
  assumes wf: "file_wf D bm sz a" and fr: "fresh_block D D' bm sz blk" and k: "k \<le> NDIRECT" "a k = 0"
  shows "file_step bm sz D a D' (a(k := blk))" "i < 274432 \<Longrightarrow> hbyte D' (a(k := blk)) i = hbyte D a i"
proof -
  note fb = fblock_new_entry [OF wf fr k] and kept = fblock_kept [OF wf fr] and w = file_wfD [OF wf] and f = fresh_blockD [OF fr]
  have z: "fblock D a k = 0" if "k < NDIRECT" using that k(2) by (simp add: fblock_def)
  show "file_step bm sz D a D' (a(k := blk))"
    unfolding file_step_def
  proof (intro conjI allI impI)
    show "file_wf D' bm sz (a(k := blk))" by (rule file_wf_new_entry [OF wf fr k])
    show "fblock D' (a(k := blk)) j = fblock D a j" if "j < 268" "fblock D a j \<noteq> 0" for j
      using that(2) z unfolding fb [OF that(1)] by auto
    show "blk_used D' bm b" if "unat b < sz" "blk_used D bm b" for b using f(6) [OF that(1)] that(2) by blast
    show "refs D a b \<or> \<not> blk_used D bm b" if "refs D' (a(k := blk)) b" for b
      using refs_new_entry [OF wf fr k that] f(2) by blast
    show "D' b = D b" if "unat b < sz" "blk_used D bm b" "\<not> refs D a b" "\<not> bitmap_block bm sz b" for b
      using f(2,5) that by metis
  qed
  show "hbyte D' (a(k := blk)) i = hbyte D a i" if "i < 274432"
  proof -
    have j: "i div 1024 < 268" using that by (intro less_mult_imp_div_less) simp
    show ?thesis
    proof (cases "i div 1024 = k \<and> k < NDIRECT")
      case True
      then show ?thesis using fb [OF j] z f(4) by (simp add: hbyte_def fbyte_def)
    next
      case False
      then have e: "fblock D' (a(k := blk)) (i div 1024) = fblock D a (i div 1024)" unfolding fb [OF j] by (rule if_not_P)
      show ?thesis using kept(2) [OF refsI(1) [OF j]] unfolding hbyte_def fbyte_def e by simp
    qed
  qed
qed

text \<open>An entry of the indirect block gets the new block.\<close>

lemma step_new_indirect:
  assumes wf: "file_wf D bm sz a" and fr: "fresh_block D D' bm sz blk"
    and k: "k < 256" "fblock D a (NDIRECT + k) = 0" and ind: "a NDIRECT \<noteq> 0"
    and D2: "D2 = D'(a NDIRECT := put_le 4 (D' (a NDIRECT)) (4 * k) blk)"
  shows "file_step bm sz D a D2 a" "i < 274432 \<Longrightarrow> hbyte D2 a i = hbyte D a i" "fblock D2 a (NDIRECT + k) = blk"
    "unat b < sz \<Longrightarrow> blk_used D2 bm b = (blk_used D bm b \<or> b = blk)" "i < 1024 \<Longrightarrow> D2 blk i = 0"
proof -
  let ?i = "a NDIRECT"
  note kept = fblock_kept [OF wf fr] and w = file_wfD [OF wf] and f = fresh_blockD [OF fr]
  have ri: "refs D a ?i" by (rule refsI(2) [where a = a, OF ind])
  have ib: "\<not> bitmap_block bm sz ?i" "?i \<noteq> blk" using w(4) [OF ri] kept(1) [OF ri] by blast+
  have e: "get_le 4 (put_le 4 (D' ?i) (4 * k) blk) (4 * m) = (if m = k then blk else get_le 4 (D ?i) (4 * m))" for m
  proof (cases "m = k")
    case False
    then have "4 * m + 4 \<le> 4 * k \<or> 4 * k + 4 \<le> 4 * m" by linarith
    then show ?thesis using False kept(2) [OF ri] by (simp add: get_put_le_other)
  qed (simp add: get_put_le_same)
  have fb: "fblock D2 a j = (if j = NDIRECT + k then blk else fblock D a j)" for j
    using ind by (auto simp: fblock_def D2 e)
  then show "fblock D2 a (NDIRECT + k) = blk" by simp
  show u: "blk_used D2 bm b = (blk_used D bm b \<or> b = blk)" if "unat b < sz" for b
    using f(6) [OF that] blk_used_upd [OF ib(1) that] unfolding D2 by simp
  show z: "i < 1024 \<Longrightarrow> D2 blk i = 0" for i using ib(2) f(4) by (simp add: D2)
  have kk: "NDIRECT + k < 268" using k(1) by (simp add: NDIRECT_def)
  have r: "refs D a b \<or> b = blk" if "refs D2 a b" for b
    using that unfolding refs_def fb by (auto split: if_splits)
  have fa: "fblock D a j \<noteq> blk" if "j < 268" for j using kept(1,3) refsI(1) [OF that] by metis
  have wf2: "file_wf D2 bm sz a"
    unfolding file_wf_def
  proof (intro conjI allI impI)
    have "unat (0 :: u32) < sz" using f(1) by simp
    then show "blk_used D2 bm 0" using w(1) u by blast
    fix b assume "refs D2 a b"
    then have rb: "refs D a b \<or> b = blk" by (rule r)
    then show sz: "unat b < sz" and "\<not> bitmap_block bm sz b" using w(2,4) f(1,3) by metis+
    show "blk_used D2 bm b" using rb w(3) u [OF sz] by metis
  next
    fix i j assume ij: "i < 268" "j < 268" "fblock D2 a i \<noteq> 0" "fblock D2 a i = fblock D2 a j"
    then show "i = j"
      using w(5) [OF ij(1,2)] fa [OF ij(1)] fa [OF ij(2)] unfolding fb by (simp split: if_splits)
  next
    fix j :: nat assume "j < 268"
    then show "fblock D2 a j \<noteq> ?i" using w(6) [OF _ ind] ib(2) unfolding fb by simp
  qed
  show "file_step bm sz D a D2 a"
    unfolding file_step_def
  proof (intro conjI allI impI)
    show "fblock D2 a j = fblock D a j" if "fblock D a j \<noteq> 0" for j using that k(2) unfolding fb by auto
    show "refs D a b \<or> \<not> blk_used D bm b" if "refs D2 a b" for b using r [OF that] f(2) by blast
    show "D2 b = D b" if "unat b < sz" "blk_used D bm b" "\<not> refs D a b" "\<not> bitmap_block bm sz b" for b
    proof -
      have "b \<noteq> ?i" "b \<noteq> blk" using that ri f(2) by blast+
      then show ?thesis using f(5) that(4) by (simp add: D2)
    qed
  qed (use wf2 u in blast)+
  show "hbyte D2 a i = hbyte D a i" if "i < 274432"
  proof -
    have j: "i div 1024 < 268" using that by (intro less_mult_imp_div_less) simp
    show ?thesis
    proof (cases "i div 1024 = NDIRECT + k")
      case True
      then show ?thesis using k(2) z by (simp add: hbyte_def fbyte_def fb)
    next
      case False
      have "D2 (fblock D a (i div 1024)) = D (fblock D a (i div 1024))" if "fblock D a (i div 1024) \<noteq> 0"
        using kept(2) [OF refsI(1) [OF j that]] w(6) [OF j ind] by (simp add: D2)
      then show ?thesis using False by (simp add: hbyte_def fbyte_def fb)
    qed
  qed
qed

text \<open>One block of the file gets new contents.\<close>

lemma step_data:
  assumes wf: "file_wf D bm sz a" and j: "j < 268" "fblock D a j \<noteq> 0"
  shows "file_step bm sz D a (D(fblock D a j := e)) a"
    "i < 274432 \<Longrightarrow> hbyte (D(fblock D a j := e)) a i = (if i div 1024 = j then e (i mod 1024) else hbyte D a i)"
    "unat b < sz \<Longrightarrow> blk_used (D(fblock D a j := e)) bm b = blk_used D bm b"
proof -
  let ?b = "fblock D a j" let ?D = "D(fblock D a j := e)"
  note w = file_wfD [OF wf]
  have rb: "refs D a ?b" by (rule refsI(1) [OF j])
  have fb: "fblock ?D a m = fblock D a m" for m
  proof (cases "a NDIRECT = 0")
    case False
    then have "?D (a NDIRECT) = D (a NDIRECT)" using w(6) [OF j(1)] by simp
    then show ?thesis by (simp add: fblock_def)
  qed (simp add: fblock_def)
  have r: "refs ?D a = refs D a" by (simp add: refs_def fb fun_eq_iff)
  show u: "blk_used ?D bm b = blk_used D bm b" if "unat b < sz" for b by (rule blk_used_upd [OF w(4) [OF rb] that])
  have "file_wf ?D bm sz a"
    unfolding file_wf_def r fb
  proof (intro conjI allI impI)
    have "unat (0 :: u32) < sz" using w(2) [OF rb] by simp
    then show "blk_used ?D bm 0" using w(1) u by blast
    show "blk_used ?D bm b" if "refs D a b" for b using w(3) [OF that] u [OF w(2) [OF that]] by simp
  qed (use w(2,4,5,6) in blast)+
  then show "file_step bm sz D a ?D a"
    unfolding file_step_def fb r using u rb by auto
  show "hbyte ?D a i = (if i div 1024 = j then e (i mod 1024) else hbyte D a i)" if "i < 274432"
  proof -
    have m: "i div 1024 < 268" using that by (intro less_mult_imp_div_less) simp
    have "fblock D a (i div 1024) = ?b \<longleftrightarrow> i div 1024 = j" if "fblock D a (i div 1024) \<noteq> 0"
      using w(5) [OF m j(1) that] by auto
    then show ?thesis using j(2) by (auto simp: hbyte_def fbyte_def fb)
  qed
qed

section \<open>Allocation on demand\<close>

definition free_set :: "(u32 \<Rightarrow> block) \<Rightarrow> u32 \<Rightarrow> nat \<Rightarrow> u32 set" where
  "free_set D bm sz = {b. unat b < sz \<and> \<not> blk_used D bm b}"

lemma finite_free_set [simp]: "finite (free_set D bm sz)"
  by (rule finite_subset [OF subset_UNIV finite])

lemma free_set_cong: "(\<And>b. unat b < sz \<Longrightarrow> blk_used D' bm b = blk_used D bm b) \<Longrightarrow> free_set D' bm sz = free_set D bm sz"
  by (auto simp: free_set_def)

lemma free_set_alloc:
  assumes "unat blk < sz" "\<not> blk_used D bm blk" "\<And>b. unat b < sz \<Longrightarrow> blk_used D' bm b = (blk_used D bm b \<or> b = blk)"
  shows "Suc (card (free_set D' bm sz)) = card (free_set D bm sz)"
proof -
  have "free_set D' bm sz = free_set D bm sz - {blk}" "blk \<in> free_set D bm sz" using assms by (auto simp: free_set_def)
  then show ?thesis using card_Suc_Diff1 [of "free_set D bm sz" blk] by simp
qed

text \<open>How many blocks are free, and a file in the cache that is well formed.\<close>

definition free_count :: "'a fs_scheme \<Rightarrow> nat" where
  "free_count s = card (free_set (disk s) (sb_bmapstart (sb s)) (unat (sb_size (sb s))))"

definition file_ok :: "'a fs_scheme \<Rightarrow> nat \<Rightarrow> bool" where
  "file_ok s ip \<longleftrightarrow> alloc_ok s \<and> i_dev (icache s ip) = ROOTDEV \<and>
     file_wf (disk s) (sb_bmapstart (sb s)) (unat (sb_size (sb s))) (i_addrs (icache s ip))"

text \<open>A step of the file in slot \<open>ip\<close> that leaves everything but its blocks and entries alone.\<close>

definition slot_step :: "u32 multiset \<Rightarrow> nat \<Rightarrow> 'a fs_scheme \<Rightarrow> 'a fs_scheme \<Rightarrow> bool" where
  "slot_step H ip s s' \<longleftrightarrow> fs_step H s s' \<and> file_ok s' ip \<and>
     icache s' = (icache s)(ip := (icache s ip)\<lparr>i_addrs := i_addrs (icache s' ip)\<rparr>) \<and>
     file_step (sb_bmapstart (sb s)) (unat (sb_size (sb s))) (disk s) (i_addrs (icache s ip)) (disk s') (i_addrs (icache s' ip))"

lemma slot_stepD:
  assumes "slot_step H ip s s'"
  shows "fs_step H s s'" "bcache_ok s' H" "file_ok s' ip" "sb s' = sb s" "disk_blocks s' = disk_blocks s"
    "i_size (icache s' ip) = i_size (icache s ip)" "i_inum (icache s' ip) = i_inum (icache s ip)"
    "i_dev (icache s' ip) = i_dev (icache s ip)" "copy_out (icache s' ip) = (copy_out (icache s ip))\<lparr>d_addrs := i_addrs (icache s' ip)\<rparr>"
    "q \<noteq> ip \<Longrightarrow> icache s' q = icache s q"
proof -
  have f: "fs_step H s s'" and i: "icache s' = (icache s)(ip := (icache s ip)\<lparr>i_addrs := i_addrs (icache s' ip)\<rparr>)"
    and o: "file_ok s' ip" using assms by (simp_all add: slot_step_def)
  show "fs_step H s s'" "bcache_ok s' H" "sb s' = sb s" "disk_blocks s' = disk_blocks s" "file_ok s' ip"
    using f o fs_step_facts [OF f] by simp_all
  show "i_size (icache s' ip) = i_size (icache s ip)" "i_inum (icache s' ip) = i_inum (icache s ip)"
    "i_dev (icache s' ip) = i_dev (icache s ip)" "copy_out (icache s' ip) = (copy_out (icache s ip))\<lparr>d_addrs := i_addrs (icache s' ip)\<rparr>"
    "q \<noteq> ip \<Longrightarrow> icache s' q = icache s q"
    by (subst i, simp add: copy_out_def)+
qed

lemma slot_step_refl: "bcache_ok s H \<Longrightarrow> file_ok s ip \<Longrightarrow> slot_step H ip s s"
  by (simp add: slot_step_def fs_step_refl file_step_refl file_ok_def)

lemma slot_step_trans:
  assumes "slot_step H ip s t" "slot_step H ip t u"
  shows "slot_step H ip s u"
proof -
  have t: "icache t = (icache s)(ip := (icache s ip)\<lparr>i_addrs := i_addrs (icache t ip)\<rparr>)"
    and u: "icache u = (icache t)(ip := (icache t ip)\<lparr>i_addrs := i_addrs (icache u ip)\<rparr>)"
    using assms by (simp_all add: slot_step_def)
  have e: "(icache t ip)\<lparr>i_addrs := x\<rparr> = (icache s ip)\<lparr>i_addrs := x\<rparr>" for x by (subst t) simp
  have "icache u q = ((icache s)(ip := (icache s ip)\<lparr>i_addrs := i_addrs (icache u ip)\<rparr>)) q" for q
  proof (cases "q = ip")
    case True
    have "icache u ip = (icache t ip)\<lparr>i_addrs := i_addrs (icache u ip)\<rparr>" by (subst u) simp
    then show ?thesis using True by (simp only: e fun_upd_same)
  next
    case False
    have "icache u q = icache t q" using False by (subst u) simp
    also have "\<dots> = icache s q" using False by (subst t) simp
    finally show ?thesis using False by simp
  qed
  then have "icache u = (icache s)(ip := (icache s ip)\<lparr>i_addrs := i_addrs (icache u ip)\<rparr>)" ..
  moreover have "fs_step H s u" using assms fs_step_trans unfolding slot_step_def by blast
  moreover have "file_step (sb_bmapstart (sb s)) (unat (sb_size (sb s))) (disk s) (i_addrs (icache s ip)) (disk u) (i_addrs (icache u ip))"
    using assms slot_stepD(4) [OF assms(1)] by (auto simp: slot_step_def intro: file_step_trans)
  moreover have "file_ok u ip" by (rule slot_stepD(3) [OF assms(2)])
  ultimately show ?thesis unfolding slot_step_def by blast
qed

text \<open>A cache operation that leaves the disk as it is.\<close>

lemma cache_slot_step:
  assumes "cache_step H s s'" "disk s' = disk s" "file_ok s ip"
  shows "slot_step H ip s s'"
proof -
  have "file_ok s' ip" using assms cache_step_fs [OF assms(1)] by (simp add: file_ok_def alloc_ok_def)
  then show ?thesis
    using assms cache_step_fs [OF assms(1)] file_step_refl
    by (simp add: slot_step_def cache_step_fs_step file_ok_def)
qed

lemma free_count_pos: "0 < free_count s \<Longrightarrow>
    \<not> (\<forall>x. unat x < unat (sb_size (sb s)) \<longrightarrow> blk_used (disk s) (sb_bmapstart (sb s)) x)"
  by (auto simp: free_count_def free_set_def card_gt_0_iff)

lemma addr_alloc:
  assumes ok: "bcache_ok s H" "size H < NBUF" "file_ok s ip" and k: "k \<le> NDIRECT" "i_addrs (icache s ip) k = 0" and fr: "0 < free_count s"
  obtains blk s' where "addr_or_alloc ip k s = Inr (blk, s')" "slot_step H ip s s'" "blk \<noteq> 0"
    "i_addrs (icache s' ip) = (i_addrs (icache s ip))(k := blk)" "Suc (free_count s') = free_count s"
    "\<And>j. j < 268 \<Longrightarrow> fblock (disk s') (i_addrs (icache s' ip)) j = (if j = k \<and> k < NDIRECT then blk else fblock (disk s) (i_addrs (icache s ip)) j)"
    "\<And>i. i < 274432 \<Longrightarrow> hbyte (disk s') (i_addrs (icache s' ip)) i = hbyte (disk s) (i_addrs (icache s ip)) i"
proof -
  have ao: "alloc_ok s" "i_dev (icache s ip) = ROOTDEV"
    and wf: "file_wf (disk s) (sb_bmapstart (sb s)) (unat (sb_size (sb s))) (i_addrs (icache s ip))"
    using ok(3) by (simp_all add: file_ok_def)
  obtain blk s1 where b: "balloc ROOTDEV s = Inr (blk, s1)" "allocates H s s1 blk"
    using allocates_cases [OF ok(1,2) ao(1)] free_count_pos [OF fr] by blast
  note af = allocates_facts [OF ao(1) b(2)] and f = allocates_fresh [OF ao(1) b(2)]
  let ?s = "set_addr ip k blk s1"
  have sel: "disk ?s = disk s1" "sb ?s = sb s" "disk_blocks ?s = disk_blocks s" "i_addrs (icache ?s ip) = (i_addrs (icache s ip))(k := blk)"
    "i_dev (icache ?s ip) = ROOTDEV" using af(1-3) ao(2) by (simp_all add: set_addr_def)
  have nz: "blk \<noteq> 0" by (rule fblock_kept(3) [OF wf f])
  have "addr_or_alloc ip k s = Inr (blk, ?s)" using k(2) b(1) ao(2) by (simp add: addr_or_alloc_def)
  moreover have "slot_step H ip s ?s"
    unfolding slot_step_def
  proof (intro conjI)
    note c = cache_step_fs_step [OF af(5)]
    show "fs_step H s ?s" unfolding set_addr_def by (rule fs_step_trans [OF c upd_inode_fs_step [OF fs_step_facts(1) [OF c]]])
    show "file_ok ?s ip"
      using af(6) file_wf_new_entry [OF wf f k] unfolding file_ok_def sel by (simp add: alloc_ok_def sel af(1,3))
    show "icache ?s = (icache s)(ip := (icache s ip)\<lparr>i_addrs := i_addrs (icache ?s ip)\<rparr>)"
      using af(2) by (simp add: set_addr_def upd_inode_def)
    show "file_step (sb_bmapstart (sb s)) (unat (sb_size (sb s))) (disk s) (i_addrs (icache s ip)) (disk ?s) (i_addrs (icache ?s ip))"
      unfolding sel by (rule step_new_entry(1) [OF wf f k])
  qed
  moreover have "Suc (free_count ?s) = free_count s"
    unfolding free_count_def sel by (rule free_set_alloc [OF fresh_blockD(1,2,6) [OF f]])
  moreover have "hbyte (disk ?s) (i_addrs (icache ?s ip)) i = hbyte (disk s) (i_addrs (icache s ip)) i" if "i < 274432" for i
    unfolding sel by (rule step_new_entry(2) [OF wf f k that])
  moreover have "fblock (disk ?s) (i_addrs (icache ?s ip)) j = (if j = k \<and> k < NDIRECT then blk else fblock (disk s) (i_addrs (icache s ip)) j)"
    if "j < 268" for j unfolding sel by (rule fblock_new_entry [OF wf f k that])
  ultimately show thesis using that nz sel(4) by blast
qed

lemma alloc_ok_marks:
  assumes "alloc_ok s" "sb s' = sb s" "disk_blocks s' = disk_blocks s"
    and "\<And>x. unat x < unat (sb_size (sb s)) \<Longrightarrow> blk_used (disk s) (sb_bmapstart (sb s)) x \<Longrightarrow> blk_used (disk s') (sb_bmapstart (sb s)) x"
  shows "alloc_ok s'"
proof -
  have "unat (sb_bmapstart (sb s) + of_nat j) < unat (sb_size (sb s))" if "unat (sb_bmapstart (sb s)) + j < unat (sb_size (sb s))" for j
    using that unat_lt32 [of "sb_size (sb s)"] by (simp add: unat_add32 unat_of_nat32)
  then show ?thesis using assms unfolding alloc_ok_def assms(2,3) by blast
qed

text \<open>The part of \<open>bmap\<close> behind the indirect block.\<close>

definition indirect_entry :: "nat \<Rightarrow> u32 \<Rightarrow> nat \<Rightarrow> 'a fs_scheme \<Rightarrow> (u32 \<times> 'a fs_scheme) res" where
  "indirect_entry ip ind k s =
     bindE (bread (i_dev (icache s ip)) ind s) (\<lambda>(bp, s2).
          let addr = get_le 4 (b_data (bufs s2 bp)) (4 * k) in
          if addr = 0 then
            bindE (balloc (i_dev (icache s2 ip)) s2) (\<lambda>(a, s3).
            bindE (bwrite bp (set_data bp (put_le 4 (b_data (bufs s3 bp)) (4 * k) a) s3)) (\<lambda>s4.
            Inr (a, brelse bp s4)))
          else Inr (addr, brelse bp s2))"

lemma bmap_indirect:
  "NDIRECT \<le> unat bn \<Longrightarrow> unat bn < 268 \<Longrightarrow>
     bmap ip bn s = bindE (addr_or_alloc ip NDIRECT s) (\<lambda>(ind, s1). indirect_entry ip ind (unat bn - 12) s1)"
proof -
  assume b: "NDIRECT \<le> unat bn" "unat bn < 268"
  have d: "unat (bn - 12) = unat bn - 12" using b by (simp add: unat_sub32 NDIRECT_def)
  then have "\<not> bn < 12" "bn - 12 < 256" using b by (simp_all add: word_less_nat_alt NDIRECT_def)
  then show ?thesis by (simp add: bmap_def indirect_entry_def d cong: if_cong)
qed

lemma indirect_new:
  assumes ok: "bcache_ok s H" "Suc (size H) < NBUF" "file_ok s ip" and k: "k < 256"
    and ind: "i_addrs (icache s ip) NDIRECT \<noteq> 0" and z: "fblock (disk s) (i_addrs (icache s ip)) (NDIRECT + k) = 0"
    and fr: "0 < free_count s"
  obtains blk s' where "indirect_entry ip (i_addrs (icache s ip) NDIRECT) k s = Inr (blk, s')" "slot_step H ip s s'" "blk \<noteq> 0"
    "i_addrs (icache s' ip) = i_addrs (icache s ip)" "Suc (free_count s') = free_count s"
    "fblock (disk s') (i_addrs (icache s' ip)) (NDIRECT + k) = blk"
    "\<And>i. i < 274432 \<Longrightarrow> hbyte (disk s') (i_addrs (icache s' ip)) i = hbyte (disk s) (i_addrs (icache s ip)) i"
proof -
  let ?a = "i_addrs (icache s ip)" let ?ind = "?a NDIRECT" let ?bm = "sb_bmapstart (sb s)" and ?sz = "unat (sb_size (sb s))"
  have ao: "alloc_ok s" "i_dev (icache s ip) = ROOTDEV" and wf: "file_wf (disk s) ?bm ?sz ?a"
    using ok(3) by (simp_all add: file_ok_def)
  have cap: "unat ?ind < disk_blocks s"
    using file_wfD(2) [OF wf refsI(2) [where a = ?a, OF ind]] ao(1) by (simp add: alloc_ok_def)
  have rm: "size H < NBUF" using ok(2) by simp
  obtain bp s2 where r: "bread ROOTDEV ?ind s = Inr (bp, s2)" "bcache_ok s2 (add_mset ?ind H)" "holds s2 bp ?ind"
    "disk s2 = disk s" "only_cache s s2" "\<forall>c j. j \<in># H \<longrightarrow> holds s c j \<longrightarrow> holds s2 c j"
    using bc.acquire_ok [OF ok(1) rm cap] by blast
  have s2: "sb s2 = sb s" "icache s2 = icache s" "disk_blocks s2 = disk_blocks s" using only_cache_fs [OF r(5)] by simp_all
  have d2: "b_data (bufs s2 bp) = disk s ?ind" using holds_data [OF r(2,3)] r(4) by simp
  have ao2: "alloc_ok s2" using ao(1) by (simp add: alloc_ok_def s2 r(4))
  have fr2: "0 < free_count s2" using fr by (simp add: free_count_def s2 r(4))
  have H2: "size (add_mset ?ind H) < NBUF" using ok(2) by simp
  obtain blk s3 where b: "balloc ROOTDEV s2 = Inr (blk, s3)" "allocates (add_mset ?ind H) s2 s3 blk"
    using allocates_cases [OF r(2) H2 ao2] free_count_pos [OF fr2] by blast
  note af = allocates_facts [OF ao2 b(2)]
  have f: "fresh_block (disk s) (disk s3) ?bm ?sz blk" using allocates_fresh [OF ao2 b(2)] unfolding s2 r(4) .
  have h3: "holds s3 bp ?ind" using af(5) r(3) by (simp add: cache_step_def)
  have d3: "b_data (bufs s3 bp) = disk s3 ?ind" using holds_data [OF af(4) h3] by simp
  let ?d = "put_le 4 (disk s3 ?ind) (4 * k) blk"
  obtain s4 where w: "bwrite bp (set_data bp ?d s3) = Inr s4" "bcache_ok s4 (add_mset ?ind H)" "disk s4 = (disk s3)(?ind := ?d)"
    "only_cache s3 s4" "\<forall>c j. holds s4 c j \<longleftrightarrow> holds s3 c j"
    using bc.store_ok [OF af(4) h3] by blast
  have h4: "holds s4 bp ?ind" using w(5) h3 by simp
  note rel = brelse_ok [OF w(2) h4, simplified]
  let ?s = "brelse bp s4"
  have oc: "only_cache s ?s"
    using r(5) af(5) w(4) rel(3) only_cache_trans unfolding cache_step_def by metis
  have sel: "sb ?s = sb s" "icache ?s = icache s" "disk_blocks ?s = disk_blocks s" using only_cache_fs [OF oc] by simp_all
  have D: "disk ?s = (disk s3)(?ind := ?d)" using rel(2) w(3) by simp
  have "holds ?s c j" if "j \<in># H" "holds s c j" for c j
    using r(6) that af(5) w(5) rel(4) by (simp add: cache_step_def)
  then have cs: "cache_step H s ?s" using rel(1) oc by (simp add: cache_step_def)
  note st = step_new_indirect [OF wf f k z ind D]
  have "get_le 4 (disk s ?ind) (4 * k) = (0 :: u32)" using z ind by (simp add: fblock_def)
  then have res: "indirect_entry ip ?ind k s = Inr (blk, ?s)"
    using r(1) d2 b(1) d3 w(1) s2(2) ao(2) by (simp add: indirect_entry_def)
  have slot: "slot_step H ip s ?s"
  proof -
    have "alloc_ok ?s"
    proof (rule alloc_ok_marks [OF af(6)])
      show "blk_used (disk ?s) (sb_bmapstart (sb s3)) x" if "unat x < unat (sb_size (sb s3))" "blk_used (disk s3) (sb_bmapstart (sb s3)) x" for x
        using that blk_used_upd [OF file_wfD(4) [OF wf refsI(2) [where a = ?a, OF ind]]] unfolding D by (simp add: af(1) s2)
    qed (simp_all add: sel af(1,3) s2)
    then show ?thesis
      using st(1) ao(2) file_stepD(1) [OF st(1)] cache_step_fs_step [OF cs] by (simp add: slot_step_def file_ok_def sel)
  qed
  have cnt: "Suc (free_count ?s) = free_count s"
    unfolding free_count_def sel using st(4) by (intro free_set_alloc [OF fresh_blockD(1,2) [OF f]])
  show thesis
    by (rule that [OF res slot fblock_kept(3) [OF wf f] _ cnt]) (simp_all add: sel st(2,3))
qed

text \<open>An entry that is there is only looked up.\<close>

lemma indirect_found:
  assumes ok: "bcache_ok s H" "size H < NBUF" "file_ok s ip" and k: "k < 256"
    and z: "fblock (disk s) (i_addrs (icache s ip)) (NDIRECT + k) \<noteq> 0"
  obtains s' where "indirect_entry ip (i_addrs (icache s ip) NDIRECT) k s = Inr (fblock (disk s) (i_addrs (icache s ip)) (NDIRECT + k), s')"
    "slot_step H ip s s'" "disk s' = disk s" "icache s' = icache s"
proof -
  let ?a = "i_addrs (icache s ip)" let ?ind = "?a NDIRECT"
  have fb: "fblock (disk s) ?a (NDIRECT + k) = (if ?ind = 0 then 0 else get_le 4 (disk s ?ind) (4 * k))"
    by (simp add: fblock_def)
  then have ind: "?ind \<noteq> 0" using z by argo
  then have g: "get_le 4 (disk s ?ind) (4 * k) = fblock (disk s) ?a (NDIRECT + k)" using fb by argo
  have ao: "alloc_ok s" "i_dev (icache s ip) = ROOTDEV" and wf: "file_wf (disk s) (sb_bmapstart (sb s)) (unat (sb_size (sb s))) ?a"
    using ok(3) by (simp_all add: file_ok_def)
  have cap: "unat ?ind < disk_blocks s"
    using file_wfD(2) [OF wf refsI(2) [where a = ?a, OF ind]] ao(1) by (simp add: alloc_ok_def)
  obtain bp s1 where r: "bread ROOTDEV ?ind s = Inr (bp, s1)" "b_data (bufs s1 bp) = disk s ?ind" "only_cache s s1"
    "disk s1 = disk s" "cache_step H s (brelse bp s1)" "disk (brelse bp s1) = disk s"
    by (rule bread_brelse [OF ok(1,2) cap])
  have "indirect_entry ip ?ind k s = Inr (fblock (disk s) ?a (NDIRECT + k), brelse bp s1)"
    using r(1,2) z ao(2) by (simp add: indirect_entry_def g)
  then show thesis by (rule that [OF _ cache_slot_step [OF r(5,6) ok(3)] r(6) cache_step_fs(2) [OF r(5)]])
qed

text \<open>How many blocks \<open>bmap\<close> of block \<open>j\<close> may take.\<close>

definition bmap_cost :: "'a fs_scheme \<Rightarrow> nat \<Rightarrow> nat \<Rightarrow> nat" where
  "bmap_cost s ip j = (if fblock (disk s) (i_addrs (icache s ip)) j = 0 then 1 else 0) +
     (if NDIRECT \<le> j \<and> i_addrs (icache s ip) NDIRECT = 0 then 1 else 0)"

lemma bmap_allocates:
  assumes ok: "bcache_ok s H" "Suc (size H) < NBUF" "file_ok s ip" and bn: "unat bn < 268" and fr: "bmap_cost s ip (unat bn) \<le> free_count s"
  obtains s' where "bmap ip bn s = Inr (fblock (disk s') (i_addrs (icache s' ip)) (unat bn), s')" "slot_step H ip s s'"
    "fblock (disk s') (i_addrs (icache s' ip)) (unat bn) \<noteq> 0" "free_count s' + bmap_cost s ip (unat bn) = free_count s"
    "NDIRECT \<le> unat bn \<Longrightarrow> i_addrs (icache s' ip) NDIRECT \<noteq> 0" "unat bn < NDIRECT \<Longrightarrow> i_addrs (icache s' ip) NDIRECT = i_addrs (icache s ip) NDIRECT"
    "\<And>i. i < 274432 \<Longrightarrow> hbyte (disk s') (i_addrs (icache s' ip)) i = hbyte (disk s) (i_addrs (icache s ip)) i"
proof (cases "unat bn < NDIRECT")
  case True
  let ?k = "unat bn" let ?a = "i_addrs (icache s ip)"
  have b: "bmap ip bn s = addr_or_alloc ip ?k s" using True by (simp add: bmap_def word_less_nat_alt NDIRECT_def)
  have fb: "fblock (disk s) ?a ?k = ?a ?k" using True by (simp add: fblock_def)
  show thesis
  proof (cases "?a ?k = 0")
    case nz: False
    have "bmap ip bn s = Inr (fblock (disk s) ?a ?k, s)" unfolding b fb using nz by (simp add: addr_or_alloc_def)
    then show thesis
      by (rule that [OF _ slot_step_refl [OF ok(1,3)]]) (use nz True fb in \<open>simp_all add: bmap_cost_def\<close>)
  next
    case z: True
    have c: "bmap_cost s ip ?k = 1" using z fb True by (simp add: bmap_cost_def)
    have pre: "size H < NBUF" "?k \<le> NDIRECT" "0 < free_count s" using ok(2) True fr c by simp_all
    obtain blk s' where a: "addr_or_alloc ip ?k s = Inr (blk, s')" "slot_step H ip s s'" "blk \<noteq> 0"
      "i_addrs (icache s' ip) = ?a(?k := blk)" "Suc (free_count s') = free_count s"
      "fblock (disk s') (i_addrs (icache s' ip)) ?k = blk"
      "\<And>i. i < 274432 \<Longrightarrow> hbyte (disk s') (i_addrs (icache s' ip)) i = hbyte (disk s) ?a i"
      using addr_alloc [OF ok(1) pre(1) ok(3) pre(2) z pre(3)] True bn by metis
    show thesis
      by (rule that [OF _ a(2)]) (use a True b c in simp_all)
  qed
next
  case False
  define k where "k = unat bn - 12"
  have k: "unat bn = NDIRECT + k" "k < 256" using False bn by (simp_all add: k_def NDIRECT_def)
  have b: "bmap ip bn s = bindE (addr_or_alloc ip NDIRECT s) (\<lambda>(ind, s1). indirect_entry ip ind k s1)"
    using bmap_indirect [of bn ip s] False bn by (simp add: k_def)
  have rm: "size H < NBUF" using ok(2) by simp
  obtain s1 where s1: "addr_or_alloc ip NDIRECT s = Inr (i_addrs (icache s1 ip) NDIRECT, s1)" "slot_step H ip s s1"
    "i_addrs (icache s1 ip) NDIRECT \<noteq> 0" "fblock (disk s1) (i_addrs (icache s1 ip)) (NDIRECT + k) = fblock (disk s) (i_addrs (icache s ip)) (NDIRECT + k)"
    "free_count s1 + (if i_addrs (icache s ip) NDIRECT = 0 then 1 else 0) = free_count s"
    "\<And>i. i < 274432 \<Longrightarrow> hbyte (disk s1) (i_addrs (icache s1 ip)) i = hbyte (disk s) (i_addrs (icache s ip)) i"
  proof (cases "i_addrs (icache s ip) NDIRECT = 0")
    case nz: False
    show thesis
      by (rule that [OF _ slot_step_refl [OF ok(1,3)]]) (use nz in \<open>simp_all add: addr_or_alloc_def\<close>)
  next
    case z: True
    have c: "0 < free_count s" using fr z k by (simp add: bmap_cost_def)
    obtain blk s' where a: "addr_or_alloc ip NDIRECT s = Inr (blk, s')" "slot_step H ip s s'" "blk \<noteq> 0"
      "i_addrs (icache s' ip) = (i_addrs (icache s ip))(NDIRECT := blk)" "Suc (free_count s') = free_count s"
      "\<And>j. j < 268 \<Longrightarrow> fblock (disk s') (i_addrs (icache s' ip)) j = fblock (disk s) (i_addrs (icache s ip)) j"
      "\<And>i. i < 274432 \<Longrightarrow> hbyte (disk s') (i_addrs (icache s' ip)) i = hbyte (disk s) (i_addrs (icache s ip)) i"
      using addr_alloc [OF ok(1) rm ok(3) order_refl z c] by (metis less_irrefl)
    have "fblock (disk s') (i_addrs (icache s' ip)) (NDIRECT + k) = fblock (disk s) (i_addrs (icache s ip)) (NDIRECT + k)"
      using a(6) k bn by simp
    then show thesis
      by (intro that [OF _ a(2)]) (use a z in simp_all)
  qed
  note st = slot_stepD [OF s1(2)]
  show thesis
  proof (cases "fblock (disk s) (i_addrs (icache s ip)) (NDIRECT + k) = 0")
    case nz: False
    then have nz1: "fblock (disk s1) (i_addrs (icache s1 ip)) (NDIRECT + k) \<noteq> 0" using s1(4) by simp
    obtain s' where e: "indirect_entry ip (i_addrs (icache s1 ip) NDIRECT) k s1 = Inr (fblock (disk s1) (i_addrs (icache s1 ip)) (NDIRECT + k), s')"
      "slot_step H ip s1 s'" "disk s' = disk s1" "icache s' = icache s1"
      by (rule indirect_found [OF st(2) rm st(3) k(2) nz1])
    have fc: "free_count s' = free_count s1" using slot_stepD(4) [OF e(2)] by (simp add: free_count_def e(3))
    show thesis
      by (rule that [OF _ slot_step_trans [OF s1(2) e(2)]])
        (use b s1 e fc nz k in \<open>simp_all add: bmap_cost_def\<close>)
  next
    case z: True
    have c: "0 < free_count s1" using fr z s1(5) k by (simp add: bmap_cost_def split: if_splits)
    obtain blk s' where e: "indirect_entry ip (i_addrs (icache s1 ip) NDIRECT) k s1 = Inr (blk, s')" "slot_step H ip s1 s'" "blk \<noteq> 0"
      "i_addrs (icache s' ip) = i_addrs (icache s1 ip)" "Suc (free_count s') = free_count s1"
      "fblock (disk s') (i_addrs (icache s' ip)) (NDIRECT + k) = blk"
      "\<And>i. i < 274432 \<Longrightarrow> hbyte (disk s') (i_addrs (icache s' ip)) i = hbyte (disk s1) (i_addrs (icache s1 ip)) i"
      using indirect_new [OF st(2) ok(2) st(3) k(2) s1(3) _ c] z s1(4) by metis
    show thesis
      by (rule that [OF _ slot_step_trans [OF s1(2) e(2)]])
        (use b s1 e z k in \<open>simp_all add: bmap_cost_def\<close>)
  qed
qed

section \<open>The loop of writei\<close>

text \<open>How many blocks of the file the bytes from \<open>off\<close> to \<open>off + l - 1\<close> touch.\<close>

definition blocks_touched :: "nat \<Rightarrow> nat \<Rightarrow> nat" where
  "blocks_touched off l = (if l = 0 then 0 else (off + l - 1) div 1024 + 1 - off div 1024)"

lemma blocks_touched_step:
  assumes "0 < l" "m = min (1024 - off mod 1024) l"
  shows "blocks_touched (off + m) (l - m) + 1 \<le> blocks_touched off l"
proof -
  define q r where "q = off div 1024" and "r = off mod 1024"
  have o: "off = 1024 * q + r" "r < 1024" by (simp_all add: q_def r_def)
  have le: "q \<le> (off + l - 1) div 1024"
    unfolding q_def using assms(1) by (intro div_le_mono) linarith
  show ?thesis
  proof (cases "l \<le> 1024 - r")
    case True
    then have "l - m = 0" using assms(2) by (simp add: r_def)
    then show ?thesis using assms(1) le by (simp add: blocks_touched_def q_def)
  next
    case False
    have m: "m = 1024 - r" using False assms(2) by (simp add: r_def)
    have m2: "0 < l - m" "m \<le> l" using m False by linarith+
    have "m + r = 1024" unfolding m using o(2) by simp
    then have om: "off + m = 1024 * (q + 1)" unfolding o(1) by simp
    have d: "(off + m) div 1024 = q + 1" unfolding om by simp
    have e: "off + m + (l - m) - 1 = off + l - 1" using m2 by linarith
    have "off + m \<le> off + l - 1" using m2 by linarith
    then have "q + 1 \<le> (off + l - 1) div 1024" unfolding d [symmetric] by (rule div_le_mono)
    then have "x + 1 - (q + 1) + 1 \<le> x + 1 - q" if "x = (off + l - 1) div 1024" for x using that by linarith
    then show ?thesis using m2 assms(1) unfolding blocks_touched_def d e q_def [symmetric] by simp
  qed
qed

lemma in_block:
  fixes off i m :: nat
  assumes "m \<le> 1024 - off mod 1024"
  shows "off \<le> i \<and> i < off + m \<longleftrightarrow> i div 1024 = off div 1024 \<and> off mod 1024 \<le> i mod 1024 \<and> i mod 1024 < off mod 1024 + m"
    "i div 1024 = off div 1024 \<Longrightarrow> i mod 1024 - off mod 1024 = i - off"
proof -
  have o: "off = 1024 * (off div 1024) + off mod 1024" "off mod 1024 < 1024" by simp_all
  have i: "i = 1024 * (i div 1024) + i mod 1024" "i mod 1024 < 1024" by simp_all
  show "i div 1024 = off div 1024 \<Longrightarrow> i mod 1024 - off mod 1024 = i - off" using o(1) i(1) by linarith
  have d: "i div 1024 = off div 1024" if "off \<le> i" "i < off + m"
  proof -
    have "i < 1024 * (off div 1024) + 1024" "1024 * (off div 1024) \<le> i" using that assms o by linarith+
    then show ?thesis by (intro div_nat_eqI) (simp_all add: mult.commute)
  qed
  show "off \<le> i \<and> i < off + m \<longleftrightarrow> i div 1024 = off div 1024 \<and> off mod 1024 \<le> i mod 1024 \<and> i mod 1024 < off mod 1024 + m"
  proof
    assume h: "off \<le> i \<and> i < off + m"
    then have "i div 1024 = off div 1024" using d by blast
    then show "i div 1024 = off div 1024 \<and> off mod 1024 \<le> i mod 1024 \<and> i mod 1024 < off mod 1024 + m"
      using h o(1) i(1) by linarith
  next
    assume "i div 1024 = off div 1024 \<and> off mod 1024 \<le> i mod 1024 \<and> i mod 1024 < off mod 1024 + m"
    then show "off \<le> i \<and> i < off + m" using o(1) i(1) by linarith
  qed
qed

text \<open>One round: the bytes of one block.\<close>

lemma write_round:
  assumes ok: "bcache_ok s H" "Suc (size H) < NBUF" "file_ok s ip" and lt: "tot < n"
    and fits: "unat off + (unat n - unat tot) \<le> 274432" and fr: "bmap_cost s ip (unat off div 1024) \<le> free_count s"
    and m: "m = chunk off n tot"
  obtains t where "writei_loop ip src tot off n s = writei_loop ip src (tot + m) (off + m) n t" "slot_step H ip s t"
    "fblock (disk t) (i_addrs (icache t ip)) (unat off div 1024) \<noteq> 0" "free_count t + bmap_cost s ip (unat off div 1024) = free_count s"
    "NDIRECT \<le> unat off div 1024 \<Longrightarrow> i_addrs (icache t ip) NDIRECT \<noteq> 0"
    "unat off div 1024 < NDIRECT \<Longrightarrow> i_addrs (icache t ip) NDIRECT = i_addrs (icache s ip) NDIRECT"
    "\<And>i. i < 274432 \<Longrightarrow> hbyte (disk t) (i_addrs (icache t ip)) i =
       (if unat off \<le> i \<and> i < unat off + unat m then src (unat tot + (i - unat off)) else hbyte (disk s) (i_addrs (icache s ip)) i)"
proof -
  note cb = chunk_bounds [OF lt, of off, folded m]
  have ub: "unat (off div 1024) = unat off div 1024" by (simp add: unat_div32)
  have bn: "unat (off div 1024) < 268" using fits lt unfolding ub by (intro less_mult_imp_div_less) (simp add: word_less_nat_alt)
  obtain s1 where b: "bmap ip (off div 1024) s = Inr (fblock (disk s1) (i_addrs (icache s1 ip)) (unat off div 1024), s1)" "slot_step H ip s s1"
    "fblock (disk s1) (i_addrs (icache s1 ip)) (unat off div 1024) \<noteq> 0" "free_count s1 + bmap_cost s ip (unat off div 1024) = free_count s"
    "NDIRECT \<le> unat off div 1024 \<Longrightarrow> i_addrs (icache s1 ip) NDIRECT \<noteq> 0"
    "unat off div 1024 < NDIRECT \<Longrightarrow> i_addrs (icache s1 ip) NDIRECT = i_addrs (icache s ip) NDIRECT"
    "\<And>i. i < 274432 \<Longrightarrow> hbyte (disk s1) (i_addrs (icache s1 ip)) i = hbyte (disk s) (i_addrs (icache s ip)) i"
    using bmap_allocates [OF ok bn] fr unfolding ub by metis
  let ?a = "i_addrs (icache s1 ip)" let ?blk = "fblock (disk s1) ?a (unat off div 1024)"
  let ?f = "\<lambda>d. move_bytes d (unat (off mod 1024)) src (unat tot) (unat m)"
  note st = slot_stepD [OF b(2)]
  have ao: "alloc_ok s1" "i_dev (icache s1 ip) = ROOTDEV" and wf: "file_wf (disk s1) (sb_bmapstart (sb s1)) (unat (sb_size (sb s1))) ?a"
    using st(3) by (simp_all add: file_ok_def)
  have j: "unat off div 1024 < 268" using bn unfolding ub .
  have cap: "unat ?blk < disk_blocks s1" using file_wfD(2) [OF wf refsI(1) [OF j b(3)]] ao(1) by (simp add: alloc_ok_def)
  have rm: "size H < NBUF" using ok(2) by simp
  obtain bp s2 s3 where r: "bread ROOTDEV ?blk s1 = Inr (bp, s2)" "b_data (bufs s2 bp) = disk s1 ?blk"
    "bwrite bp (set_data bp (?f (disk s1 ?blk)) s2) = Inr s3" "cache_step H s1 (brelse bp s3)"
    "disk (brelse bp s3) = (disk s1)(?blk := ?f (disk s1 ?blk))"
    by (rule bread_bwrite_brelse [OF st(2) rm cap, of ?f]) blast
  let ?t = "brelse bp s3"
  note sd = step_data [OF wf j b(3), where e = "?f (disk s1 ?blk)", folded r(5)]
  note cf = cache_step_fs [OF r(4)]
  have "alloc_ok ?t" by (rule alloc_ok_marks [OF ao(1) cf(1,3)]) (use sd(3) in blast)
  then have "slot_step H ip s1 ?t"
    using sd(1) file_stepD(1) [OF sd(1)] ao(2) cache_step_fs_step [OF r(4)] by (simp add: slot_step_def file_ok_def cf)
  note sl = slot_step_trans [OF b(2) this]
  have fc: "free_count ?t = free_count s1"
    unfolding free_count_def cf using sd(3) by (intro arg_cong [where f = card] free_set_cong)
  have w: "writei_loop ip src tot off n s = writei_loop ip src (tot + m) (off + m) n ?t"
    unfolding writei_loop.simps [of ip src tot off n s] using lt b(1) r(1-3) ao(2) m by (simp add: Let_def)
  have h: "hbyte (disk ?t) (i_addrs (icache ?t ip)) i =
       (if unat off \<le> i \<and> i < unat off + unat m then src (unat tot + (i - unat off)) else hbyte (disk s) (i_addrs (icache s ip)) i)"
    if i: "i < 274432" for i
  proof -
    have "unat m \<le> 1024 - unat off mod 1024" using cb(3) by simp
    note ib = in_block [OF this, of i]
    have o: "unat (off mod 1024) = unat off mod 1024" by (simp add: unat_mod32)
    show ?thesis
    proof (cases "i div 1024 = unat off div 1024")
      case True
      have "disk s1 ?blk (i mod 1024) = hbyte (disk s) (i_addrs (icache s ip)) i"
        using b(7) [OF i] b(3) True by (simp add: hbyte_def fbyte_def)
      then show ?thesis
        using sd(2) [OF i] True ib by (simp add: cf(2) move_bytes_def o)
    next
      case False
      then have "\<not> (unat off \<le> i \<and> i < unat off + unat m)" using ib(1) by blast
      then show ?thesis using False sd(2) [OF i] b(7) [OF i] by (simp only: cf(2) if_False)
    qed
  qed
  have nz: "fblock (disk ?t) (i_addrs (icache ?t ip)) (unat off div 1024) \<noteq> 0"
    using file_stepD(2) [OF sd(1) j b(3)] b(3) by (simp add: cf(2))
  show thesis by (rule that [OF w sl nz]) (use fc b(4-6) h in \<open>simp_all add: cf(2)\<close>)
qed

lemma splice_append:
  fixes o1 t m l i :: nat
  assumes "h2 = (if o1 + m \<le> i \<and> i < o1 + m + (l - m) then src (t + m + (i - (o1 + m))) else h1)"
    and "h1 = (if o1 \<le> i \<and> i < o1 + m then src (t + (i - o1)) else h0)" and "m \<le> l"
  shows "h2 = (if o1 \<le> i \<and> i < o1 + l then src (t + (i - o1)) else h0)"
proof (cases "o1 + m \<le> i")
  case True
  then have "t + m + (i - (o1 + m)) = t + (i - o1)" by linarith
  then show ?thesis using True assms by simp
next
  case False
  then show ?thesis using assms by simp
qed

lemma writei_loop_spec:
  assumes "bcache_ok s H" "Suc (size H) < NBUF" "file_ok s ip" "tot \<le> n"
    and "unat off + (unat n - unat tot) \<le> 274432"
    and "blocks_touched (unat off) (unat n - unat tot) + (if i_addrs (icache s ip) NDIRECT = 0 then 1 else 0) \<le> free_count s"
  shows "\<exists>t. writei_loop ip src tot off n s = Inr (off + (n - tot), t) \<and> slot_step H ip s t \<and>
    (\<forall>i < 274432. hbyte (disk t) (i_addrs (icache t ip)) i =
       (if unat off \<le> i \<and> i < unat off + (unat n - unat tot) then src (unat tot + (i - unat off))
        else hbyte (disk s) (i_addrs (icache s ip)) i)) \<and>
    (\<forall>i. unat off \<le> i \<longrightarrow> i < unat off + (unat n - unat tot) \<longrightarrow> fblock (disk t) (i_addrs (icache t ip)) (i div 1024) \<noteq> 0)"
  using assms
proof (induction "unat n - unat tot" arbitrary: tot off s rule: less_induct)
  case less
  note ok = less.prems
  show ?case
  proof (cases "tot < n")
    case False
    have w: "writei_loop ip src tot off n s = Inr (off, s)"
      unfolding writei_loop.simps [of ip src tot off n s] by (rule if_not_P [OF False])
    have "tot = n" using False ok(4) by simp
    then show ?thesis using slot_step_refl [OF ok(1,3)] unfolding w by (intro exI [of _ s]) auto
  next
    case lt: True
    define m where "m = chunk off n tot"
    note cb = chunk_bounds [OF lt, of off, folded m_def]
    let ?l = "unat n - unat tot" let ?bn = "unat off div 1024"
    have l: "0 < ?l" using lt by (simp add: word_less_nat_alt)
    note bt = blocks_touched_step [OF l, of "unat m" "unat off"]
    have step: "blocks_touched (unat off + unat m) (?l - unat m) + 1 \<le> blocks_touched (unat off) ?l" by (rule bt [OF cb(3)])
    have cost: "bmap_cost s ip ?bn \<le> 1 + (if i_addrs (icache s ip) NDIRECT = 0 then 1 else 0)"
      "?bn < NDIRECT \<Longrightarrow> bmap_cost s ip ?bn \<le> 1" by (simp_all add: bmap_cost_def)
    then have fr: "bmap_cost s ip ?bn \<le> free_count s" using ok(6) step by linarith
    obtain t where t: "writei_loop ip src tot off n s = writei_loop ip src (tot + m) (off + m) n t" "slot_step H ip s t"
      "fblock (disk t) (i_addrs (icache t ip)) ?bn \<noteq> 0" "free_count t + bmap_cost s ip ?bn = free_count s"
      "NDIRECT \<le> ?bn \<Longrightarrow> i_addrs (icache t ip) NDIRECT \<noteq> 0"
      "?bn < NDIRECT \<Longrightarrow> i_addrs (icache t ip) NDIRECT = i_addrs (icache s ip) NDIRECT"
      "\<And>i. i < 274432 \<Longrightarrow> hbyte (disk t) (i_addrs (icache t ip)) i =
         (if unat off \<le> i \<and> i < unat off + unat m then src (unat tot + (i - unat off)) else hbyte (disk s) (i_addrs (icache s ip)) i)"
      by (rule write_round [OF ok(1-3) lt ok(5) fr m_def, where src = src]) blast
    note st = slot_stepD [OF t(2)]
    have um: "unat (off + m) = unat off + unat m" using cb(2) ok(5) l by (simp add: unat_add32)
    have l': "unat n - unat (tot + m) = ?l - unat m" using cb(4) by simp
    have "free_count t \<ge> blocks_touched (unat off + unat m) (?l - unat m) + (if i_addrs (icache t ip) NDIRECT = 0 then 1 else 0)"
      using t(4-6) cost ok(6) step by (cases "?bn < NDIRECT") (auto split: if_splits)
    then have pre: "blocks_touched (unat (off + m)) (unat n - unat (tot + m)) + (if i_addrs (icache t ip) NDIRECT = 0 then 1 else 0) \<le> free_count t"
      unfolding um l' .
    have dec: "unat n - unat (tot + m) < unat n - unat tot" using l' cb(1,2) by linarith
    have le: "tot + m \<le> n" using cb(2,4) lt by (simp add: word_le_nat_alt word_less_nat_alt)
    have fits: "unat (off + m) + (unat n - unat (tot + m)) \<le> 274432" using um l' cb(2) ok(5) by simp
    obtain u where u: "writei_loop ip src (tot + m) (off + m) n t = Inr (off + m + (n - (tot + m)), u)" "slot_step H ip t u"
      "\<forall>i < 274432. hbyte (disk u) (i_addrs (icache u ip)) i =
         (if unat (off + m) \<le> i \<and> i < unat (off + m) + (unat n - unat (tot + m)) then src (unat (tot + m) + (i - unat (off + m)))
          else hbyte (disk t) (i_addrs (icache t ip)) i)"
      "\<forall>i. unat (off + m) \<le> i \<longrightarrow> i < unat (off + m) + (unat n - unat (tot + m)) \<longrightarrow> fblock (disk u) (i_addrs (icache u ip)) (i div 1024) \<noteq> 0"
      using less.hyps [OF dec st(2) ok(2) st(3) le fits pre] by blast
    have bn: "?bn < 268" using ok(5) l by (intro less_mult_imp_div_less) simp
    have "file_step (sb_bmapstart (sb t)) (unat (sb_size (sb t))) (disk t) (i_addrs (icache t ip)) (disk u) (i_addrs (icache u ip))"
      using u(2) by (simp add: slot_step_def)
    then have bnu: "fblock (disk u) (i_addrs (icache u ip)) ?bn \<noteq> 0" using file_stepD(2) [OF _ bn t(3)] t(3) by metis
    have "unat m \<le> 1024 - unat off mod 1024" using cb(3) by simp
    note ib = in_block(1) [OF this]
    have "hbyte (disk u) (i_addrs (icache u ip)) i =
       (if unat off \<le> i \<and> i < unat off + ?l then src (unat tot + (i - unat off)) else hbyte (disk s) (i_addrs (icache s ip)) i)"
      if "i < 274432" for i
      by (rule splice_append [OF u(3) [rule_format, OF that, unfolded um l', unfolded cb(4)] t(7) [OF that] cb(2)])
    moreover have "fblock (disk u) (i_addrs (icache u ip)) (i div 1024) \<noteq> 0" if "unat off \<le> i" "i < unat off + ?l" for i
    proof (cases "i < unat off + unat m")
      case True
      then show ?thesis using ib [of i] that bnu by metis
    next
      case False
      then show ?thesis using u(4) cb(2) that unfolding um l' by simp
    qed
    moreover have "writei_loop ip src tot off n s = Inr (off + (n - tot), u)" unfolding t(1) u(1) by simp
    ultimately show ?thesis using slot_step_trans [OF t(2) u(2)] by blast
  qed
qed

end
