(* ===== verification/File_Roundtrip.thy ===== *)
theory File_Roundtrip
  imports File_Write
begin

text \<open>
  What \<open>writei\<close> of \<open>kernel/fs/fs.c\<close> does to a whole file: its bytes, its inode on the disk and the
  blocks of everybody else; and that \<open>readi\<close> then gets back what was written.
\<close>

section \<open>Blocks that belong to somebody else\<close>

lemma upd_other_block:
  assumes wf: "file_wf D bm sz a" and b: "unat b < sz" "blk_used D bm b" "\<not> refs D a b" "\<not> bitmap_block bm sz b"
  shows "fblock (D(b := e)) a j = fblock D a j" "refs (D(b := e)) a = refs D a" "file_wf (D(b := e)) bm sz a"
    "unat x < sz \<Longrightarrow> blk_used (D(b := e)) bm x = blk_used D bm x"
    "i < 274432 \<Longrightarrow> hbyte (D(b := e)) a i = hbyte D a i"
proof -
  let ?D = "D(b := e)"
  note w = file_wfD [OF wf]
  show fb: "fblock ?D a j = fblock D a j" for j
  proof (cases "a NDIRECT = 0")
    case False
    then have "a NDIRECT \<noteq> b" using refsI(2) [where a = a and D = D] b(3) by metis
    then show ?thesis by (simp add: fblock_def)
  qed (simp add: fblock_def)
  show r: "refs ?D a = refs D a" by (simp add: refs_def fb fun_eq_iff)
  show u: "blk_used ?D bm x = blk_used D bm x" if "unat x < sz" for x by (rule blk_used_upd [OF b(4) that])
  show "file_wf ?D bm sz a"
    unfolding file_wf_def r fb
  proof (intro conjI allI impI)
    have "unat (0 :: u32) < sz" using b(1) by simp
    then show "blk_used ?D bm 0" using w(1) u by blast
    show "blk_used ?D bm x" if "refs D a x" for x using w(3) [OF that] u [OF w(2) [OF that]] by simp
  qed (use w(2,4,5,6) in blast)+
  show "hbyte ?D a i = hbyte D a i" if "i < 274432"
  proof -
    have "i div 1024 < 268" using that by (intro less_mult_imp_div_less) simp
    then have "fblock D a (i div 1024) \<noteq> 0 \<Longrightarrow> fblock D a (i div 1024) \<noteq> b" using refsI(1) b(3) by metis
    then show ?thesis by (simp add: hbyte_def fbyte_def fb)
  qed
qed

text \<open>A block in use, by neither the file in slot \<open>ip\<close> nor the bitmap.\<close>

definition foreign :: "'a fs_scheme \<Rightarrow> nat \<Rightarrow> u32 \<Rightarrow> bool" where
  "foreign s ip b \<longleftrightarrow> unat b < unat (sb_size (sb s)) \<and> blk_used (disk s) (sb_bmapstart (sb s)) b \<and>
     \<not> refs (disk s) (i_addrs (icache s ip)) b \<and> \<not> bitmap_block (sb_bmapstart (sb s)) (unat (sb_size (sb s))) b"

text \<open>
  A file that can be written: it keeps to its own blocks, its inode lies in a block of somebody
  else, and it has every block up to its size.
\<close>

definition writable_file :: "'a fs_scheme \<Rightarrow> nat \<Rightarrow> bool" where
  "writable_file s ip \<longleftrightarrow> file_ok s ip \<and> foreign s ip (inode_block (sb s) (i_inum (icache s ip))) \<and>
     unat (i_size (icache s ip)) \<le> 274432 \<and>
     (\<forall>i < unat (i_size (icache s ip)). fblock (disk s) (i_addrs (icache s ip)) (i div 1024) \<noteq> 0)"

text \<open>The disk has room for the write: its data blocks, and the indirect block when there is none.\<close>

definition room_for :: "'a fs_scheme \<Rightarrow> nat \<Rightarrow> nat \<Rightarrow> nat \<Rightarrow> bool" where
  "room_for s ip off n \<longleftrightarrow> off + n \<le> 274432 \<and>
     blocks_touched off n + (if i_addrs (icache s ip) NDIRECT = 0 then 1 else 0) \<le> free_count s"

lemma foreign_slot_step:
  assumes st: "slot_step H ip s t" and f: "foreign s ip b"
  shows "foreign t ip b" "disk t b = disk s b"
proof -
  have fs: "file_step (sb_bmapstart (sb s)) (unat (sb_size (sb s))) (disk s) (i_addrs (icache s ip)) (disk t) (i_addrs (icache t ip))"
    using st by (simp add: slot_step_def)
  have b: "unat b < unat (sb_size (sb s))" "blk_used (disk s) (sb_bmapstart (sb s)) b"
    "\<not> refs (disk s) (i_addrs (icache s ip)) b" "\<not> bitmap_block (sb_bmapstart (sb s)) (unat (sb_size (sb s))) b"
    using f by (simp_all add: foreign_def)
  show "disk t b = disk s b" by (rule file_stepD(5) [OF fs b])
  show "foreign t ip b"
    using b file_stepD(3) [OF fs b(1,2)] file_stepD(4) [OF fs _ b(2)] unfolding foreign_def slot_stepD(4) [OF st] by blast
qed

text \<open>Storing the inode in its block keeps all that.\<close>

lemma foreign_upd:
  assumes f: "foreign t ip k" and o: "file_ok t ip"
    and u: "sb u = sb t" "disk_blocks u = disk_blocks t" "i_addrs (icache u ip) = i_addrs (icache t ip)" "disk u = (disk t)(k := e)"
      "i_dev (icache u ip) = i_dev (icache t ip)"
  shows "file_ok u ip" "foreign u ip b = foreign t ip b" "fblock (disk u) (i_addrs (icache u ip)) j = fblock (disk t) (i_addrs (icache t ip)) j"
    "i < 274432 \<Longrightarrow> hbyte (disk u) (i_addrs (icache u ip)) i = hbyte (disk t) (i_addrs (icache t ip)) i"
proof -
  have wf: "file_wf (disk t) (sb_bmapstart (sb t)) (unat (sb_size (sb t))) (i_addrs (icache t ip))" and ao: "alloc_ok t"
    using o by (simp_all add: file_ok_def)
  have k: "unat k < unat (sb_size (sb t))" "blk_used (disk t) (sb_bmapstart (sb t)) k"
    "\<not> refs (disk t) (i_addrs (icache t ip)) k" "\<not> bitmap_block (sb_bmapstart (sb t)) (unat (sb_size (sb t))) k"
    using f by (simp_all add: foreign_def)
  note x = upd_other_block [OF wf k]
  have "alloc_ok u" by (rule alloc_ok_marks [OF ao u(1,2)]) (use x(4) in \<open>simp add: u\<close>)
  then show "file_ok u ip" using o x(3) by (simp add: file_ok_def u)
  show "foreign u ip b = foreign t ip b" using x(2,4) unfolding foreign_def u by auto
  show "fblock (disk u) (i_addrs (icache u ip)) j = fblock (disk t) (i_addrs (icache t ip)) j" unfolding u by (rule x(1))
  show "i < 274432 \<Longrightarrow> hbyte (disk u) (i_addrs (icache u ip)) i = hbyte (disk t) (i_addrs (icache t ip)) i"
    unfolding u by (rule x(5))
qed

lemma file_bytes_hbyte:
  assumes "writable_file s ip"
  shows "file_bytes s ip = map (hbyte (disk s) (i_addrs (icache s ip))) [0..<unat (i_size (icache s ip))]"
  using assms unfolding file_bytes_def writable_file_def by (intro map_cong refl) (simp add: hbyte_fbyte)

lemma splice_list:
  assumes "off \<le> sz" "\<And>i. i < max sz (off + n) \<Longrightarrow> g i = (if off \<le> i \<and> i < off + n then src (i - off) else f i)"
  shows "map g [0..<max sz (off + n)] = take off (map f [0..<sz]) @ map src [0..<n] @ drop (off + n) (map f [0..<sz])"
proof (rule nth_equalityI)
  show "length (map g [0..<max sz (off + n)]) = length (take off (map f [0..<sz]) @ map src [0..<n] @ drop (off + n) (map f [0..<sz]))"
    using assms(1) by (simp add: max_def)
  fix i assume "i < length (map g [0..<max sz (off + n)])"
  then have i: "i < max sz (off + n)" by simp
  have l: "map g [0..<max sz (off + n)] ! i = g i" using i by simp
  consider "i < off" | "off \<le> i" "i < off + n" | "off + n \<le> i" by linarith
  then show "map g [0..<max sz (off + n)] ! i = (take off (map f [0..<sz]) @ map src [0..<n] @ drop (off + n) (map f [0..<sz])) ! i"
    unfolding l assms(2) [OF i]
  proof cases
    case 2
    then have "i - off < n" by linarith
    then show "(if off \<le> i \<and> i < off + n then src (i - off) else f i) =
        (take off (map f [0..<sz]) @ map src [0..<n] @ drop (off + n) (map f [0..<sz])) ! i"
      using assms(1) 2 by (simp add: nth_append)
  next
    case 3
    then have "i < sz" "\<not> i - off < n" "off + n + (i - off - n) = i" using i by linarith+
    then show "(if off \<le> i \<and> i < off + n then src (i - off) else f i) =
        (take off (map f [0..<sz]) @ map src [0..<n] @ drop (off + n) (map f [0..<sz])) ! i"
      using assms(1) 3 by (simp add: nth_append)
  qed (use assms(1) in \<open>simp add: nth_append\<close>)
qed

lemma dinode_of_put_dinode_any:
  "dinode_of (put_dinode di d off) off = di\<lparr>d_addrs := \<lambda>k. if k < NDIRECT + 1 then d_addrs di k else 0\<rparr>"
  by (intro dinode.equality)
    (simp_all add: dinode_of_def put_dinode_def get_put_addrs_other get_put_addrs get_put_le_same get_put_le_other
      del: put_addrs.simps cong: if_cong)

section \<open>The effect of writei\<close>

lemma writei_ok:
  assumes ok: "bcache_ok s H" "Suc (size H) < NBUF" "writable_file s ip"
    and off: "unat off \<le> unat (i_size (icache s ip))" and room: "room_for s ip (unat off) (unat n)"
  obtains s' where "writei ip src off n s = Inr (n, s')" "bcache_ok s' H" "writable_file s' ip" "i_dev (icache s' ip) = ROOTDEV"
    "unat (i_size (icache s' ip)) = max (unat (i_size (icache s ip))) (unat off + unat n)"
    "\<And>i. i < 274432 \<Longrightarrow> hbyte (disk s') (i_addrs (icache s' ip)) i =
       (if unat off \<le> i \<and> i < unat off + unat n then src (i - unat off) else hbyte (disk s) (i_addrs (icache s ip)) i)"
    "sb s' = sb s" "\<And>b. foreign s ip b \<Longrightarrow> foreign s' ip b"
    "\<And>b. foreign s ip b \<Longrightarrow> b \<noteq> inode_block (sb s) (i_inum (icache s ip)) \<Longrightarrow> disk s' b = disk s b"
    "\<And>j. j \<noteq> i_inum (icache s ip) \<Longrightarrow> foreign s ip (inode_block (sb s) j) \<Longrightarrow> dinode_at s' j = dinode_at s j"
    "i_size (icache s ip) < off + n \<Longrightarrow> 0 < n \<Longrightarrow> dinode_at s' (i_inum (icache s ip)) =
       (copy_out (icache s' ip))\<lparr>d_addrs := \<lambda>k. if k < NDIRECT + 1 then i_addrs (icache s' ip) k else 0\<rparr>"
    "fs_step H s s'"
    "icache s' = (icache s)(ip := (icache s ip)\<lparr>i_size := i_size (icache s' ip), i_addrs := i_addrs (icache s' ip)\<rparr>)"
proof -
  let ?k = "inode_block (sb s) (i_inum (icache s ip))" let ?sz = "unat (i_size (icache s ip))"
  have w: "file_ok s ip" "foreign s ip ?k" "?sz \<le> 274432"
    "\<And>i. i < ?sz \<Longrightarrow> fblock (disk s) (i_addrs (icache s ip)) (i div 1024) \<noteq> 0"
    using ok(3) by (simp_all add: writable_file_def)
  have r: "unat off + (unat n - unat (0 :: u32)) \<le> 274432"
    "blocks_touched (unat off) (unat n - unat (0 :: u32)) + (if i_addrs (icache s ip) NDIRECT = 0 then 1 else 0) \<le> free_count s"
    using room by (simp_all add: room_for_def)
  obtain t where t: "writei_loop ip src 0 off n s = Inr (off + (n - 0), t)" "slot_step H ip s t"
    "\<And>i. i < 274432 \<Longrightarrow> hbyte (disk t) (i_addrs (icache t ip)) i =
       (if unat off \<le> i \<and> i < unat off + (unat n - unat (0 :: u32)) then src (unat (0 :: u32) + (i - unat off))
        else hbyte (disk s) (i_addrs (icache s ip)) i)"
    "\<And>i. unat off \<le> i \<Longrightarrow> i < unat off + (unat n - unat (0 :: u32)) \<Longrightarrow> fblock (disk t) (i_addrs (icache t ip)) (i div 1024) \<noteq> 0"
    using writei_loop_spec [OF ok(1,2) w(1) word_coorder.extremum r, of src] by blast
  note st = slot_stepD [OF t(2)]
  have un: "unat (off + n) = unat off + unat n" using r(1) by (simp add: unat_add32)
  have guards: "\<not> (i_size (icache s ip) < off \<or> off + n < off)" "\<not> MAXFILE < off + n"
    using off un r(1) by (simp_all add: word_less_nat_alt MAXFILE_def)
  have fk: "foreign t ip ?k" by (rule foreign_slot_step(1) [OF t(2) w(2)])
  have fs: "file_step (sb_bmapstart (sb s)) (unat (sb_size (sb s))) (disk s) (i_addrs (icache s ip)) (disk t) (i_addrs (icache t ip))"
    using t(2) by (simp add: slot_step_def)
  have blk: "fblock (disk t) (i_addrs (icache t ip)) (i div 1024) \<noteq> 0" if i: "i < max ?sz (unat off + unat n)" for i
  proof (cases "unat off \<le> i \<and> i < unat off + unat n")
    case True
    then show ?thesis using t(4) [of i] by simp
  next
    case False
    then have l: "i < ?sz" using i off by linarith
    then have "i div 1024 < 268" using w(3) by (intro less_mult_imp_div_less) simp
    then show ?thesis using file_stepD(2) [OF fs] w(4) [OF l] by metis
  qed
  note result = that
  have main: thesis if u: "writei ip src off n s = Inr (n, u)" "fs_step H s u"
      "sb u = sb t" "disk_blocks u = disk_blocks t" "i_addrs (icache u ip) = i_addrs (icache t ip)"
      "i_dev (icache u ip) = i_dev (icache t ip)" "i_inum (icache u ip) = i_inum (icache t ip)"
      "unat (i_size (icache u ip)) = max ?sz (unat off + unat n)"
      "disk u = (disk t)(?k := e)" "\<And>x. x < inode_off (i_inum (icache s ip)) \<or> inode_off (i_inum (icache s ip)) + 64 \<le> x \<Longrightarrow> e x = disk t ?k x"
      "i_size (icache s ip) < off + n \<Longrightarrow> 0 < n \<Longrightarrow> dinode_of e (inode_off (i_inum (icache s ip))) =
         (copy_out (icache u ip))\<lparr>d_addrs := \<lambda>k. if k < NDIRECT + 1 then i_addrs (icache u ip) k else 0\<rparr>"
      "icache u = (icache t)(ip := (icache t ip)\<lparr>i_size := i_size (icache u ip)\<rparr>)"
    for u e
  proof -
    note x = foreign_upd [OF fk st(3) u(3,4,5,9,6)]
    have su: "sb u = sb s" using u(3) st(4) by simp
    show thesis
    proof (rule result [OF u(1) fs_step_facts(1) [OF u(2)]])
      show "writable_file u ip"
        using x(1-3) fk u(7,8) su st(4,7) blk w(3) r(1) unfolding writable_file_def by simp
      show "i_dev (icache u ip) = ROOTDEV" using x(1) by (simp add: file_ok_def)
      show "unat (i_size (icache u ip)) = max ?sz (unat off + unat n)" by (rule u(8))
      show "hbyte (disk u) (i_addrs (icache u ip)) i =
         (if unat off \<le> i \<and> i < unat off + unat n then src (i - unat off) else hbyte (disk s) (i_addrs (icache s ip)) i)"
        if "i < 274432" for i using x(4) [OF that] t(3) [OF that] by simp
      show "sb u = sb s" by (rule su)
      show "foreign u ip b" if "foreign s ip b" for b unfolding x(2) by (rule foreign_slot_step(1) [OF t(2) that])
      show "disk u b = disk s b" if "foreign s ip b" "b \<noteq> ?k" for b
        using foreign_slot_step(2) [OF t(2) that(1)] that(2) u(9) by simp
      show "dinode_at u j = dinode_at s j" if "j \<noteq> i_inum (icache s ip)" "foreign s ip (inode_block (sb s) j)" for j
      proof -
        have "disk u = (disk t)(inode_block (sb t) (i_inum (icache s ip)) := e)" using u(9) st(4) by simp
        from dinode_at_other [OF u(3) this _ that(1)] u(10) st(4) have "dinode_at u j = dinode_at t j" by simp
        also have "\<dots> = dinode_at s j" using foreign_slot_step(2) [OF t(2) that(2)] st(4) by (simp add: dinode_at_def)
        finally show ?thesis .
      qed
      show "dinode_at u (i_inum (icache s ip)) =
         (copy_out (icache u ip))\<lparr>d_addrs := \<lambda>k. if k < NDIRECT + 1 then i_addrs (icache u ip) k else 0\<rparr>"
        if "i_size (icache s ip) < off + n" "0 < n" using u(11) [OF that] u(9) su by (simp add: dinode_at_def)
      show "fs_step H s u" by (rule u(2))
      have it: "icache t = (icache s)(ip := (icache s ip)\<lparr>i_addrs := i_addrs (icache t ip)\<rparr>)"
        using t(2) by (simp add: slot_step_def)
      have "icache u q = ((icache s)(ip := (icache s ip)\<lparr>i_size := i_size (icache u ip), i_addrs := i_addrs (icache u ip)\<rparr>)) q" for q
      proof (cases "q = ip")
        case True
        have "icache u ip = (icache t ip)\<lparr>i_size := i_size (icache u ip)\<rparr>" by (subst u(12)) simp
        moreover have "(icache t ip)\<lparr>i_size := i_size (icache u ip)\<rparr> =
            (icache s ip)\<lparr>i_size := i_size (icache u ip), i_addrs := i_addrs (icache t ip)\<rparr>" by (subst it) simp
        ultimately show ?thesis unfolding True fun_upd_same u(5) by (rule trans)
      next
        case False
        have "icache u q = icache t q" using False by (subst u(12)) simp
        then show ?thesis using st(10) [OF False] False by simp
      qed
      then show "icache u = (icache s)(ip := (icache s ip)\<lparr>i_size := i_size (icache u ip), i_addrs := i_addrs (icache u ip)\<rparr>)" ..
    qed
  qed
  show thesis
  proof (cases "0 < n \<and> i_size (icache t ip) < off + n")
    case False
    have "writei ip src off n s = Inr (n, t)" using False guards t(1) by (auto simp: writei_def)
    then show thesis
      using False st off un by (intro main [of t "disk t ?k"]) (auto simp: word_less_nat_alt)
  next
    case True
    let ?u = "upd_inode ip (\<lambda>f. f\<lparr>i_size := off + n\<rparr>) t"
    have us: "fs_step H s ?u" by (rule fs_step_trans [OF st(1) upd_inode_fs_step [OF st(2)]])
    have uok: "bcache_ok ?u H" by (rule fs_step_facts(1) [OF us])
    have ud: "i_dev (icache ?u ip) = ROOTDEV" "i_inum (icache ?u ip) = i_inum (icache s ip)" "sb ?u = sb s"
      using st(3,4,7) by (simp_all add: file_ok_def)
    have "unat ?k < disk_blocks s" using w(1,2) by (simp add: file_ok_def foreign_def alloc_ok_def)
    then have kb: "unat (inode_block (sb ?u) (i_inum (icache ?u ip))) < disk_blocks ?u" unfolding ud using st(5) by simp
    have sH: "size H < NBUF" using ok(2) by simp
    obtain s' where i: "iupdate ip ?u = Inr s'" "cache_step H ?u s'"
      "disk s' = (disk ?u)(?k := put_dinode (copy_out (icache ?u ip)) (disk ?u ?k) (inode_off (i_inum (icache s ip))))"
      using iupdate_ok [OF uok sH ud(1) kb] unfolding ud(2,3) by blast
    note cf = cache_step_fs [OF i(2)]
    have wr: "writei ip src off n s = Inr (n, s')" using True guards t(1) i(1) by (simp add: writei_def)
    have i3: "disk s' = (disk t)(?k := put_dinode (copy_out (icache ?u ip)) (disk t ?k) (inode_off (i_inum (icache s ip))))"
      using i(3) by simp
    show thesis
    proof (rule main [OF wr fs_step_trans [OF us cache_step_fs_step [OF i(2)]] _ _ _ _ _ _ i3])
      show "unat (i_size (icache s' ip)) = max ?sz (unat off + unat n)"
        using True un st(6) by (simp add: cf word_less_nat_alt)
      show "dinode_of (put_dinode (copy_out (icache ?u ip)) (disk t ?k) (inode_off (i_inum (icache s ip)))) (inode_off (i_inum (icache s ip))) =
         (copy_out (icache s' ip))\<lparr>d_addrs := \<lambda>k. if k < NDIRECT + 1 then i_addrs (icache s' ip) k else 0\<rparr>"
        unfolding dinode_of_put_dinode_any by (simp add: cf copy_out_def cong: if_cong)
    qed (simp_all add: cf put_dinode_outside, simp add: upd_inode_def)
  qed
qed

text \<open>A file that can be written can be read.\<close>

lemma writable_readable:
  assumes w: "writable_file s ip"
  shows "readable_blocks s ip (blocks_for (unat (i_size (icache s ip))))"
proof -
  let ?sz = "unat (i_size (icache s ip))" and ?a = "i_addrs (icache s ip)"
  have o: "alloc_ok s" and wf: "file_wf (disk s) (sb_bmapstart (sb s)) (unat (sb_size (sb s))) ?a" and sz: "?sz \<le> 274432"
    and b: "\<And>i. i < ?sz \<Longrightarrow> fblock (disk s) ?a (i div 1024) \<noteq> 0"
    using w by (simp_all add: writable_file_def file_ok_def)
  have cap: "unat x < disk_blocks s" if "refs (disk s) ?a x" for x
    using file_wfD(2) [OF wf that] o by (simp add: alloc_ok_def)
  have n: "blocks_for ?sz \<le> 268" using sz unfolding blocks_for_def by linarith
  have nz: "fblock (disk s) ?a bn \<noteq> 0" if "bn < blocks_for ?sz" for bn
  proof -
    have "1024 * bn < ?sz" using that unfolding blocks_for_def by linarith
    then show ?thesis using b [of "1024 * bn"] by simp
  qed
  have "unat (?a NDIRECT) < disk_blocks s" if "NDIRECT < blocks_for ?sz"
  proof -
    have "fblock (disk s) ?a NDIRECT = 0" if "?a NDIRECT = 0" using that by (simp add: fblock_def)
    then have "?a NDIRECT \<noteq> 0" using nz [OF that] by argo
    then show ?thesis by (rule cap [OF refsI(2)])
  qed
  then show ?thesis
    unfolding readable_blocks_def
  proof (intro conjI allI impI)
    fix bn assume bn: "bn < blocks_for ?sz"
    show "fblock (disk s) ?a bn \<noteq> 0" by (rule nz [OF bn])
    have "bn < 268" using bn n by linarith
    then show "unat (fblock (disk s) ?a bn) < disk_blocks s" by (rule cap [OF refsI(1) [OF _ nz [OF bn]]])
  qed (rule n)
qed

section \<open>Properties\<close>

text \<open>
  C5: When the disk has room, \<open>writei\<close> at an offset up to the end of a well-formed file replaces
  exactly the bytes from \<open>off\<close> to \<open>off + n - 1\<close>, appending what reaches past the end, and returns
  \<open>n\<close>.  The file stays well formed, no block or inode of anybody else changes, and when the file has
  grown its inode on the disk is the one in memory.
\<close>

theorem writei_writes:
  assumes "bcache_ok s H" and "Suc (size H) < NBUF" and "writable_file s ip"
    and "unat off \<le> unat (i_size (icache s ip))" and "room_for s ip (unat off) (unat n)"
  shows "\<exists>s'. writei ip src off n s = Inr (n, s') \<and> bcache_ok s' H \<and> writable_file s' ip \<and>
    file_bytes s' ip = take (unat off) (file_bytes s ip) @ map src [0..<unat n] @ drop (unat off + unat n) (file_bytes s ip) \<and>
    (\<forall>b. foreign s ip b \<longrightarrow> foreign s' ip b \<and> (b \<noteq> inode_block (sb s) (i_inum (icache s ip)) \<longrightarrow> disk s' b = disk s b)) \<and>
    (\<forall>j. j \<noteq> i_inum (icache s ip) \<longrightarrow> foreign s ip (inode_block (sb s) j) \<longrightarrow> dinode_at s' j = dinode_at s j) \<and>
    (unat (i_size (icache s ip)) < unat off + unat n \<longrightarrow> dinode_at s' (i_inum (icache s ip)) =
       (copy_out (icache s' ip))\<lparr>d_addrs := \<lambda>k. if k < NDIRECT + 1 then i_addrs (icache s' ip) k else 0\<rparr>)"
proof -
  obtain s' where w: "writei ip src off n s = Inr (n, s')" "bcache_ok s' H" "writable_file s' ip" "i_dev (icache s' ip) = ROOTDEV"
    "unat (i_size (icache s' ip)) = max (unat (i_size (icache s ip))) (unat off + unat n)"
    "\<And>i. i < 274432 \<Longrightarrow> hbyte (disk s') (i_addrs (icache s' ip)) i =
       (if unat off \<le> i \<and> i < unat off + unat n then src (i - unat off) else hbyte (disk s) (i_addrs (icache s ip)) i)"
    "sb s' = sb s" "\<And>b. foreign s ip b \<Longrightarrow> foreign s' ip b"
    "\<And>b. foreign s ip b \<Longrightarrow> b \<noteq> inode_block (sb s) (i_inum (icache s ip)) \<Longrightarrow> disk s' b = disk s b"
    "\<And>j. j \<noteq> i_inum (icache s ip) \<Longrightarrow> foreign s ip (inode_block (sb s) j) \<Longrightarrow> dinode_at s' j = dinode_at s j"
    "i_size (icache s ip) < off + n \<Longrightarrow> 0 < n \<Longrightarrow> dinode_at s' (i_inum (icache s ip)) =
       (copy_out (icache s' ip))\<lparr>d_addrs := \<lambda>k. if k < NDIRECT + 1 then i_addrs (icache s' ip) k else 0\<rparr>"
    by (rule writei_ok [OF assms, where src = src], rule that)
  have un: "unat (off + n) = unat off + unat n" using assms(5) by (simp add: room_for_def unat_add32)
  have grown: "i_size (icache s ip) < off + n \<and> 0 < n" if "unat (i_size (icache s ip)) < unat off + unat n"
    using that assms(4) un by (simp add: word_less_nat_alt)
  have le: "max (unat (i_size (icache s ip))) (unat off + unat n) \<le> 274432"
    using w(3,5) by (simp add: writable_file_def)
  have "file_bytes s' ip = take (unat off) (file_bytes s ip) @ map src [0..<unat n] @ drop (unat off + unat n) (file_bytes s ip)"
    unfolding file_bytes_hbyte [OF w(3)] file_bytes_hbyte [OF assms(3)] w(5)
  proof (rule splice_list [OF assms(4)])
    fix i assume "i < max (unat (i_size (icache s ip))) (unat off + unat n)"
    then have "i < 274432" using le by linarith
    then show "hbyte (disk s') (i_addrs (icache s' ip)) i =
       (if unat off \<le> i \<and> i < unat off + unat n then src (i - unat off) else hbyte (disk s) (i_addrs (icache s ip)) i)" by (rule w(6))
  qed
  then show ?thesis using w(1-3,8-11) grown by (intro exI [of _ s']) blast
qed

text \<open>An empty file in slot 0 of the demonstration cache, inode 2.\<close>

definition demo_empty :: fs where
  "demo_empty = upd_inode 0 (\<lambda>f. f\<lparr>i_dev := ROOTDEV, i_inum := 2, i_ref := 1, i_valid := 1, i_type := T_FILE\<rparr>) demo_fs"

lemma demo_empty_facts:
  "bcache_ok demo_empty {#}" "writable_file demo_empty 0" "i_size (icache demo_empty 0) = 0" "room_for demo_empty 0 0 3"
proof -
  show "bcache_ok demo_empty {#}"
    unfolding demo_empty_def by (rule fs_step_facts(1) [OF upd_inode_fs_step [OF demo_fs_cache]])
  have sel: "disk demo_empty = demo_disk" "sb demo_empty = demo_sb" "disk_blocks demo_empty = 1000"
    "i_addrs (icache demo_empty 0) = (\<lambda>_. 0)" "i_dev (icache demo_empty 0) = ROOTDEV" "i_inum (icache demo_empty 0) = 2"
    by (simp_all add: demo_empty_def demo_fs_sel demo_icache)
  show sz: "i_size (icache demo_empty 0) = 0" by (simp add: demo_empty_def demo_icache)
  have r: "\<not> refs demo_disk (\<lambda>_. 0) b" for b by (auto simp: refs_def fblock_def)
  have ao: "alloc_ok demo_empty" using demo_alloc_ok by (simp add: alloc_ok_def sel demo_fs_sel)
  have "file_ok demo_empty 0"
    using ao r demo_used [of 0] unfolding file_ok_def file_wf_def sel by (simp add: demo_fs_sel fblock_def)
  moreover have "x div 8192 = 0" if "unat x < 1000" for x :: u32
    using that by (intro unat_eqD) (simp add: unat_div32)
  then have "\<not> bitmap_block 2 1000 3" by (auto simp: bitmap_block_def)
  then have "foreign demo_empty 0 (inode_block (sb demo_empty) (i_inum (icache demo_empty 0)))"
    using demo_used [of 3] r by (simp add: foreign_def sel demo_fs_sel inode_block_def)
  ultimately show "writable_file demo_empty 0" unfolding writable_file_def sz by simp
  have "card {5, 6 :: u32} \<le> free_count demo_empty"
    unfolding free_count_def using demo_used [of 5] demo_used [of 6]
    by (intro card_mono) (simp_all add: free_set_def sel demo_fs_sel)
  then show "room_for demo_empty 0 0 3" by (simp add: room_for_def blocks_touched_def sel)
qed

theorem writei_writes_witness:
  "\<exists>s'. writei 0 (\<lambda>i. of_nat i) 0 3 demo_empty = Inr (3, s') \<and> file_bytes s' 0 = [0, 1, 2] \<and> dinode_at s' 1 = dinode_at demo_empty 1"
proof -
  have n: "Suc (size ({#} :: u32 multiset)) < NBUF" by simp
  have e: "file_bytes demo_empty 0 = []" by (simp add: file_bytes_def demo_empty_facts(3))
  have i: "inode_block (sb demo_empty) 1 = inode_block (sb demo_empty) (i_inum (icache demo_empty 0))" "i_inum (icache demo_empty 0) = 2"
    by (simp_all add: demo_empty_def inode_block_def)
  then have f: "foreign demo_empty 0 (inode_block (sb demo_empty) 1)"
    using demo_empty_facts(2) by (simp add: writable_file_def)
  have "unat (0 :: u32) \<le> unat (i_size (icache demo_empty 0))" "room_for demo_empty 0 (unat (0 :: u32)) (unat (3 :: u32))"
    using demo_empty_facts(4) by simp_all
  from writei_writes [OF demo_empty_facts(1) n demo_empty_facts(2) this, of "\<lambda>i. of_nat i"]
  show ?thesis using f i(2) by (auto simp: e upt_rec)
qed

text \<open>
  C10: What was written is what is read: after such a \<open>writei\<close>, \<open>readi\<close> of the same range returns
  \<open>n\<close> and copies the bytes that were written.
\<close>

theorem writei_readi_roundtrip:
  assumes "bcache_ok s H" and "Suc (size H) < NBUF" and "writable_file s ip"
    and "unat off \<le> unat (i_size (icache s ip))" and "room_for s ip (unat off) (unat n)"
  shows "\<exists>s' dst' s''. writei ip src off n s = Inr (n, s') \<and> readi ip dst off n s' = Inr (n, dst', s'') \<and>
    map dst' [0..<unat n] = map src [0..<unat n] \<and> (\<forall>i. unat n \<le> i \<longrightarrow> dst' i = dst i) \<and> disk s'' = disk s'"
proof -
  obtain s' where w: "writei ip src off n s = Inr (n, s')" "bcache_ok s' H" "writable_file s' ip" "i_dev (icache s' ip) = ROOTDEV"
    "unat (i_size (icache s' ip)) = max (unat (i_size (icache s ip))) (unat off + unat n)"
    "\<And>i. i < 274432 \<Longrightarrow> hbyte (disk s') (i_addrs (icache s' ip)) i =
       (if unat off \<le> i \<and> i < unat off + unat n then src (i - unat off) else hbyte (disk s) (i_addrs (icache s ip)) i)"
    by (rule writei_ok [OF assms, where src = src], rule that)
  have sH: "size H < NBUF" using assms(2) by simp
  have fits: "unat off + unat n \<le> 274432" using assms(5) by (simp add: room_for_def)
  have k: "read_count (i_size (icache s' ip)) off n = unat n" using fits w(5) by (simp add: read_count_def)
  have "fbyte (disk s') (i_addrs (icache s' ip)) (unat off + i) = src i" if "i < unat n" for i
  proof -
    have "fblock (disk s') (i_addrs (icache s' ip)) ((unat off + i) div 1024) \<noteq> 0"
      using w(3,5) that by (simp add: writable_file_def)
    then show ?thesis using w(6) [of "unat off + i"] that fits by (simp add: hbyte_fbyte)
  qed
  then have e: "map (\<lambda>i. if i < unat n then fbyte (disk s') (i_addrs (icache s' ip)) (unat off + i) else dst i) [0..<unat n] = map src [0..<unat n]"
    by (intro map_cong refl) simp
  obtain s'' where r: "readi ip dst off n s' = Inr (of_nat (unat n),
      (\<lambda>i. if i < unat n then fbyte (disk s') (i_addrs (icache s' ip)) (unat off + i) else dst i), s'')" "disk s'' = disk s'"
    using readi_spec [OF w(2) sH w(4) writable_readable [OF w(3)], of dst off n] unfolding k by blast
  have nn: "of_nat (unat n) = n" by simp
  have r1: "readi ip dst off n s' = Inr (n,
      (\<lambda>i. if i < unat n then fbyte (disk s') (i_addrs (icache s' ip)) (unat off + i) else dst i), s'')"
    using r(1) unfolding nn .
  show ?thesis
    by (rule exI [of _ s'], rule exI [of _ "\<lambda>i. if i < unat n then fbyte (disk s') (i_addrs (icache s' ip)) (unat off + i) else dst i"],
      rule exI [of _ s''], intro conjI w(1) r1 e r(2)) (simp add: not_less [symmetric])
qed

theorem writei_readi_roundtrip_witness:
  "\<exists>s' dst' s''. writei 0 (\<lambda>i. of_nat i) 0 3 demo_empty = Inr (3, s') \<and> readi 0 (\<lambda>_. 9) 0 3 s' = Inr (3, dst', s'') \<and> dst' 2 = 2"
proof -
  have n: "Suc (size ({#} :: u32 multiset)) < NBUF" by simp
  have "unat (0 :: u32) \<le> unat (i_size (icache demo_empty 0))" "room_for demo_empty 0 (unat (0 :: u32)) (unat (3 :: u32))"
    using demo_empty_facts(4) by simp_all
  from writei_readi_roundtrip [OF demo_empty_facts(1) n demo_empty_facts(2) this, of "\<lambda>i. of_nat i" "\<lambda>_. 9"]
  obtain s' dst' s'' where r: "writei 0 (\<lambda>i. of_nat i) 0 3 demo_empty = Inr (3, s')" "readi 0 (\<lambda>_. 9) 0 3 s' = Inr (3, dst', s'')"
    "map dst' [0..<unat (3 :: u32)] = map (\<lambda>i. of_nat i) [0..<unat (3 :: u32)]" by blast
  have "dst' 2 = map dst' [0..<unat (3 :: u32)] ! 2" by (simp, simp only: numeral_2_eq_2)
  also have "\<dots> = 2" unfolding r(3) by simp
  finally show ?thesis using r(1,2) by blast
qed

end
