(* ===== verification/File_Calls.thy ===== *)
theory File_Calls
  imports File File_Roundtrip
begin

text \<open>
  Writing through an open file, \<open>filewrite\<close> of \<open>kernel/fs/file.c\<close>: from the bytes in memory to the bytes
  of the file, with the offset that the next call continues from.
\<close>

lemma fs_step_ftable: "fs_step H s t \<Longrightarrow> ftable t = ftable (s :: 'a files_scheme)"
  unfolding fs_step_def by (cases s; cases t) simp

lemma filewrite_ok:
  assumes ok: "bcache_ok s H" "Suc (size H) < NBUF" "f_writable (ftable s f) \<noteq> 0" "f_ip (ftable s f) = Some ip"
    and ip: "0 < sint (i_ref (icache s ip))" "i_valid (icache s ip) \<noteq> 0" "writable_file s ip"
    and off: "unat (f_off (ftable s f)) \<le> unat (i_size (icache s ip))" and room: "room_for s ip (unat (f_off (ftable s f))) (unat n)"
  obtains s' t where "filewrite f addr n s = Inr (n, s')" "writei ip (buf_at (memory s) addr) (f_off (ftable s f)) n s = Inr (n, t)"
    "s' = upd_file f (\<lambda>x. x\<lparr>f_off := f_off x + n\<rparr>) t" "bcache_ok t H" "writable_file t ip" "fs_step H s t"
    "unat (i_size (icache t ip)) = max (unat (i_size (icache s ip))) (unat (f_off (ftable s f)) + unat n)"
    "icache t = (icache s)(ip := (icache s ip)\<lparr>i_size := i_size (icache t ip), i_addrs := i_addrs (icache t ip)\<rparr>)"
    "\<And>i. i < 274432 \<Longrightarrow> hbyte (disk t) (i_addrs (icache t ip)) i =
       (if unat (f_off (ftable s f)) \<le> i \<and> i < unat (f_off (ftable s f)) + unat n then buf_at (memory s) addr (i - unat (f_off (ftable s f)))
        else hbyte (disk s) (i_addrs (icache s ip)) i)"
proof -
  let ?off = "f_off (ftable s f)" let ?src = "buf_at (memory s) addr"
  obtain t where t: "writei ip ?src ?off n s = Inr (n, t)" "bcache_ok t H" "writable_file t ip"
    "unat (i_size (icache t ip)) = max (unat (i_size (icache s ip))) (unat ?off + unat n)"
    "\<And>i. i < 274432 \<Longrightarrow> hbyte (disk t) (i_addrs (icache t ip)) i =
       (if unat ?off \<le> i \<and> i < unat ?off + unat n then ?src (i - unat ?off) else hbyte (disk s) (i_addrs (icache s ip)) i)"
    "fs_step H s t"
    "icache t = (icache s)(ip := (icache s ip)\<lparr>i_size := i_size (icache t ip), i_addrs := i_addrs (icache t ip)\<rparr>)"
    by (rule writei_ok [OF ok(1,2) ip(3) off room, where src = ?src], rule that)
  note ft = fs_step_ftable [OF t(6)]
  let ?s = "upd_file f (\<lambda>x. x\<lparr>f_off := f_off x + n\<rparr>) t"
  have "i_ref (icache t ip) = i_ref (icache s ip)" by (subst t(7)) simp
  then have u: "iunlock (Some ip) ?s = Inr ?s" using ip(1) by (simp add: iunlock_def)
  have l: "ilock (Some ip) s = Inr s" using ip(1,2) by (simp add: ilock_def)
  have n: "unat n \<le> 274432" using room by (simp add: room_for_def)
  have nn: "of_nat (unat n) = n" by simp
  have "sint n = int (unat n)" using small_int(1) [OF n] unfolding nn .
  then have "0 < sint n \<or> n = 0" using unat_gt_0 [of n] by linarith
  moreover have "upd_file f (\<lambda>x. x\<lparr>f_off := f_off x + 0\<rparr>) t = t" by (simp add: upd_file_def)
  ultimately have e: "(if 0 < sint n then ?s else t) = ?s" by auto
  have "filewrite f addr n s = Inr (n, ?s)"
    unfolding filewrite_def if_not_P [OF ok(3)] ok(4) option.case l bindE_Inr t(1) prod.case Let_def e u ..
  then show thesis by (rule that [OF _ t(1) refl t(2,3,6,4,7,5)])
qed

text \<open>
  C23: A write through an open file puts the \<open>n\<close> bytes at the caller's address into the file at the
  file's offset, extending it when needed, and moves the offset past them, so that the next write
  continues there; the other open files, the other inodes in memory and the memory stay as they are.
  The inode has to be loaded, the offset not past the end of the file, the file short enough and the disk
  to have room for the blocks the write adds, and two buffers must be free.
\<close>

theorem filewrite_writes:
  assumes "bcache_ok s H" and "Suc (size H) < NBUF" and "f_writable (ftable s f) \<noteq> 0" and "f_ip (ftable s f) = Some ip"
    and "0 < sint (i_ref (icache s ip))" and "i_valid (icache s ip) \<noteq> 0" and "writable_file s ip"
    and "off = unat (f_off (ftable s f))" and "off \<le> unat (i_size (icache s ip))" and "room_for s ip off (unat n)"
  shows "\<exists>s'. filewrite f addr n s = Inr (n, s') \<and> bcache_ok s' H \<and> writable_file s' ip \<and>
    file_bytes s' ip = take off (file_bytes s ip) @ map (\<lambda>i. memory s (addr + of_nat i)) [0..<unat n] @ drop (off + unat n) (file_bytes s ip) \<and>
    ftable s' = (ftable s)(f := (ftable s f)\<lparr>f_off := f_off (ftable s f) + n\<rparr>) \<and>
    unat (f_off (ftable s' f)) = off + unat n \<and> off + unat n \<le> unat (i_size (icache s' ip)) \<and>
    (\<forall>q. q \<noteq> ip \<longrightarrow> icache s' q = icache s q) \<and> memory s' = memory s"
proof -
  obtain s' t where w: "filewrite f addr n s = Inr (n, s')" "s' = upd_file f (\<lambda>x. x\<lparr>f_off := f_off x + n\<rparr>) t" "bcache_ok t H"
    "writable_file t ip" "fs_step H s t" "unat (i_size (icache t ip)) = max (unat (i_size (icache s ip))) (off + unat n)"
    "icache t = (icache s)(ip := (icache s ip)\<lparr>i_size := i_size (icache t ip), i_addrs := i_addrs (icache t ip)\<rparr>)"
    "\<And>i. i < 274432 \<Longrightarrow> hbyte (disk t) (i_addrs (icache t ip)) i =
       (if off \<le> i \<and> i < off + unat n then buf_at (memory s) addr (i - off) else hbyte (disk s) (i_addrs (icache s ip)) i)"
    by (rule filewrite_ok [OF assms(1-7) assms(9,10) [unfolded assms(8)], where addr = addr, folded assms(8)], rule that)
  have ft: "ftable t = ftable s" by (rule fs_step_ftable [OF w(5)])
  have fits: "off + unat n \<le> 274432" using assms(10) by (simp add: room_for_def)
  have sel: "file_bytes s' ip = file_bytes t ip" "icache s' = icache t" "memory s' = memory t" "writable_file s' ip = writable_file t ip" "bcache_ok s' H = bcache_ok t H"
    unfolding w(2) by (simp_all add: file_bytes_def writable_file_def file_ok_def alloc_ok_def foreign_def bcache_ok_def)
  have le: "max (unat (i_size (icache s ip))) (off + unat n) \<le> 274432" using w(4,6) by (simp add: writable_file_def)
  have "file_bytes t ip = take off (file_bytes s ip) @ map (buf_at (memory s) addr) [0..<unat n] @ drop (off + unat n) (file_bytes s ip)"
    unfolding file_bytes_hbyte [OF w(4)] file_bytes_hbyte [OF assms(7)] w(6)
  proof (rule splice_list [OF assms(9)])
    fix i assume "i < max (unat (i_size (icache s ip))) (off + unat n)"
    then have "i < 274432" using le by linarith
    then show "hbyte (disk t) (i_addrs (icache t ip)) i =
       (if off \<le> i \<and> i < off + unat n then buf_at (memory s) addr (i - off) else hbyte (disk s) (i_addrs (icache s ip)) i)" by (rule w(8))
  qed
  moreover have f: "ftable s' = (ftable s)(f := (ftable s f)\<lparr>f_off := f_off (ftable s f) + n\<rparr>)"
    unfolding w(2) using ft by (simp add: upd_file_def)
  moreover have "unat (f_off (ftable s' f)) = off + unat n"
    using assms(8) fits unfolding f by (simp add: unat_add32)
  moreover have "icache t q = icache s q" if "q \<noteq> ip" for q using that by (subst w(7)) simp
  moreover have "off + unat n \<le> unat (i_size (icache t ip))" unfolding w(6) by simp
  moreover have "memory t = memory s" by (rule fs_step_facts(5) [OF w(5)])
  ultimately show ?thesis using w(1,3,4) sel unfolding buf_at_def by (intro exI [of _ s']) simp
qed

text \<open>An empty file, open for writing as file 0.\<close>

definition demo_writer :: files where
  "demo_writer = \<lparr>memory = \<lambda>_. 0x41, console_out = [], free_mem_list = 0, kernel_pagetable = 0, satp = 0,
     disk = demo_disk, disk_blocks = 1000, bufs = bufs demo_fs, sb = demo_sb, icache = icache demo_empty,
     ftable = (\<lambda>_. \<lparr>f_type = FD_NONE, f_ref = 0, f_readable = 0, f_writable = 0, f_ip = None, f_off = 0\<rparr>)
       (0 := \<lparr>f_type = FD_INODE, f_ref = 1, f_readable = 0, f_writable = 1, f_ip = Some 0, f_off = 0\<rparr>)\<rparr>"

theorem filewrite_writes_witness:
  "\<exists>s'. filewrite 0 0x80000000 3 demo_writer = Inr (3, s') \<and> file_bytes s' 0 = [0x41, 0x41, 0x41] \<and> f_off (ftable s' 0) = 3"
proof -
  have sel: "disk demo_writer = disk demo_empty" "disk_blocks demo_writer = disk_blocks demo_empty" "bufs demo_writer = bufs demo_empty"
    "sb demo_writer = sb demo_empty" "icache demo_writer = icache demo_empty" "memory demo_writer = (\<lambda>_. 0x41)"
    by (simp_all add: demo_writer_def demo_empty_def demo_fs_sel)
  have 1: "bcache_ok demo_writer {#}" using demo_empty_facts(1) unfolding bcache_ok_def by (simp add: sel)
  have 2: "Suc (size ({#} :: u32 multiset)) < NBUF" by simp
  have 3: "f_writable (ftable demo_writer 0) \<noteq> 0" "f_ip (ftable demo_writer 0) = Some 0" "0 = unat (f_off (ftable demo_writer 0))"
    by (simp_all add: demo_writer_def)
  have 4: "0 < sint (i_ref (icache demo_writer 0))" "i_valid (icache demo_writer 0) \<noteq> 0" unfolding sel by (simp_all add: demo_empty_def)
  have 5: "writable_file demo_writer 0" "room_for demo_writer 0 0 (unat (3 :: u32))"
    using demo_empty_facts(2,4)
    by (simp_all add: writable_file_def file_ok_def alloc_ok_def foreign_def room_for_def free_count_def sel)
  have 6: "file_bytes demo_writer 0 = []" "(0 :: nat) \<le> unat (i_size (icache demo_writer 0))"
    by (simp_all add: file_bytes_def sel demo_empty_facts(3))
  obtain s' where s': "filewrite 0 0x80000000 3 demo_writer = Inr (3, s')"
    "file_bytes s' 0 = take 0 (file_bytes demo_writer 0) @ map (\<lambda>i. memory demo_writer (0x80000000 + of_nat i)) [0..<unat (3 :: u32)] @ drop (0 + unat (3 :: u32)) (file_bytes demo_writer 0)"
    "ftable s' = (ftable demo_writer)(0 := (ftable demo_writer 0)\<lparr>f_off := f_off (ftable demo_writer 0) + 3\<rparr>)"
    using filewrite_writes [OF 1 2 3(1,2) 4 5(1) 3(3) 6(2) 5(2), of "0x80000000"] by blast
  have "f_off (ftable demo_writer 0) = 0" by (simp add: demo_writer_def)
  then show ?thesis using s' unfolding 6(1) sel(6) by (intro exI [of _ s']) (simp add: upt_rec)
qed

end
