(* ===== verification/Dir_Link.thy ===== *)
theory Dir_Link
  imports Dir File_Roundtrip
begin

text \<open>
  Adding an entry to a directory, \<open>dirlink\<close> of \<open>kernel/fs/fs.c\<close>: the directory is a list of entries,
  \<open>dirlink\<close> inserts into it, and \<open>dirlookup\<close> then finds the new entry and all the old ones.
\<close>

section \<open>The free record\<close>

text \<open>The first record that is not in use, from record \<open>lo\<close> on, or the end of the directory.\<close>

definition unused_record :: "(u32 \<Rightarrow> block) \<Rightarrow> (nat \<Rightarrow> u32) \<Rightarrow> nat \<Rightarrow> nat \<Rightarrow> nat" where
  "unused_record D a lo hi = (case find (\<lambda>k. slot_inum D a k = 0) [lo..<hi] of None \<Rightarrow> hi | Some k \<Rightarrow> k)"

lemma unused_record_step:
  "k < n \<Longrightarrow> unused_record D a k n = (if slot_inum D a k = 0 then k else unused_record D a (k + 1) n)"
  unfolding unused_record_def by (subst upt_conv_Cons) simp_all

lemma unused_record_le: "lo \<le> hi \<Longrightarrow> unused_record D a lo hi \<le> hi"
  unfolding unused_record_def by (auto simp: find_Some_iff split: option.split)

lemma free_slot_from_spec:
  assumes "bcache_ok s H" "size H < NBUF" "dir_ok s dp" "k \<le> unat (i_size (icache s dp)) div 16"
  shows "\<exists>de' s1. cache_step H s s1 \<and> disk s1 = disk s \<and> free_slot_from dp de (of_nat (16 * k)) s =
    Inr (of_nat (16 * unused_record (disk s) (i_addrs (icache s dp)) k (unat (i_size (icache s dp)) div 16)), de', s1)"
  using assms
proof (induction "unat (i_size (icache s dp)) div 16 - k" arbitrary: k de s)
  case 0
  then have k: "k = unat (i_size (icache s dp)) div 16" by simp
  have "16 * k = unat (i_size (icache s dp))" unfolding k using 0(4) by (simp add: dir_ok_def)
  then have "\<not> (of_nat (16 * k) :: u32) < i_size (icache s dp)" by simp
  then have "free_slot_from dp de (of_nat (16 * k)) s = Inr (of_nat (16 * k), de, s)"
    unfolding free_slot_from.simps [of dp de "of_nat (16 * k)" s] by (simp only: if_False)
  moreover have "cache_step H s s" using 0(2) by (simp add: cache_step_def)
  moreover have "unused_record D a k (unat (i_size (icache s dp)) div 16) = k" for D a
    unfolding k unused_record_def by (simp only: upt_conv_Nil order_refl find.simps option.case)
  ultimately show ?case by (intro exI [of _ de] exI [of _ s]) (simp only: simp_thms)
next
  case (Suc m)
  let ?D = "disk s" and ?a = "i_addrs (icache s dp)" and ?n = "unat (i_size (icache s dp)) div 16"
  have k: "k < ?n" using Suc.hyps(2) by simp
  obtain de' s' where r: "readi dp de (of_nat (16 * k)) 16 s = Inr (16, de', s')" "cache_step H s s'" "disk s' = ?D"
    "get_le 2 de' 0 = slot_inum ?D ?a k" "cname (\<lambda>i. de' (2 + i)) = slot_name ?D ?a k"
    "unat (of_nat (16 * k) :: u32) = 16 * k" "(of_nat (16 * k) :: u32) < i_size (icache s dp)"
    by (rule read_slot [OF Suc.prems(1-3) k])
  have "unat (i_size (icache s dp)) \<le> 274432" by (rule dir_ok_size [OF Suc.prems(3)])
  then have no: "\<not> 0x7FFFFFFF - 16 < (of_nat (16 * k) :: u32)" using k unfolding word_less_nat_alt r(6) by simp
  have unf: "free_slot_from dp de (of_nat (16 * k)) s =
      (if slot_inum ?D ?a k = 0 then Inr (of_nat (16 * k), de', s') else free_slot_from dp de' (of_nat (16 * k) + 16) s')"
    unfolding free_slot_from.simps [of dp de "of_nat (16 * k)" s] if_P [OF r(7)] r(1) bindE_Inr prod.case r(4)
      if_not_P [OF no] by (simp only: simp_thms if_False)
  show ?case
  proof (cases "slot_inum ?D ?a k = 0")
    case True
    then show ?thesis unfolding unf unused_record_step [OF k] using r(2,3) by auto
  next
    case False
    have s': "icache s' = icache s" "disk_blocks s' = disk_blocks s" using r(2) by simp_all
    have nx: "of_nat (16 * k) + 16 = (of_nat (16 * (k + 1)) :: u32)" by simp
    have "dir_ok s' dp" using Suc.prems(3) unfolding dir_ok_cong [OF fun_cong [OF s'(1)] r(3) s'(2)] .
    have m: "m = ?n - (k + 1)" "k + 1 \<le> ?n" using Suc.hyps(2) k by simp_all
    obtain de2 s1 where "cache_step H s' s1" "disk s1 = ?D"
      "free_slot_from dp de' (of_nat (16 * (k + 1))) s' = Inr (of_nat (16 * unused_record ?D ?a (k + 1) ?n), de2, s1)"
      using Suc.hyps(1) [of s' "k + 1" de', unfolded s' r(3), OF m(1) cache_step_ok [OF r(2)] Suc.prems(2) \<open>dir_ok s' dp\<close> m(2)]
      by blast
    then show ?thesis
      unfolding unf if_not_P [OF False] nx unused_record_step [OF k] using cache_step_trans [OF r(2)] by blast
  qed
qed

section \<open>The record\<close>

lemma copy_name_app: "copy_name k i nm de x =
    (if \<exists>j < k. x = 2 + i + j \<and> (\<forall>q \<le> j. nm (i + q) \<noteq> 0) then nm (x - 2) else de x)"
proof (induction k arbitrary: i de)
  case (Suc k)
  have e: "(\<exists>j < Suc k. P j) \<longleftrightarrow> P 0 \<or> (\<exists>j < k. P (Suc j))" for P :: "nat \<Rightarrow> bool"
    using less_Suc_eq_0_disj by auto
  have q: "(\<forall>q \<le> Suc j. P q) \<longleftrightarrow> P 0 \<and> (\<forall>q \<le> j. P (Suc q))" for j and P :: "nat \<Rightarrow> bool"
    by (metis Suc_le_mono le0 not0_implies_Suc)
  show ?case
  proof (cases "nm i = 0")
    case True
    then have "\<not> (\<exists>j < Suc k. x = 2 + i + j \<and> (\<forall>q \<le> j. nm (i + q) \<noteq> 0))" by (metis add_0_right le0)
    then show ?thesis using True by (simp only: copy_name.simps if_False) simp
  next
    case False
    then show ?thesis by (auto simp: Suc.IH e q)
  qed
qed simp

text \<open>The name field that \<open>dirlink\<close> fills in holds the name, whatever was in the record.\<close>

lemma copy_name_cname: "cname (\<lambda>i. copy_name DIRSIZ 0 nm (fill_bytes de 2 0 DIRSIZ) (2 + i)) = cname nm"
proof -
  have f: "copy_name DIRSIZ 0 nm (fill_bytes de 2 0 DIRSIZ) (2 + i) = (if \<forall>q \<le> i. nm q \<noteq> 0 then nm i else 0)"
    if "i < DIRSIZ" for i using that by (auto simp: copy_name_app fill_bytes_def)
  let ?g = "\<lambda>i. if \<forall>q \<le> i. nm q \<noteq> 0 then nm i else 0"
  have t: "takeWhile (\<lambda>c. c \<noteq> 0) (map ?g [i..<n]) = takeWhile (\<lambda>c. c \<noteq> 0) (map nm [i..<n])" if "\<forall>q < i. nm q \<noteq> 0" for i n
    using that
  proof (induction "n - i" arbitrary: i)
    case (Suc m)
    then have i: "i < n" by simp
    show ?case
    proof (cases "nm i = 0")
      case True
      then show ?thesis using i by (simp add: upt_conv_Cons)
    next
      case False
      then have "\<forall>q < Suc i. nm q \<noteq> 0" using Suc.prems less_Suc_eq by metis
      then have "\<forall>q \<le> i. nm q \<noteq> 0" "takeWhile (\<lambda>c. c \<noteq> 0) (map ?g [Suc i..<n]) = takeWhile (\<lambda>c. c \<noteq> 0) (map nm [Suc i..<n])"
        using Suc.hyps(1) [of "Suc i"] Suc.hyps(2) by (simp_all add: less_Suc_eq_le)
      then show ?thesis using i False by (simp only: upt_conv_Cons list.map takeWhile.simps if_P simp_thms)
    qed
  qed simp
  have m: "map (\<lambda>i. copy_name DIRSIZ 0 nm (fill_bytes de 2 0 DIRSIZ) (2 + i)) [0..<DIRSIZ] = map ?g [0..<DIRSIZ]"
    by (intro map_cong refl f) simp
  show ?thesis unfolding cname_def m by (rule t) simp
qed

lemma new_record:
  "get_le 2 (put_le 2 d 0 v) 0 = (v :: u16)" "cname (\<lambda>i. put_le 2 d 0 v (2 + i)) = cname (\<lambda>i. d (2 + i))"
  by (simp_all add: get_put_le_same put_le_outside)

section \<open>A directory as a list\<close>

text \<open>The records of a directory as pairs of inode number and name; number 0 is a record not in use.\<close>

definition dir_entries :: "'a fs_scheme \<Rightarrow> nat \<Rightarrow> (u16 \<times> u8 list) list" where
  "dir_entries s dp = map (\<lambda>k. (slot_inum (disk s) (i_addrs (icache s dp)) k, slot_name (disk s) (i_addrs (icache s dp)) k))
     [0..<unat (i_size (icache s dp)) div 16]"

text \<open>What a directory promises: a new entry takes the first free record, or extends the list.\<close>

definition first_free :: "(u16 \<times> u8 list) list \<Rightarrow> nat" where
  "first_free es = length (takeWhile (\<lambda>e. fst e \<noteq> 0) es)"

definition dir_insert :: "u16 \<times> u8 list \<Rightarrow> (u16 \<times> u8 list) list \<Rightarrow> (u16 \<times> u8 list) list" where
  "dir_insert e es = (if first_free es < length es then es[first_free es := e] else es @ [e])"

definition dir_lookup :: "(u16 \<times> u8 list) list \<Rightarrow> u8 list \<Rightarrow> u16 option" where
  "dir_lookup es nm = map_option fst (find (\<lambda>e. fst e \<noteq> 0 \<and> snd e = nm) es)"

lemma find_map: "find P (map f xs) = map_option f (find (\<lambda>x. P (f x)) xs)"
  by (induction xs) simp_all

lemma find_takeWhile: "a \<le> b \<Longrightarrow> (case find (\<lambda>k. \<not> P k) [a..<b] of None \<Rightarrow> b | Some k \<Rightarrow> k) = a + length (takeWhile P [a..<b])"
proof (induction "b - a" arbitrary: a)
  case (Suc m)
  then have a: "a < b" by simp
  have "(case find (\<lambda>k. \<not> P k) [Suc a..<b] of None \<Rightarrow> b | Some k \<Rightarrow> k) = Suc a + length (takeWhile P [Suc a..<b])"
    by (rule Suc.hyps(1)) (use Suc.hyps(2) a in simp_all)
  then show ?case unfolding upt_conv_Cons [OF a] by (cases "P a") (simp_all only: find.simps takeWhile.simps if_True if_False not_True_eq_False not_False_eq_True option.case list.size add_Suc_right add_Suc add_0_right)
qed simp

lemma unused_record_first_free:
  "unused_record (disk s) (i_addrs (icache s dp)) 0 (unat (i_size (icache s dp)) div 16) = first_free (dir_entries s dp)"
  unfolding unused_record_def first_free_def dir_entries_def takeWhile_map length_map comp_def fst_conv
  using find_takeWhile [of 0 "unat (i_size (icache s dp)) div 16" "\<lambda>k. slot_inum (disk s) (i_addrs (icache s dp)) k \<noteq> 0"] by simp

lemma dir_find_lookup:
  "map_option (slot_inum (disk s) (i_addrs (icache s dp)))
     (dir_find (disk s) (i_addrs (icache s dp)) nm 0 (unat (i_size (icache s dp)) div 16)) = dir_lookup (dir_entries s dp) nm"
  unfolding dir_find_def dir_lookup_def dir_entries_def find_map by (simp add: option.map_comp comp_def)

text \<open>The promise is what a map does.\<close>

lemma dir_lookup_insert:
  assumes "i \<noteq> 0" "dir_lookup es nm = None"
  shows "dir_lookup (dir_insert (i, nm) es) nm' = (if nm' = nm then Some i else dir_lookup es nm')"
  using assms(2)
proof (induction es)
  case Nil
  then show ?case using assms(1) by (simp add: dir_insert_def first_free_def dir_lookup_def)
next
  case (Cons e es)
  have n: "\<not> (fst e \<noteq> 0 \<and> snd e = nm)" "dir_lookup es nm = None"
    using Cons.prems by (auto simp: dir_lookup_def split: if_splits)
  show ?case
  proof (cases "fst e = 0")
    case True
    have "dir_insert (i, nm) (e # es) = (i, nm) # es" using True by (simp add: dir_insert_def first_free_def)
    then show ?thesis using True assms(1) by (simp add: dir_lookup_def)
  next
    case False
    have "dir_insert (i, nm) (e # es) = e # dir_insert (i, nm) es" using False by (simp add: dir_insert_def first_free_def)
    then show ?thesis using False n Cons.IH [OF n(2)] by (auto simp: dir_lookup_def)
  qed
qed

section \<open>The effect of dirlink\<close>

lemma cache_step_same:
  assumes "cache_step H s t" "disk t = disk s"
  shows "writable_file t ip = writable_file s ip" "room_for t ip off n = room_for s ip off n" "foreign t ip b = foreign s ip b"
    "dir_ok t ip = dir_ok s ip" "dinode_at t j = dinode_at s j"
  using cache_step_fs [OF assms(1)] assms(2)
  by (simp_all add: writable_file_def file_ok_def alloc_ok_def foreign_def room_for_def free_count_def dir_ok_def
    readable_blocks_def dinode_at_def)

lemma slot_cong:
  assumes "\<And>i. 16 * k \<le> i \<Longrightarrow> i < 16 * k + 16 \<Longrightarrow> f i = g i"
  shows "(get_le 2 f (16 * k) :: u16) = get_le 2 g (16 * k)" "cname (\<lambda>i. f (16 * k + 2 + i)) = cname (\<lambda>i. g (16 * k + 2 + i))"
proof -
  show "(get_le 2 f (16 * k) :: u16) = get_le 2 g (16 * k)" by (rule get_le_cong) (simp add: assms)
  show "cname (\<lambda>i. f (16 * k + 2 + i)) = cname (\<lambda>i. g (16 * k + 2 + i))"
    unfolding cname_def by (intro arg_cong [where f = "takeWhile _"] map_cong refl assms) (auto simp: DIRSIZ_def)
qed

lemma dirlink_ok:
  assumes ok: "bcache_ok s H" "Suc (size H) < NBUF" "writable_file s dp" "16 dvd unat (i_size (icache s dp))"
    and room: "room_for s dp (16 * first_free (dir_entries s dp)) 16"
    and new: "dir_lookup (dir_entries s dp) (cname name) = None"
  obtains s' where "dirlink dp name inum s = Inr (0, s')" "bcache_ok s' H" "writable_file s' dp" "16 dvd unat (i_size (icache s' dp))"
    "i_dev (icache s' dp) = ROOTDEV"
    "dir_entries s' dp = dir_insert (ucast inum, cname name) (dir_entries s dp)" "sb s' = sb s"
    "\<And>b. foreign s dp b \<Longrightarrow> b \<noteq> inode_block (sb s) (i_inum (icache s dp)) \<Longrightarrow> disk s' b = disk s b"
    "\<And>j. j \<noteq> i_inum (icache s dp) \<Longrightarrow> foreign s dp (inode_block (sb s) j) \<Longrightarrow> dinode_at s' j = dinode_at s j"
    "fs_step H s s'"
proof -
  let ?a = "i_addrs (icache s dp)" let ?sz = "unat (i_size (icache s dp))" let ?n = "?sz div 16"
  define j where "j = first_free (dir_entries s dp)"
  have sH: "size H < NBUF" using ok(2) by simp
  have d: "dir_ok s dp" using ok(3,4) writable_readable [OF ok(3)] by (simp add: dir_ok_def writable_file_def file_ok_def)
  obtain s1 where l: "cache_step H s s1" "disk s1 = disk s" "dirlookup dp name s = Inr (None, s1)"
    using dirlookup_spec [OF ok(1) sH d, of name] dir_find_lookup [of s dp "cname name"] new by auto
  have d1: "dir_ok s1 dp" using d cache_step_same(4) [OF l(1,2)] by simp
  obtain de s2 where f: "cache_step H s1 s2" "disk s2 = disk s"
    "free_slot_from dp (\<lambda>_. 0) 0 s1 = Inr (of_nat (16 * j), de, s2)"
    using free_slot_from_spec [OF cache_step_ok [OF l(1)] sH d1, of 0 "\<lambda>_. 0"] l(2) cache_step_fs [OF l(1)]
      unused_record_first_free [of s dp] by (auto simp: j_def)
  note c2 = cache_step_trans [OF l(1) f(1)]
  note same = cache_step_same [OF c2 f(2)] and cf = cache_step_fs [OF c2]
  define rec where "rec = put_le 2 (copy_name DIRSIZ 0 name (fill_bytes de 2 0 DIRSIZ)) 0 (ucast inum :: u16)"
  have jn: "j \<le> ?n" unfolding j_def unused_record_first_free [symmetric] by (rule unused_record_le) simp
  have szb: "16 * ?n = ?sz" using ok(4) by simp
  have szm: "?sz \<le> 274432" using ok(3) by (simp add: writable_file_def)
  have uj: "unat (of_nat (16 * j) :: u32) = 16 * j" using jn szm by (intro unat_of_nat32) simp
  have rm: "room_for s2 dp (unat (of_nat (16 * j) :: u32)) (unat (16 :: u32))"
    using room unfolding uj same(2) j_def [symmetric] by simp
  have le: "unat (of_nat (16 * j) :: u32) \<le> unat (i_size (icache s2 dp))" using jn unfolding uj cf by simp
  have w2: "writable_file s2 dp" using ok(3) same(1) by simp
  obtain s3 where w: "writei dp rec (of_nat (16 * j)) 16 s2 = Inr (16, s3)" "bcache_ok s3 H" "writable_file s3 dp" "i_dev (icache s3 dp) = ROOTDEV"
    "unat (i_size (icache s3 dp)) = max (unat (i_size (icache s2 dp))) (unat (of_nat (16 * j) :: u32) + unat (16 :: u32))"
    "\<And>i. i < 274432 \<Longrightarrow> hbyte (disk s3) (i_addrs (icache s3 dp)) i =
       (if unat (of_nat (16 * j) :: u32) \<le> i \<and> i < unat (of_nat (16 * j) :: u32) + unat (16 :: u32)
        then rec (i - unat (of_nat (16 * j) :: u32)) else hbyte (disk s2) (i_addrs (icache s2 dp)) i)"
    "sb s3 = sb s2" "\<And>b. foreign s2 dp b \<Longrightarrow> foreign s3 dp b"
    "\<And>b. foreign s2 dp b \<Longrightarrow> b \<noteq> inode_block (sb s2) (i_inum (icache s2 dp)) \<Longrightarrow> disk s3 b = disk s2 b"
    "\<And>k. k \<noteq> i_inum (icache s2 dp) \<Longrightarrow> foreign s2 dp (inode_block (sb s2) k) \<Longrightarrow> dinode_at s3 k = dinode_at s2 k" "fs_step H s2 s3"
    by (rule writei_ok [OF cache_step_ok [OF c2] ok(2) w2 le rm, where src = rec], rule that)
  have sz3: "unat (i_size (icache s3 dp)) = max ?sz (16 * j + 16)" using w(5) uj cf by simp
  have fits: "16 * j + 16 \<le> 274432" using room by (simp add: room_for_def j_def)
  let ?a3 = "i_addrs (icache s3 dp)"
  have byte: "fbyte (disk s3) ?a3 i = (if 16 * j \<le> i \<and> i < 16 * j + 16 then rec (i - 16 * j) else fbyte (disk s) ?a i)"
    if i: "i < max ?sz (16 * j + 16)" for i
  proof -
    have "fblock (disk s3) ?a3 (i div 1024) \<noteq> 0" using w(3) i sz3 by (simp add: writable_file_def)
    moreover have "fblock (disk s) ?a (i div 1024) \<noteq> 0" if "i < ?sz" using ok(3) that by (simp add: writable_file_def)
    moreover have "i < 274432" using i szm fits by linarith
    moreover have "i < ?sz" if "\<not> (16 * j \<le> i \<and> i < 16 * j + 16)" using i that jn szb by linarith
    ultimately show ?thesis using w(6) [of i] uj f(2) cf by (simp add: hbyte_fbyte)
  qed
  have n3: "max ?sz (16 * j + 16) div 16 = max ?n (j + 1)" using szb by (simp add: max_def)
  have slot: "(slot_inum (disk s3) ?a3 k, slot_name (disk s3) ?a3 k) =
      (if k = j then (ucast inum, cname name) else (slot_inum (disk s) ?a k, slot_name (disk s) ?a k))" if k: "k < max ?n (j + 1)" for k
  proof (cases "k = j")
    case True
    have b: "fbyte (disk s3) ?a3 i = rec (i - 16 * j)" if "16 * j \<le> i" "i < 16 * j + 16" for i
      using byte [of i] that by simp
    note sc = slot_cong [where f = "fbyte (disk s3) ?a3" and g = "\<lambda>i. rec (i - 16 * j)" and k = j, OF b]
    have "(get_le 2 (\<lambda>i. rec (i - 16 * j)) (16 * j) :: u16) = get_le 2 rec 0"
      unfolding get_le_def by (rule of_le_cong) simp
    then have "slot_inum (disk s3) ?a3 j = ucast inum"
      unfolding slot_inum_def using sc(1) new_record(1) by (simp add: rec_def)
    moreover have "slot_name (disk s3) ?a3 j = cname name"
      unfolding slot_name_def using sc(2) new_record(2) copy_name_cname by (simp add: rec_def)
    ultimately show ?thesis using True by simp
  next
    case False
    then have kn: "k < ?n" using k jn by linarith
    have b: "fbyte (disk s3) ?a3 i = fbyte (disk s) ?a i" if "16 * k \<le> i" "i < 16 * k + 16" for i
    proof -
      have "i < ?sz" using that kn szb by linarith
      moreover have "\<not> (16 * j \<le> i \<and> i < 16 * j + 16)" using that False by linarith
      ultimately show ?thesis using byte [of i] by (simp only: if_False less_max_iff_disj simp_thms)
    qed
    show ?thesis using False slot_cong [where f = "fbyte (disk s3) ?a3" and g = "fbyte (disk s) ?a" and k = k, OF b]
      by (simp add: slot_inum_def slot_name_def)
  qed
  have ent: "dir_entries s3 dp = dir_insert (ucast inum, cname name) (dir_entries s dp)"
  proof (rule nth_equalityI)
    have lj: "length (dir_entries s dp) = ?n" by (simp add: dir_entries_def)
    have en: "dir_entries s dp ! k = (slot_inum (disk s) ?a k, slot_name (disk s) ?a k)" if "k < ?n" for k
      using that by (simp only: dir_entries_def nth_map_upt add_0 diff_zero)
    have l3: "length (dir_entries s3 dp) = max ?n (j + 1)" by (simp only: dir_entries_def sz3 n3 length_map length_upt diff_zero)
    show "length (dir_entries s3 dp) = length (dir_insert (ucast inum, cname name) (dir_entries s dp))"
      unfolding l3 dir_insert_def using lj jn by (simp add: j_def [symmetric])
    fix k assume "k < length (dir_entries s3 dp)"
    then have k: "k < max ?n (j + 1)" unfolding l3 .
    have "dir_entries s3 dp ! k = (if k = j then (ucast inum, cname name) else (slot_inum (disk s) ?a k, slot_name (disk s) ?a k))"
      unfolding slot [OF k, symmetric] using k by (simp only: dir_entries_def sz3 n3 nth_map_upt add_0 diff_zero)
    moreover have "dir_insert (ucast inum, cname name) (dir_entries s dp) ! k =
        (if k = j then (ucast inum, cname name) else (slot_inum (disk s) ?a k, slot_name (disk s) ?a k))"
    proof (cases "j < ?n")
      case True
      have "dir_insert (ucast inum, cname name) (dir_entries s dp) = (dir_entries s dp)[j := (ucast inum, cname name)]"
        using True by (simp only: dir_insert_def lj j_def [symmetric] if_True)
      moreover have "k < ?n" using k True by simp
      moreover have "(dir_entries s dp)[j := (ucast inum, cname name)] ! k = (if j = k then (ucast inum, cname name) else dir_entries s dp ! k)"
        by (rule nth_list_update) (use True lj in simp)
      ultimately show ?thesis using en [of k] by (cases "j = k") (simp_all only: if_True if_False refl eq_sym_conv)
    next
      case False
      then have j: "j = ?n" using jn by simp
      have "dir_insert (ucast inum, cname name) (dir_entries s dp) = dir_entries s dp @ [(ucast inum, cname name)]"
        using False by (simp only: dir_insert_def lj j_def [symmetric] if_False)
      moreover have "k = j \<or> k < ?n" using k j by linarith
      ultimately show ?thesis using j lj en [of k] by (elim disjE) (simp_all only: nth_append nth_append_length less_irrefl if_True if_False, simp_all)
    qed
    ultimately show "dir_entries s3 dp ! k = dir_insert (ucast inum, cname name) (dir_entries s dp) ! k" by simp
  qed
  have r: "dirlink dp name inum s = Inr (0, s3)"
    using l(3) f(3) w(1) by (simp add: dirlink_def Let_def rec_def)
  show thesis
  proof (rule that [OF r w(2,3) _ w(4) ent])
    show "16 dvd unat (i_size (icache s3 dp))" unfolding sz3 using ok(4) by (simp add: max_def)
    show "sb s3 = sb s" using w(7) cf by simp
    show "disk s3 b = disk s b" if "foreign s dp b" "b \<noteq> inode_block (sb s) (i_inum (icache s dp))" for b
      using w(9) [of b] that same(3) cf f(2) by simp
    show "dinode_at s3 k = dinode_at s k" if "k \<noteq> i_inum (icache s dp)" "foreign s dp (inode_block (sb s) k)" for k
      using w(10) [of k] that same(3,5) cf by simp
    show "fs_step H s s3" by (rule fs_step_trans [OF cache_step_fs_step [OF c2] w(11)])
  qed
qed

section \<open>Properties\<close>

text \<open>
  C7: \<open>dirlink\<close> implements insertion into a list: with room on the disk and the name not yet in the
  directory, it returns 0 and the entries of the directory are the old ones with the new one in the
  first free record, or at the end.  The directory stays well formed, and no block or inode of
  anybody else changes.
\<close>

theorem dirlink_inserts:
  assumes "bcache_ok s H" and "Suc (size H) < NBUF" and "writable_file s dp" and "16 dvd unat (i_size (icache s dp))"
    and "room_for s dp (16 * first_free (dir_entries s dp)) 16" and "dir_lookup (dir_entries s dp) (cname name) = None"
  shows "\<exists>s'. dirlink dp name inum s = Inr (0, s') \<and> bcache_ok s' H \<and> writable_file s' dp \<and> 16 dvd unat (i_size (icache s' dp)) \<and>
    dir_entries s' dp = dir_insert (ucast inum, cname name) (dir_entries s dp) \<and>
    (\<forall>b. foreign s dp b \<longrightarrow> b \<noteq> inode_block (sb s) (i_inum (icache s dp)) \<longrightarrow> disk s' b = disk s b) \<and>
    (\<forall>j. j \<noteq> i_inum (icache s dp) \<longrightarrow> foreign s dp (inode_block (sb s) j) \<longrightarrow> dinode_at s' j = dinode_at s j)"
proof -
  obtain s' where d: "dirlink dp name inum s = Inr (0, s')" "bcache_ok s' H" "writable_file s' dp" "16 dvd unat (i_size (icache s' dp))"
    "dir_entries s' dp = dir_insert (ucast inum, cname name) (dir_entries s dp)"
    "\<And>b. foreign s dp b \<Longrightarrow> b \<noteq> inode_block (sb s) (i_inum (icache s dp)) \<Longrightarrow> disk s' b = disk s b"
    "\<And>j. j \<noteq> i_inum (icache s dp) \<Longrightarrow> foreign s dp (inode_block (sb s) j) \<Longrightarrow> dinode_at s' j = dinode_at s j"
    by (rule dirlink_ok [OF assms, where inum = inum], rule that)
  then show ?thesis by (intro exI [of _ s'] conjI allI impI)
qed

text \<open>The root directory of the demonstration disk: one entry, and room for another.\<close>

lemma demo_dir_writable: "writable_file demo_dir 0"
proof -
  have sel: "disk demo_dir = demo_disk" "sb demo_dir = demo_sb" "disk_blocks demo_dir = 1000"
    "i_addrs (icache demo_dir 0) = (\<lambda>_. 0)(0 := 4)" "i_dev (icache demo_dir 0) = ROOTDEV" "i_inum (icache demo_dir 0) = 1"
    "i_size (icache demo_dir 0) = 16"
    by (simp_all add: demo_dir_def demo_fs_sel)
  have fb: "fblock D ((\<lambda>_. 0)(0 := 4)) j = (if j = 0 then 4 else 0)" for D j by (simp add: fblock_def NDIRECT_def)
  have r: "refs D ((\<lambda>_. 0)(0 := 4)) b \<longleftrightarrow> b = 4" for D b
    unfolding refs_def fb by (auto simp: NDIRECT_def)
  have d0: "x div 8192 = 0" if "unat x < 1000" for x :: u32
    using that by (intro unat_eqD) (simp add: unat_div32)
  have bb: "\<not> bitmap_block 2 1000 3" "\<not> bitmap_block 2 1000 4" using d0 by (auto simp: bitmap_block_def)
  have ao: "alloc_ok demo_dir" using demo_alloc_ok by (simp add: alloc_ok_def sel demo_fs_sel)
  have "file_ok demo_dir 0"
    unfolding file_ok_def file_wf_def sel r fb using ao bb demo_used [of 0] demo_used [of 4]
    by (simp add: demo_fs_sel NDIRECT_def)
  moreover have "foreign demo_dir 0 (inode_block (sb demo_dir) (i_inum (icache demo_dir 0)))"
    unfolding foreign_def sel r using demo_used [of 3] bb by (simp add: demo_fs_sel inode_block_def)
  ultimately show ?thesis unfolding writable_file_def sel fb by simp
qed

lemma demo_dir_entries: "dir_entries demo_dir 0 = [(2, [0x61])]"
proof -
  have sel: "disk demo_dir = demo_disk" "i_addrs (icache demo_dir 0) = (\<lambda>_. 0)(0 := 4)" "i_size (icache demo_dir 0) = 16"
    by (simp_all add: demo_dir_def demo_fs_sel)
  have b: "fbyte demo_disk ((\<lambda>_. 0)(0 := 4)) i = put_le 2 ((\<lambda>_. 0)(2 := 0x61)) 0 (2 :: u16) i" if "i < 16" for i
    using that by (simp add: fbyte_def fblock_def NDIRECT_def demo_disk_def)
  have "slot_inum demo_disk ((\<lambda>_. 0)(0 := 4)) 0 = get_le 2 (put_le 2 ((\<lambda>_. 0)(2 := 0x61)) 0 (2 :: u16)) 0"
    unfolding slot_inum_def mult_0_right by (rule get_le_cong) (simp add: b)
  moreover have "slot_name demo_disk ((\<lambda>_. 0)(0 := 4)) 0 = cname (\<lambda>i. ((\<lambda>_. 0)(2 := 0x61)) (2 + i))"
    unfolding slot_name_def cname_def mult_0_right
    by (intro arg_cong [where f = "takeWhile _"] map_cong refl) (simp add: b DIRSIZ_def put_le_outside)
  moreover have "cname (\<lambda>i. ((\<lambda>_. 0)(2 := 0x61)) (2 + i)) = [0x61]"
    unfolding cname_def by (simp add: DIRSIZ_def upt_rec [of 0] upt_rec [of "Suc 0"])
  ultimately show ?thesis by (simp add: dir_entries_def sel get_put_le_same)
qed

lemma demo_dir_link:
  "Suc (size ({#} :: u32 multiset)) < NBUF" "16 dvd unat (i_size (icache demo_dir 0))"
  "room_for demo_dir 0 (16 * first_free (dir_entries demo_dir 0)) 16"
  "dir_lookup (dir_entries demo_dir 0) (cname ((\<lambda>_. 0)(0 := 0x62))) = None" "cname ((\<lambda>_. 0)(0 := 0x62)) = [0x62]"
proof -
  show c: "cname ((\<lambda>_. 0)(0 := 0x62)) = [0x62]"
    unfolding cname_def by (simp add: DIRSIZ_def upt_rec [of 0] upt_rec [of "Suc 0"])
  show "Suc (size ({#} :: u32 multiset)) < NBUF" by simp
  show "16 dvd unat (i_size (icache demo_dir 0))" by (simp add: demo_dir_facts)
  show "dir_lookup (dir_entries demo_dir 0) (cname ((\<lambda>_. 0)(0 := 0x62))) = None"
    unfolding c demo_dir_entries by (simp add: dir_lookup_def)
  have "card {5, 6 :: u32} \<le> free_count demo_dir"
    unfolding free_count_def using demo_used [of 5] demo_used [of 6]
    by (intro card_mono) (simp_all add: free_set_def demo_dir_def demo_fs_sel)
  then show "room_for demo_dir 0 (16 * first_free (dir_entries demo_dir 0)) 16"
    unfolding demo_dir_entries by (simp add: room_for_def blocks_touched_def first_free_def)
qed

theorem dirlink_inserts_witness:
  "\<exists>s'. dirlink 0 ((\<lambda>_. 0)(0 := 0x62)) 3 demo_dir = Inr (0, s') \<and> dir_entries s' 0 = [(2, [0x61]), (3, [0x62])]"
  using dirlink_inserts [OF demo_dir_facts(1) demo_dir_link(1) demo_dir_writable demo_dir_link(2-4), of 3]
  unfolding demo_dir_entries demo_dir_link(5) by (auto simp: dir_insert_def first_free_def)

text \<open>
  C32: After a \<open>dirlink\<close> that succeeds, \<open>dirlookup\<close> of any name gets the inode of the new entry if it is the
  new name, the inode it would have got before if it is another name that was there, and the null
  pointer otherwise; a second \<open>dirlink\<close> of the name is refused with -1 and leaves the disk as it is.
\<close>

theorem dirlink_dirlookup:
  assumes "bcache_ok s H" and "Suc (size H) < NBUF" and "writable_file s dp" and "16 dvd unat (i_size (icache s dp))"
    and "room_for s dp (16 * first_free (dir_entries s dp)) 16" and "dir_lookup (dir_entries s dp) (cname name) = None"
    and "(ucast inum :: u16) \<noteq> 0" and "found = (dir_lookup (dir_entries s dp))(cname name := Some (ucast inum))"
  shows "\<exists>s'. dirlink dp name inum s = Inr (0, s') \<and>
    (\<forall>nm. \<exists>t. bcache_ok t H \<and> icache t = icache s' \<and> disk t = disk s' \<and>
       (case found (cname nm) of
          None \<Rightarrow> dirlookup dp nm s' = Inr (None, t)
        | Some i \<Rightarrow> \<exists>off. dirlookup dp nm s' = bindE (iget ROOTDEV (ucast i) t) (\<lambda>(ip, u). Inr (Some (ip, off), u)))) \<and>
    (\<exists>t. disk t = disk s' \<and> icache t = icache s' \<and>
       (\<forall>j. dirlink dp name j s' = bindE (iget ROOTDEV (ucast (ucast inum :: u16)) t) (\<lambda>(ip, u). Inr (-1, iput ip u))))"
proof -
  obtain s' where d: "dirlink dp name inum s = Inr (0, s')" "bcache_ok s' H" "writable_file s' dp" "16 dvd unat (i_size (icache s' dp))"
    "i_dev (icache s' dp) = ROOTDEV" "dir_entries s' dp = dir_insert (ucast inum, cname name) (dir_entries s dp)"
    by (rule dirlink_ok [OF assms(1-6), where inum = inum], rule that)
  have ok: "dir_ok s' dp" using d(3-5) writable_readable [OF d(3)] by (simp add: dir_ok_def)
  have sH: "size H < NBUF" using assms(2) by simp
  have fd: "dir_lookup (dir_entries s' dp) nm = found nm" for nm
    unfolding d(6) dir_lookup_insert [OF assms(7,6)] assms(8) by simp
  have l: "\<exists>t. cache_step H s' t \<and> disk t = disk s' \<and> (case found (cname nm) of
      None \<Rightarrow> dirlookup dp nm s' = Inr (None, t)
    | Some i \<Rightarrow> \<exists>off. dirlookup dp nm s' = bindE (iget ROOTDEV (ucast i) t) (\<lambda>(ip, u). Inr (Some (ip, off), u)))" for nm
  proof -
    let ?f = "dir_find (disk s') (i_addrs (icache s' dp)) (cname nm) 0 (unat (i_size (icache s' dp)) div 16)"
    have e: "found (cname nm) = map_option (slot_inum (disk s') (i_addrs (icache s' dp))) ?f"
      using dir_find_lookup [of s' dp "cname nm"] unfolding fd by simp
    obtain t where "cache_step H s' t" "disk t = disk s'" "dirlookup dp nm s' = (case ?f of None \<Rightarrow> Inr (None, t)
        | Some j \<Rightarrow> bindE (iget ROOTDEV (ucast (slot_inum (disk s') (i_addrs (icache s' dp)) j)) t)
            (\<lambda>(ip, s2). Inr (Some (ip, of_nat (16 * j)), s2)))"
      using dirlookup_spec [OF d(2) sH ok, of nm] by blast
    then show ?thesis unfolding e by (cases ?f) (simp_all only: option.case option.map, blast+)
  qed
  have a: "\<forall>nm. \<exists>t. bcache_ok t H \<and> icache t = icache s' \<and> disk t = disk s' \<and>
       (case found (cname nm) of
          None \<Rightarrow> dirlookup dp nm s' = Inr (None, t)
        | Some i \<Rightarrow> \<exists>off. dirlookup dp nm s' = bindE (iget ROOTDEV (ucast i) t) (\<lambda>(ip, u). Inr (Some (ip, off), u)))"
    using l cache_step_ok cache_step_fs(2) by blast
  have b: "\<exists>t. disk t = disk s' \<and> icache t = icache s' \<and>
       (\<forall>j. dirlink dp name j s' = bindE (iget ROOTDEV (ucast (ucast inum :: u16)) t) (\<lambda>(ip, u). Inr (-1, iput ip u)))"
  proof -
    obtain t off where "cache_step H s' t" "disk t = disk s'"
      "dirlookup dp name s' = bindE (iget ROOTDEV (ucast (ucast inum :: u16)) t) (\<lambda>(ip, u). Inr (Some (ip, off), u))"
      using l [of name] unfolding assms(8) fun_upd_same option.case by blast
    then show ?thesis
      by (intro exI [of _ t]) (simp add: dirlink_def bindE_assoc split_def)
  qed
  show ?thesis by (rule exI [of _ s'], intro conjI d(1) a b)
qed

theorem dirlink_dirlookup_witness:
  "\<exists>s' t. dirlink 0 ((\<lambda>_. 0)(0 := 0x62)) 3 demo_dir = Inr (0, s') \<and> bcache_ok t {#} \<and> disk t = disk s' \<and>
     (\<exists>off. dirlookup 0 ((\<lambda>_. 0)(0 := 0x61)) s' = bindE (iget ROOTDEV 2 t) (\<lambda>(ip, u). Inr (Some (ip, off), u)))"
proof -
  have a: "cname ((\<lambda>_. 0)(0 := 0x61)) = [0x61]"
    unfolding cname_def by (simp add: DIRSIZ_def upt_rec [of 0] upt_rec [of "Suc 0"])
  have i: "(ucast (3 :: u32) :: u16) \<noteq> 0" by simp
  obtain s' where s': "dirlink 0 ((\<lambda>_. 0)(0 := 0x62)) 3 demo_dir = Inr (0, s')"
    "\<forall>nm. \<exists>t. bcache_ok t {#} \<and> icache t = icache s' \<and> disk t = disk s' \<and>
       (case ((dir_lookup (dir_entries demo_dir 0))(cname ((\<lambda>_. 0)(0 := 0x62)) := Some (ucast (3 :: u32)))) (cname nm) of
          None \<Rightarrow> dirlookup 0 nm s' = Inr (None, t)
        | Some i \<Rightarrow> \<exists>off. dirlookup 0 nm s' = bindE (iget ROOTDEV (ucast i) t) (\<lambda>(ip, u). Inr (Some (ip, off), u)))"
    using dirlink_dirlookup [OF demo_dir_facts(1) demo_dir_link(1) demo_dir_writable demo_dir_link(2-4) i refl] by blast
  show ?thesis
    using s'(1) spec [OF s'(2), of "(\<lambda>_. 0)(0 := 0x61)"]
    unfolding a demo_dir_link(5) demo_dir_entries by (auto simp: dir_lookup_def)
qed

end
