(* ===== verification/Syscall.thy ===== *)
theory Syscall
  imports Sched
begin

text \<open>
  System calls: arguments and dispatch (\<open>kernel/syscall/syscall.c\<close>), the process calls
  (\<open>sysproc.c\<close>) and the file calls (\<open>sysfile.c\<close>).  A call ends with the value it returns, or with
  \<open>None\<close> when the process gives up the CPU inside it (\<open>exit\<close>, or \<open>wait\<close> going to sleep).
  Addresses a user passes are used as they are, as in the code.
\<close>

section \<open>Arguments\<close>

definition tf_load :: "nat \<Rightarrow> nat \<Rightarrow> 'a procs_scheme \<Rightarrow> u64" where
  "tf_load p i s = load64 (memory s) (entry (p_trapframe (proc s p)) i)"

definition tf_store :: "nat \<Rightarrow> nat \<Rightarrow> u64 \<Rightarrow> 'a procs_scheme \<Rightarrow> 'a procs_scheme" where
  "tf_store p i v s = s\<lparr>memory := store64 (memory s) (entry (p_trapframe (proc s p)) i) v\<rparr>"

definition argraw :: "nat \<Rightarrow> 'a procs_scheme \<Rightarrow> u64 res" where
  "argraw n = running (\<lambda>p s.
     if n \<le> 5 then Inr (tf_load p (TF_a0 + n) s) else Inl (Panic ''argraw: invalid argument index''))"

definition argint :: "nat \<Rightarrow> 'a procs_scheme \<Rightarrow> i32 res" where
  "argint n s = bindE (argraw n s) (\<lambda>v. Inr (ucast v))"

definition argaddr :: "nat \<Rightarrow> 'a procs_scheme \<Rightarrow> u64 res" where
  "argaddr n s = argraw n s"

text \<open>The copying loop of \<open>argstr\<close> with room for \<open>k\<close> more characters before the last one.\<close>

primrec copy_str :: "nat \<Rightarrow> nat \<Rightarrow> u64 \<Rightarrow> mem \<Rightarrow> block \<Rightarrow> nat \<times> block" where
  "copy_str 0 i src m buf = (i, buf(i := 0))"
| "copy_str (Suc k) i src m buf =
     (let c = m (src + of_nat i); buf1 = buf(i := c) in
      if c = 0 then (i, buf1) else copy_str k (i + 1) src m buf1)"

definition argstr :: "nat \<Rightarrow> nat \<Rightarrow> 'a procs_scheme \<Rightarrow> (nat \<times> block) res" where
  "argstr n maxlen s = bindE (argaddr n s) (\<lambda>addr. Inr (copy_str (maxlen - 1) 0 addr (memory s) (\<lambda>_. 0)))"

text \<open>The string in a buffer of \<open>maxlen\<close> bytes.\<close>

definition cstring :: "nat \<Rightarrow> block \<Rightarrow> u8 list" where
  "cstring maxlen buf = takeWhile (\<lambda>c. c \<noteq> 0) (map buf [0..<maxlen])"

section \<open>Process calls\<close>

type_synonym 'a sys = "'a procs_scheme \<Rightarrow> (u64 option \<times> 'a procs_scheme) res"

text \<open>An \<open>int\<close> is returned as a \<open>uint64\<close>, sign extended.\<close>

definition sys_getpid :: "'a sys" where
  "sys_getpid = running (\<lambda>p s. Inr (Some (scast (p_pid (proc s p))), s))"

definition sys_exit :: "'a sys" where
  "sys_exit s = bindE (argint 0 s) (\<lambda>n. bindE (exit n s) (\<lambda>s1. Inr (None, s1)))"

definition sys_fork :: "symbols \<Rightarrow> 'a sys" where
  "sys_fork lk s = bindE (fork lk s) (\<lambda>(r, s1). Inr (Some (scast r), s1))"

definition sys_wait :: "symbols \<Rightarrow> 'a sys" where
  "sys_wait lk s = bindE (argaddr 0 s) (\<lambda>p. bindE (wait lk p s) (\<lambda>(r, s1). Inr (map_option scast r, s1)))"

definition sys_sbrk :: "'a sys" where
  "sys_sbrk s = Inr (Some (-1), s)"

section \<open>File calls\<close>

definition O_RDONLY :: i32 where "O_RDONLY = 0"
definition O_WRONLY :: i32 where "O_WRONLY = 1"
definition O_RDWR :: i32 where "O_RDWR = 2"
definition O_CREAT :: i32 where "O_CREAT = 0x200"
definition T_DEVICE :: u16 where "T_DEVICE = 3"

text \<open>The part of \<open>sys_open\<close> that finds or creates the file; \<open>None\<close> is an early \<open>return -1\<close>.\<close>

definition open_create :: "u8 list \<Rightarrow> 'a procs_scheme \<Rightarrow> (nat option \<times> 'a procs_scheme) res" where
  "open_create path s =
     bindE (nameiparent path (\<lambda>_. 0) s) (\<lambda>(ipo, name, s1).
     case ipo of
       None \<Rightarrow> Inr (None, s1)
     | Some ip \<Rightarrow>
         bindE (ilock (Some ip) s1) (\<lambda>s2.
         bindE (dirlookup ip name s2) (\<lambda>(found, s3).
         case found of
           Some (next, _) \<Rightarrow>
             bindE (iunlock (Some ip) s3) (\<lambda>s4.
             bindE (ilock (Some next) (iput ip s4)) (\<lambda>s5.
             if i_type (icache s5 next) = T_DIR \<or> i_type (icache s5 next) = T_DEVICE then
               bindE (iunlock (Some next) s5) (\<lambda>s6. Inr (None, iput next s6))
             else Inr (Some next, s5)))
         | None \<Rightarrow>
             bindE (ialloc (i_dev (icache s3 ip)) T_FILE s3) (\<lambda>(next, s4).
             bindE (dirlink ip name (i_inum (icache s4 next)) s4) (\<lambda>(r, s5).
             if sint r < 0 then Inl (Panic ''sys_open: dirlink'')
             else
               bindE (iunlock (Some ip) s5) (\<lambda>s6.
               bindE (ilock (Some next) (iput ip s6)) (\<lambda>s7. Inr (Some next, s7))))))))"

definition open_existing :: "u8 list \<Rightarrow> i32 \<Rightarrow> 'a procs_scheme \<Rightarrow> (nat option \<times> 'a procs_scheme) res" where
  "open_existing path omode s =
     bindE (namei path s) (\<lambda>(ipo, s1).
     case ipo of
       None \<Rightarrow> Inr (None, s1)
     | Some ip \<Rightarrow>
         bindE (ilock (Some ip) s1) (\<lambda>s2.
         if i_type (icache s2 ip) = T_DIR \<and> omode \<noteq> O_RDONLY then
           bindE (iunlock (Some ip) s2) (\<lambda>s3. Inr (None, iput ip s3))
         else Inr (Some ip, s2)))"

text \<open>The part of \<open>sys_open\<close> that sets up the file and the descriptor.\<close>

definition open_fd :: "nat \<Rightarrow> nat \<Rightarrow> i32 \<Rightarrow> 'a procs_scheme \<Rightarrow> (u64 option \<times> 'a procs_scheme) res" where
  "open_fd p ip omode s =
     (case filealloc s of
        (None, s1) \<Rightarrow> bindE (iunlock (Some ip) s1) (\<lambda>s2. Inr (Some (-1), iput ip s2))
      | (Some f, s1) \<Rightarrow>
          case find (\<lambda>i. p_ofile (proc s1 p) i = None) [0..<NOFILE] of
            None \<Rightarrow>
              bindE (fileclose f s1) (\<lambda>s2. bindE (iunlock (Some ip) s2) (\<lambda>s3. Inr (Some (-1), iput ip s3)))
          | Some fd \<Rightarrow>
              let s2 = upd_proc p (\<lambda>x. x\<lparr>p_ofile := (p_ofile x)(fd := Some f)\<rparr>) s1;
                  s3 = upd_file f (\<lambda>x. x\<lparr>f_type := FD_INODE, f_ip := Some ip, f_off := 0,
                    f_readable := (if omode AND O_WRONLY = 0 then 1 else 0),
                    f_writable := (if omode AND O_WRONLY \<noteq> 0 \<or> omode AND O_RDWR \<noteq> 0 then 1 else 0)\<rparr>) s2
              in bindE (iunlock (Some ip) s3) (\<lambda>s4. Inr (Some (of_nat fd), s4)))"

definition sys_open :: "'a sys" where
  "sys_open = running (\<lambda>p s.
     bindE (argstr 0 MAXPATH s) (\<lambda>(_, buf).
     bindE (argint 1 s) (\<lambda>omode.
     let path = cstring MAXPATH buf in
     bindE (if omode AND O_CREAT \<noteq> 0 then open_create path s else open_existing path omode s) (\<lambda>(ipo, s1).
     case ipo of None \<Rightarrow> Inr (Some (-1), s1) | Some ip \<Rightarrow> open_fd p ip omode s1))))"

text \<open>The file a descriptor stands for, when it is one.\<close>

definition fd_file :: "nat \<Rightarrow> i32 \<Rightarrow> 'a procs_scheme \<Rightarrow> nat option" where
  "fd_file p fd s =
     (if sint fd < 0 \<or> int NOFILE \<le> sint fd then None else p_ofile (proc s p) (nat (sint fd)))"

definition sys_read :: "'a sys" where
  "sys_read = running (\<lambda>p s.
     bindE (argint 0 s) (\<lambda>fd. bindE (argaddr 1 s) (\<lambda>addr. bindE (argint 2 s) (\<lambda>n.
     case fd_file p fd s of
       None \<Rightarrow> Inr (Some (-1), s)
     | Some f \<Rightarrow> bindE (fileread f addr n s) (\<lambda>(r, s1). Inr (Some (scast r), s1))))))"

primrec console_loop :: "nat \<Rightarrow> nat \<Rightarrow> u64 \<Rightarrow> 'a procs_scheme \<Rightarrow> 'a procs_scheme" where
  "console_loop 0 i src s = s"
| "console_loop (Suc k) i src s = console_loop k (i + 1) src (uart_putc (memory s (src + of_nat i)) s)"

definition consolewrite :: "u64 \<Rightarrow> i32 \<Rightarrow> 'a procs_scheme \<Rightarrow> i32 \<times> 'a procs_scheme" where
  "consolewrite src n s = (n, console_loop (nat (sint n)) 0 src s)"

definition sys_write :: "'a sys" where
  "sys_write = running (\<lambda>p s.
     bindE (argint 0 s) (\<lambda>fd. bindE (argaddr 1 s) (\<lambda>addr. bindE (argint 2 s) (\<lambda>n.
     if fd = 1 \<and> p_ofile (proc s p) 1 = None then
       (let (r, s1) = consolewrite addr n s in Inr (Some (scast r), s1))
     else case fd_file p fd s of
       None \<Rightarrow> Inr (Some (-1), s)
     | Some f \<Rightarrow> bindE (filewrite f addr n s) (\<lambda>(r, s1). Inr (Some (scast r), s1))))))"

definition sys_close :: "'a sys" where
  "sys_close = running (\<lambda>p s.
     bindE (argint 0 s) (\<lambda>fd.
     case fd_file p fd s of
       None \<Rightarrow> Inr (Some (-1), s)
     | Some f \<Rightarrow> bindE (fileclose f s) (\<lambda>s1.
         Inr (Some 0, upd_proc p (\<lambda>x. x\<lparr>p_ofile := (p_ofile x)(nat (sint fd) := None)\<rparr>) s1))))"

section \<open>Dispatch\<close>

text \<open>The table of system calls; the numbers it leaves out are null pointers.\<close>

definition syscalls :: "symbols \<Rightarrow> int \<Rightarrow> 'a sys option" where
  "syscalls lk num =
     (if num = 1 then Some (sys_fork lk)
      else if num = 2 then Some sys_exit
      else if num = 3 then Some (sys_wait lk)
      else if num = 11 then Some sys_getpid
      else if num = 12 then Some sys_sbrk
      else if num = 13 then Some sys_read
      else if num = 15 then Some sys_open
      else if num = 16 then Some sys_write
      else if num = 17 then Some sys_close
      else None)"

text \<open>The result is whether the call returned.\<close>

definition syscall :: "symbols \<Rightarrow> 'a procs_scheme \<Rightarrow> (bool \<times> 'a procs_scheme) res" where
  "syscall lk = running (\<lambda>p s.
     let num = ucast (tf_load p TF_a7 s) :: i32 in
     case (if 0 < sint num \<and> sint num < 18 then syscalls lk (sint num) else None) of
       Some call \<Rightarrow> bindE (call s) (\<lambda>(r, s1).
         case r of None \<Rightarrow> Inr (False, s1) | Some v \<Rightarrow> Inr (True, tf_store p TF_a0 v s1))
     | None \<Rightarrow>
         bindE (printf (Some (ascii ''syscall: unknown syscall num=%d pid=%d'' @ [0x0a]))
           [VInt num, VInt (p_pid (proc s p))] s) (\<lambda>s1. Inr (True, tf_store p TF_a0 (-1) s1)))"

end
