(* ===== verification/Proc_Pages.thy ===== *)
theory Proc_Pages
  imports Syscall
begin

text \<open>
  The pages of a process (\<open>fork\<close> and \<open>wait\<close> of \<open>kernel/proc/proc.c\<close>): a child takes two pages from the
  allocator, for its trap frame and its kernel stack, and \<open>wait\<close> gives them back.
\<close>

section \<open>Copying a trap frame\<close>

lemma load64_page_store:
  assumes "page_aligned t" "page_aligned u" "i < 512" "j < 512"
  shows "load64 (store64 m (entry t i) v) (entry u j) = (if t = u \<and> i = j then v else load64 m (entry u j))"
  using load64_entry_other [OF assms] by auto

lemma copy_words:
  fixes m :: mem
  assumes "page_aligned dst" "page_aligned src" "dst \<noteq> src" "n \<le> 512"
  defines "cp \<equiv> \<lambda>n. fold (\<lambda>i m. store64 m (entry dst i) (load64 m (entry src i))) [0..<n] m"
  shows "\<forall>u i. page_aligned u \<longrightarrow> i < 512 \<longrightarrow>
      load64 (cp n) (entry u i) = (if u = dst \<and> i < n then load64 m (entry src i) else load64 m (entry u i))"
    and "\<forall>x. \<not> in_page dst x \<longrightarrow> cp n x = m x"
  using assms(4)
proof (induction n)
  case 0
  case 1 show ?case by (simp add: cp_def)
  case 2 show ?case by (simp add: cp_def)
next
  case (Suc n)
  have s: "cp (Suc n) = store64 (cp n) (entry dst n) (load64 (cp n) (entry src n))" by (simp add: cp_def)
  {
    case 1
    then have n: "n < 512" by simp
    have c: "load64 (cp n) (entry src n) = load64 m (entry src n)" using Suc.IH(1) n assms(2,3) by auto
    show ?case unfolding s using Suc.IH(1) n c by (auto simp: load64_page_store [OF assms(1)] less_Suc_eq)
  next
    case 2
    then show ?case unfolding s using Suc.IH(2) store64_entry_outside [OF assms(1), of n] by simp
  }
qed

lemma copy_page_spec:
  assumes "page_aligned dst" "page_aligned src" "dst \<noteq> src" "page_aligned u" "i < 512"
  shows "load64 (copy_page dst src m) (entry u i) = (if u = dst then load64 m (entry src i) else load64 m (entry u i))"
    and "\<not> in_page dst x \<Longrightarrow> copy_page dst src m x = m x"
  using copy_words [OF assms(1-3), of 512 m] assms(4,5) unfolding copy_page_def by auto

section \<open>The allocator's invariant\<close>

lemma pool_frame:
  assumes "kmem_inv lk s ps" "free_mem_list t = free_mem_list s"
    and "\<And>q x. q \<in> set ps \<Longrightarrow> in_page q x \<Longrightarrow> memory t x = memory s x"
  shows "kmem_inv lk t ps"
  using assms(1,2) free_list_same_pages [OF assms(1), of "memory t"] assms(3) by (simp add: kmem_inv_def)

lemma kmem_inv_page:
  assumes "kmem_inv lk s (p # ps)"
  shows "page_ok lk p" "p \<noteq> 0" "p \<notin> set ps" "q \<in> set ps \<Longrightarrow> page_ok lk q \<and> q \<noteq> 0" "q \<in> set ps \<Longrightarrow> in_page q x \<Longrightarrow> \<not> in_page p x"
proof -
  note c = kmem_inv_Cons [OF assms]
  show "page_ok lk p" "p \<noteq> 0" "p \<notin> set ps" using c by auto
  have l: "linked_ok lk" using assms by (simp add: kmem_inv_def)
  show "q \<in> set ps \<Longrightarrow> page_ok lk q \<and> q \<noteq> 0" using c(7) page_ok_nonzero [OF l] by blast
  show "q \<in> set ps \<Longrightarrow> in_page q x \<Longrightarrow> \<not> in_page p x" using c other_page by metis
qed

section \<open>fork\<close>

definition free_slot :: "'a procs_scheme \<Rightarrow> nat option" where
  "free_slot s = find (\<lambda>p. p_status (proc s p) = TASK_FREE) [0..<NPROC]"

lemma allocproc_pages:
  assumes inv: "kmem_inv lk s (tf # ps)" and q: "free_slot s = Some q" and pid: "nextpid s \<noteq> 0x7fffffff"
  shows "\<exists>s1. allocproc lk s = Inr (Some q, s1) \<and> kmem_inv lk s1 ps \<and>
    memory s1 = zero_page tf (memory s) \<and> cpu_proc s1 = cpu_proc s \<and> (\<forall>j. j \<noteq> q \<longrightarrow> proc s1 j = proc s j) \<and>
    proc s1 q = (proc s q)\<lparr>p_pid := nextpid s, p_trapframe := tf, p_status := TASK_ALLOCATED,
      p_parent := None, p_chan := None, p_killed := 0, p_xstate := 0, p_context := new_context lk\<rparr>"
proof -
  let ?f = "\<lambda>f :: pcb. f\<lparr>p_pid := nextpid s, p_trapframe := tf, p_status := TASK_ALLOCATED, p_parent := None, p_chan := None,
    p_killed := 0, p_xstate := 0, p_context := new_context lk\<rparr>"
  note k = kalloc_Cons [OF inv]
  note nz = kmem_inv_page(2) [OF inv]
  have sw: "s\<lparr>free_mem_list := a, memory := b\<rparr> = s\<lparr>memory := b, free_mem_list := a\<rparr>" for a b by (cases s) simp
  let ?k = "s\<lparr>nextpid := nextpid s + 1, memory := zero_page tf (memory s), free_mem_list := load64 (memory s) tf\<rparr>"
  let ?s1 = "(upd_proc q ?f ?k)\<lparr>resume := (resume s)(q := Forkret), point := (point s)(q := Running_code)\<rparr>"
  have "find (\<lambda>p. p_status (proc s p) = TASK_FREE) [0..<NPROC] = Some q" using q by (simp add: free_slot_def)
  moreover have "kalloc (upd_proc q (\<lambda>f. f\<lparr>p_pid := nextpid s\<rparr>) (s\<lparr>nextpid := nextpid s + 1\<rparr>)) =
      (tf, (upd_proc q (\<lambda>f. f\<lparr>p_pid := nextpid s\<rparr>) (s\<lparr>nextpid := nextpid s + 1\<rparr>))
        \<lparr>memory := zero_page tf (memory s), free_mem_list := load64 (memory s) tf\<rparr>)"
    by (rule kalloc_cong [OF k(1) [unfolded sw]]) simp_all
  ultimately have "allocproc lk s = Inr (Some q, ?s1)"
    using nz pid by (simp add: allocproc_def allocpid_def Let_def upd_proc_def)
  moreover have "kmem_inv lk ?s1 ps"
    by (rule pool_frame [OF k(2)]) (simp_all add: k(1))
  ultimately show ?thesis by (intro exI [of _ ?s1]) simp
qed

lemma fork_pages:
  assumes inv: "kmem_inv lk s (tf # ks # ps)" and q: "free_slot s = Some q" and p: "cpu_proc s = Some p" "p \<noteq> q"
    and tfp: "page_aligned (p_trapframe (proc s p))" "p_trapframe (proc s p) \<notin> {tf, ks}"
    and pid: "nextpid s \<noteq> 0x7fffffff"
  shows "\<exists>s'. fork lk s = Inr (nextpid s, s') \<and> kmem_inv lk s' ps \<and> (\<forall>j. j \<noteq> q \<longrightarrow> proc s' j = proc s j) \<and>
    (let c = proc s' q in p_status c = TASK_READY \<and> p_pid c = nextpid s \<and> p_parent c = Some p \<and> p_trapframe c = tf \<and>
       p_kstack c = ks \<and> ctx_sp (p_context c) = ks + PGSIZE \<and> ctx_ra (p_context c) = forkret_addr lk \<and>
       p_pagetable c = p_pagetable (proc s p) \<and> p_sz c = p_sz (proc s p) \<and> p_ofile c = p_ofile (proc s q)) \<and>
    (\<forall>i < 512. tf_load q i s' = (if i = TF_a0 then 0 else tf_load p i s) \<and> tf_load p i s' = tf_load p i s)"
proof -
  let ?tp = "p_trapframe (proc s p)"
  obtain s1 where s1: "allocproc lk s = Inr (Some q, s1)" "kmem_inv lk s1 (ks # ps)" "memory s1 = zero_page tf (memory s)"
    "cpu_proc s1 = cpu_proc s" "\<And>j. j \<noteq> q \<Longrightarrow> proc s1 j = proc s j"
    "proc s1 q = (proc s q)\<lparr>p_pid := nextpid s, p_trapframe := tf, p_status := TASK_ALLOCATED,
      p_parent := None, p_chan := None, p_killed := 0, p_xstate := 0, p_context := new_context lk\<rparr>"
    using allocproc_pages [OF inv q pid] by blast
  note k = kalloc_Cons [OF s1(2)]
  note ks = kmem_inv_page [OF s1(2)] note tf = kmem_inv_page [OF inv]
  have al: "page_aligned tf" "page_aligned ks" using ks(1) tf(1) page_ok_aligned by blast+
  have ne: "tf \<noteq> ks" using tf(3) by auto
  define u where "u = upd_proc q (\<lambda>f. f\<lparr>p_kstack := ks\<rparr>)
    (s1\<lparr>free_mem_list := load64 (memory s1) ks, memory := zero_page ks (memory s1)\<rparr>)"
  define g where "g = (\<lambda>f :: pcb. f\<lparr>p_context := (p_context f)\<lparr>ctx_sp := ks + PGSIZE\<rparr>,
    p_pagetable := p_pagetable (proc u p), p_sz := p_sz (proc u p), p_parent := Some p,
    p_name := (\<lambda>i. if i < 16 then p_name (proc u p) i else p_name f i), p_status := TASK_READY\<rparr>)"
  define m2 where "m2 = store64 (copy_page (p_trapframe (proc u q)) (p_trapframe (proc u p)) (memory u))
    (entry (p_trapframe (proc u q)) TF_a0) 0"
  let ?s' = "upd_proc q g (u\<lparr>memory := m2\<rparr>)"
  have "fork lk s = Inr (p_pid (proc ?s' q), ?s')"
    unfolding fork_def running_def myproc_def p(1) option.case s1(1) bindE_Inr k(1) prod.case Let_def if_not_P [OF ks(2)] g_def m2_def u_def ..
  then have f: "fork lk s = Inr (nextpid s, ?s')" by (simp add: g_def u_def s1(6))
  let ?m2 = "zero_page ks (memory s1)"
  let ?m3 = "store64 (copy_page tf ?tp ?m2) (entry tf TF_a0) 0"
  have m3: "m2 = ?m3" using p(2) s1(5) [OF p(2)] by (simp add: m2_def u_def s1(6))
  have out: "?m3 x = ?m2 x" if "\<not> in_page tf x" for x
    using store64_entry_outside [OF al(1) _ that, of TF_a0] copy_page_spec(2) [OF al(1) tfp(1) _ tfp(1), of 0] tfp(2) that
    by (auto simp: TF_a0_def)
  have "kmem_inv lk ?s' ps"
  proof (rule pool_frame [OF k(2)])
    fix r x assume "r \<in> set ps" "in_page r x"
    then have "\<not> in_page tf x" using tf(5) [of r x] by simp
    then show "memory ?s' x = memory (snd (kalloc s1)) x" using out by (simp add: k(1) m3)
  qed (simp add: k(1) u_def)
  moreover have "tf_load p i ?s' = tf_load p i s \<and> tf_load q i ?s' = (if i = TF_a0 then 0 else tf_load p i s)" if i: "i < 512" for i
  proof -
    have w: "load64 ?m2 (entry ?tp i) = load64 (memory s) (entry ?tp i)"
      using tfp al i by (simp add: s1(3) load64_zero_page_other)
    have c: "load64 (copy_page tf ?tp ?m2) (entry u i) = (if u = tf then load64 ?m2 (entry ?tp i) else load64 ?m2 (entry u i))"
      if "page_aligned u" for u using copy_page_spec(1) [OF al(1) tfp(1) _ that i] tfp(2) by auto
    have a0: "TF_a0 < 512" by (simp add: TF_a0_def)
    have "load64 ?m3 (entry ?tp i) = load64 (memory s) (entry ?tp i)"
      using load64_page_store [OF al(1) tfp(1) a0 i] c [OF tfp(1)] tfp(2) w by auto
    moreover have "load64 ?m3 (entry tf i) = (if i = TF_a0 then 0 else load64 (memory s) (entry ?tp i))"
      using load64_page_store [OF al(1) al(1) a0 i] c [OF al(1)] w by auto
    ultimately show ?thesis using p(2) s1(5) [OF p(2)] by (simp add: tf_load_def g_def u_def m3 s1(6))
  qed
  ultimately show ?thesis
    unfolding f by (intro exI [of _ ?s']) (simp add: s1(5,6) Let_def new_context_def g_def u_def p(2))
qed

lemma fork_leak:
  assumes inv: "kmem_inv lk s [tf]" and q: "free_slot s = Some q" and p: "cpu_proc s = Some p"
    and pid: "nextpid s \<noteq> 0x7fffffff"
  shows "\<exists>s'. fork lk s = Inr (-1, s') \<and> kmem_inv lk s' [] \<and> p_trapframe (proc s' q) = tf \<and>
    p_status (proc s' q) = TASK_FREE \<and> (\<forall>j. j \<noteq> q \<longrightarrow> proc s' j = proc s j)"
proof -
  obtain s1 where s1: "allocproc lk s = Inr (Some q, s1)" "kmem_inv lk s1 []" "cpu_proc s1 = cpu_proc s"
    "\<And>j. j \<noteq> q \<Longrightarrow> proc s1 j = proc s j"
    "proc s1 q = (proc s q)\<lparr>p_pid := nextpid s, p_trapframe := tf, p_status := TASK_ALLOCATED,
      p_parent := None, p_chan := None, p_killed := 0, p_xstate := 0, p_context := new_context lk\<rparr>"
    using allocproc_pages [OF inv q pid] by blast
  let ?s' = "upd_proc q (\<lambda>f. f\<lparr>p_status := TASK_FREE\<rparr>) (upd_proc q (\<lambda>f. f\<lparr>p_kstack := 0\<rparr>) s1)"
  have "fork lk s = Inr (-1, ?s')"
    using kalloc_Nil [OF s1(2)] by (simp add: fork_def running_def myproc_def p s1(1))
  moreover have "kmem_inv lk ?s' []" by (rule pool_frame [OF s1(2)]) (simp_all add: upd_proc_def)
  ultimately show ?thesis by (intro exI [of _ ?s']) (simp add: s1(4,5))
qed

lemma fork_last_pid:
  assumes "free_slot s = Some q" "cpu_proc s = Some p" "nextpid s = 0x7fffffff"
  shows "fork lk s = Inl (Fault ''signed overflow'')"
  using assms by (simp add: fork_def running_def myproc_def allocproc_def allocpid_def free_slot_def)

section \<open>wait\<close>

lemma wait_scan_first:
  assumes "\<forall>j \<in> set as. \<not> (p_parent (proc s j) = Some p \<and> p_status (proc s j) = TASK_ZOMBIE)"
    and "p_parent (proc s c) = Some p" "p_status (proc s c) = TASK_ZOMBIE"
  shows "wait_scan lk addr p h (as @ c # bs) s = bindE (reap lk addr c s) (\<lambda>s1. Inr (Reaped (p_pid (proc s c)), s1))"
  using assms by (induction as arbitrary: h) auto

text \<open>The first zombie child in the order of the table.\<close>

definition first_zombie :: "nat \<Rightarrow> 'a procs_scheme \<Rightarrow> nat option" where
  "first_zombie p s = find (\<lambda>c. p_parent (proc s c) = Some p \<and> p_status (proc s c) = TASK_ZOMBIE) [0..<NPROC]"

text \<open>The \<open>n\<close> bytes at an address are in none of these pages.\<close>

definition outside_pages :: "u64 \<Rightarrow> nat \<Rightarrow> u64 list \<Rightarrow> bool" where
  "outside_pages addr n ps \<longleftrightarrow> (\<forall>q \<in> set ps. \<forall>x. unat (x - addr) < n \<longrightarrow> \<not> in_page q x)"

lemma reap_pages:
  assumes inv: "kmem_inv lk s ps"
    and own: "p_trapframe (proc s c) = tf" "p_kstack (proc s c) = ks" "page_ok lk tf" "page_ok lk ks" "distinct (ks # tf # ps)"
    and word: "addr = 0 \<or> outside_pages addr 4 (ks # tf # ps)"
  shows "\<exists>s'. reap lk addr c s = Inr s' \<and> kmem_inv lk s' (ks # tf # ps) \<and>
    (addr \<noteq> 0 \<longrightarrow> load_le 4 (memory s') addr = p_xstate (proc s c))"
proof -
  have user: "addr \<noteq> 0 \<Longrightarrow> q \<in> set (ks # tf # ps) \<Longrightarrow> unat (x - addr) < 4 \<Longrightarrow> \<not> in_page q x" for q x
    using word unfolding outside_pages_def by blast
  have l: "linked_ok lk" using inv by (simp add: kmem_inv_def)
  have nz: "tf \<noteq> 0" "ks \<noteq> 0" using page_ok_nonzero [OF l] own(3,4) by auto
  let ?m = "store_le 4 (memory s) addr (p_xstate (proc s c))"
  define s1 where "s1 = (if addr \<noteq> 0 then s\<lparr>memory := ?m\<rparr> else s)"
  have i1: "kmem_inv lk s1 ps"
  proof (rule pool_frame [OF inv])
    fix q x assume qx: "q \<in> set ps" "in_page q x"
    then have "addr \<noteq> 0 \<Longrightarrow> \<not> unat (x - addr) < 4" using user [of q x] by auto
    then show "memory s1 x = memory s x" by (simp add: s1_def store_le_outside)
  qed (simp add: s1_def)
  let ?f = "\<lambda>f. f\<lparr>p_status := TASK_FREE, p_pid := 0, p_parent := None, p_name := (p_name f)(0 := 0)\<rparr>"
  define s2 where "s2 = upd_proc c ?f s1"
  have i2: "kmem_inv lk s2 ps" by (rule pool_frame [OF i1]) (simp_all add: s2_def)
  let ?s3 = "s2\<lparr>memory := store64 (memory s2) tf (free_mem_list s2), free_mem_list := tf\<rparr>"
  have k3: "kfree lk tf s2 = Inr ?s3" using own(3) by (simp add: kfree_eq_Inr)
  have i3: "kmem_inv lk ?s3 (tf # ps)" by (rule kfree_inv [OF i2 own(3) _ k3]) (use own(5) in simp)
  define s4 where "s4 = upd_proc c (\<lambda>f. f\<lparr>p_trapframe := 0\<rparr>) ?s3"
  have i4: "kmem_inv lk s4 (tf # ps)" by (rule pool_frame [OF i3]) (simp_all add: s4_def)
  let ?s5 = "s4\<lparr>memory := store64 (memory s4) ks (free_mem_list s4), free_mem_list := ks\<rparr>"
  have k5: "kfree lk ks s4 = Inr ?s5" using own(4) by (simp add: kfree_eq_Inr)
  have i5: "kmem_inv lk ?s5 (ks # tf # ps)" by (rule kfree_inv [OF i4 own(4) _ k5]) (use own(5) in simp)
  let ?s' = "upd_proc c (\<lambda>f. f\<lparr>p_kstack := 0\<rparr>) ?s5"
  have pr: "p_trapframe (proc s2 c) = tf" "p_kstack (proc s4 c) = ks" "p_kstack (proc s2 c) = ks"
    by (simp_all add: s2_def s1_def s4_def own(1,2))
  have "reap lk addr c s = Inr ?s'"
    unfolding reap_def s1_def [symmetric] Let_def s2_def [symmetric] free_page_def pr
    by (simp add: nz k3 s4_def [symmetric] pr k5)
  moreover have "kmem_inv lk ?s' (ks # tf # ps)" by (rule pool_frame [OF i5]) simp_all
  moreover have "load_le 4 (memory ?s') addr = p_xstate (proc s c)" if a: "addr \<noteq> 0"
  proof -
    have al: "page_aligned tf" "page_aligned ks" using own(3,4) page_ok_aligned by blast+
    have sep: "\<not> unat (addr + of_nat i - q) < 8" if i: "i < 4" and q: "q \<in> {tf, ks}" for i q
    proof -
      have "unat (addr + of_nat i - addr) < 4" using i by (simp add: unat_of_nat64)
      then have "\<not> in_page q (addr + of_nat i)" using user [OF a, of q "addr + of_nat i"] q by auto
      then show ?thesis by (simp add: in_page_def)
    qed
    have "load_le 4 (memory ?s') addr = (load_le 4 (memory s1) addr :: i32)"
      by (simp add: s4_def s2_def load_le_store_le_sep sep)
    also have "\<dots> = p_xstate (proc s c)" using a by (simp add: s1_def load_store_same)
    finally show ?thesis .
  qed
  ultimately show ?thesis by blast
qed

section \<open>Properties\<close>

text \<open>
  C24: \<open>fork\<close> gives the child exactly two fresh pages and nothing else changes hands: the allocator
  keeps the rest of its list, the child's trap frame is the parent's word for word with 0 in
  \<open>a0\<close>, its stack pointer is the top of its own kernel stack, and neither the parent's trap frame
  nor any other process changes.  Once the process ids have reached 0x7fffffff the next \<open>fork\<close> overflows
  the counter, which is undefined.
\<close>

theorem fork_copies_parent:
  assumes "kmem_inv lk s (tf # ks # ps)" and "free_slot s = Some q" and "cpu_proc s = Some p" and "p \<noteq> q"
    and "page_aligned (p_trapframe (proc s p))" and "p_trapframe (proc s p) \<notin> {tf, ks}"
  shows "if nextpid s = 0x7fffffff then fork lk s = Inl (Fault ''signed overflow'') else
    \<exists>s'. fork lk s = Inr (nextpid s, s') \<and> kmem_inv lk s' ps \<and> (\<forall>j. j \<noteq> q \<longrightarrow> proc s' j = proc s j) \<and>
    (let c = proc s' q in p_status c = TASK_READY \<and> p_pid c = nextpid s \<and> p_parent c = Some p \<and> p_trapframe c = tf \<and>
       p_kstack c = ks \<and> ctx_sp (p_context c) = ks + PGSIZE \<and> ctx_ra (p_context c) = forkret_addr lk \<and>
       p_pagetable c = p_pagetable (proc s p) \<and> p_sz c = p_sz (proc s p) \<and> p_ofile c = p_ofile (proc s q)) \<and>
    (\<forall>i < 512. tf_load q i s' = (if i = TF_a0 then 0 else tf_load p i s) \<and> tf_load p i s' = tf_load p i s)"
proof (cases "nextpid s = 0x7fffffff")
  case True
  then show ?thesis using fork_last_pid [OF assms(2,3) True] by simp
next
  case False
  then show ?thesis unfolding if_not_P [OF False] by (rule fork_pages [OF assms])
qed

text \<open>
  C38: When only one page is left \<open>fork\<close> fails, and the page is lost: the slot is free again but still
  holds the trap frame, which \<open>fork\<close> does not return to the allocator.  (With the process ids used up it
  overflows the counter first.)
\<close>

theorem fork_leaks_trapframe:
  assumes "kmem_inv lk s [tf]" and "free_slot s = Some q" and "cpu_proc s = Some p"
  shows "if nextpid s = 0x7fffffff then fork lk s = Inl (Fault ''signed overflow'') else
    \<exists>s'. fork lk s = Inr (-1, s') \<and> kmem_inv lk s' [] \<and> p_trapframe (proc s' q) = tf \<and>
    p_status (proc s' q) = TASK_FREE \<and> (\<forall>j. j \<noteq> q \<longrightarrow> proc s' j = proc s j)"
proof (cases "nextpid s = 0x7fffffff")
  case True
  then show ?thesis using fork_last_pid [OF assms(2,3) True] by simp
next
  case False
  then show ?thesis unfolding if_not_P [OF False] by (rule fork_leak [OF assms])
qed

text \<open>
  C25: \<open>wait\<close> with a zombie child returns at once: it reports the first such child's process id, stores
  its exit status where the caller asked, gives both of its pages back to the allocator and frees
  its slot, leaving all other processes alone.
\<close>

theorem wait_reaps_child:
  assumes "kmem_inv lk s ps" and "cpu_proc s = Some p" and "first_zombie p s = Some c"
    and "page_ok lk (p_trapframe (proc s c))" and "page_ok lk (p_kstack (proc s c))"
    and "distinct (p_kstack (proc s c) # p_trapframe (proc s c) # ps)"
    and "addr = 0 \<or> outside_pages addr 4 (p_kstack (proc s c) # p_trapframe (proc s c) # ps)"
  shows "\<exists>s'. wait lk addr s = Inr (Some (p_pid (proc s c)), s') \<and>
    kmem_inv lk s' (p_kstack (proc s c) # p_trapframe (proc s c) # ps) \<and>
    (addr \<noteq> 0 \<longrightarrow> load_le 4 (memory s') addr = p_xstate (proc s c)) \<and>
    p_status (proc s' c) = TASK_FREE \<and> p_parent (proc s' c) = None \<and> (\<forall>j. j \<noteq> c \<longrightarrow> proc s' j = proc s j)"
proof -
  from assms(3) obtain as bs where c: "[0..<NPROC] = as @ c # bs" "p_parent (proc s c) = Some p"
    "p_status (proc s c) = TASK_ZOMBIE" "\<forall>j \<in> set as. \<not> (p_parent (proc s j) = Some p \<and> p_status (proc s j) = TASK_ZOMBIE)"
    unfolding first_zombie_def by (blast dest: find_Some_split)
  obtain s' where r: "reap lk addr c s = Inr s'" "kmem_inv lk s' (p_kstack (proc s c) # p_trapframe (proc s c) # ps)"
    "addr \<noteq> 0 \<longrightarrow> load_le 4 (memory s') addr = p_xstate (proc s c)"
    using reap_pages [OF assms(1) refl refl assms(4-7)] by blast
  have "wait_round lk addr s = Inr (Reaped (p_pid (proc s c)), s')"
    unfolding wait_round_def running_def myproc_def assms(2) option.case c(1) wait_scan_first [OF c(4,2,3)] r(1) by simp
  then have "wait lk addr s = Inr (Some (p_pid (proc s c)), s')" by (simp add: wait_def)
  moreover obtain m fl where "s' = upd_proc c (\<lambda>f. f\<lparr>p_status := TASK_FREE, p_pid := 0, p_parent := None,
      p_name := (p_name f)(0 := 0), p_trapframe := 0, p_kstack := 0\<rparr>) (s\<lparr>memory := m, free_mem_list := fl\<rparr>)"
    using reap_eq [OF r(1)] by blast
  ultimately show ?thesis using r(2,3) by (intro exI [of _ s']) simp
qed

text \<open>A parent with its trap frame in user memory, and three free pages.\<close>

definition demo_parent :: "u64 list \<Rightarrow> procs" where
  "demo_parent ps = demo_procs\<lparr>cpu_proc := Some 0, at := Kernel 0,
     memory := (case ps of [a] \<Rightarrow> (\<lambda>_. 0) | [a, b] \<Rightarrow> store64 (\<lambda>_. 0) a b | _ \<Rightarrow> (\<lambda>_. 0)),
     free_mem_list := (case ps of [] \<Rightarrow> 0 | a # _ \<Rightarrow> a),
     proc := (proc demo_procs)(0 := demo_pcb\<lparr>p_status := TASK_RUNNING, p_pid := 1, p_trapframe := 0x87FFD000\<rparr>,
       1 := demo_pcb\<lparr>p_status := TASK_ZOMBIE, p_pid := 2, p_parent := Some 0, p_xstate := 7, p_trapframe := 0x87FF9000, p_kstack := 0x87FFA000\<rparr>)\<rparr>"

lemma demo_pages: "page_ok demo_symbols 0x87FFF000" "page_ok demo_symbols 0x87FFE000"
  "page_ok demo_symbols 0x87FF9000" "page_ok demo_symbols 0x87FFA000"
  by (simp_all add: page_ok_def page_aligned_def demo_symbols_def)

lemma demo_parent_pool:
  "kmem_inv demo_symbols (demo_parent [0x87FFE000]) [0x87FFE000]"
  "kmem_inv demo_symbols (demo_parent [0x87FFE000, 0x87FFF000]) [0x87FFE000, 0x87FFF000]"
proof -
  have z: "load64 (\<lambda>_. 0) a = 0" for a by (simp add: load_le_def)
  have f: "load64 (store64 (\<lambda>_. 0) 0x87FFE000 0x87FFF000) 0x87FFF000 = 0"
    using load64_store64_other [of "0x87FFE000" "0x87FFF000"] z by simp
  show "kmem_inv demo_symbols (demo_parent [0x87FFE000]) [0x87FFE000]"
    by (simp add: kmem_inv_def demo_symbols_linked demo_parent_def z demo_pages)
  show "kmem_inv demo_symbols (demo_parent [0x87FFE000, 0x87FFF000]) [0x87FFE000, 0x87FFF000]"
    by (simp add: kmem_inv_def demo_symbols_linked demo_parent_def f demo_pages)
qed

lemma demo_parent_sel:
  "cpu_proc (demo_parent ps) = Some 0" "p_trapframe (proc (demo_parent ps) 0) = 0x87FFD000"
  "free_slot (demo_parent ps) = Some 2" "first_zombie 0 (demo_parent ps) = Some 1"
  "p_trapframe (proc (demo_parent ps) 1) = 0x87FF9000" "p_kstack (proc (demo_parent ps) 1) = 0x87FFA000"
  "p_pid (proc (demo_parent ps) 1) = 2" "p_xstate (proc (demo_parent ps) 1) = 7" "nextpid (demo_parent ps) = 3"
proof -
  have pr: "proc (demo_parent ps) 0 = demo_pcb\<lparr>p_status := TASK_RUNNING, p_pid := 1, p_trapframe := 0x87FFD000\<rparr>"
    "proc (demo_parent ps) (Suc 0) = demo_pcb\<lparr>p_status := TASK_ZOMBIE, p_pid := 2, p_parent := Some 0, p_xstate := 7, p_trapframe := 0x87FF9000, p_kstack := 0x87FFA000\<rparr>"
    "proc (demo_parent ps) 2 = demo_pcb"
    by (simp_all add: demo_parent_def demo_procs_sel(3))
  have u: "[0..<NPROC] = 0 # Suc 0 # 2 # [3..<NPROC]" by (simp add: upt_conv_Cons)
  show "free_slot (demo_parent ps) = Some 2" "first_zombie 0 (demo_parent ps) = Some 1"
    unfolding free_slot_def first_zombie_def u by (simp_all add: pr demo_procs_sel(6,7))
  show "cpu_proc (demo_parent ps) = Some 0" "p_trapframe (proc (demo_parent ps) 0) = 0x87FFD000"
    "p_trapframe (proc (demo_parent ps) 1) = 0x87FF9000" "p_kstack (proc (demo_parent ps) 1) = 0x87FFA000"
    "p_pid (proc (demo_parent ps) 1) = 2" "p_xstate (proc (demo_parent ps) 1) = 7" "nextpid (demo_parent ps) = 3"
    by (simp_all add: pr demo_parent_def demo_procs_sel)
qed

theorem fork_copies_parent_witness:
  "\<exists>s'. fork demo_symbols (demo_parent [0x87FFE000, 0x87FFF000]) = Inr (3, s') \<and> p_trapframe (proc s' 2) = 0x87FFE000 \<and>
     p_kstack (proc s' 2) = 0x87FFF000"
  using fork_copies_parent [OF demo_parent_pool(2) demo_parent_sel(3,1)]
  by (auto simp: demo_parent_sel page_aligned_def Let_def)

theorem fork_leaks_trapframe_witness:
  "\<exists>s'. fork demo_symbols (demo_parent [0x87FFE000]) = Inr (-1, s') \<and> p_trapframe (proc s' 2) = 0x87FFE000"
  using fork_leaks_trapframe [OF demo_parent_pool(1) demo_parent_sel(3,1)] by (auto simp: demo_parent_sel)

theorem wait_reaps_child_witness:
  "\<exists>s'. wait demo_symbols 0x87000000 (demo_parent [0x87FFE000]) = Inr (Some 2, s') \<and>
     load_le 4 (memory s') 0x87000000 = (7 :: i32) \<and>
     kmem_inv demo_symbols s' [0x87FFA000, 0x87FF9000, 0x87FFE000]"
proof -
  let ?s = "demo_parent [0x87FFE000]"
  have "outside_pages 0x87000000 4 [0x87FFA000, 0x87FF9000, 0x87FFE000]"
    unfolding outside_pages_def
  proof (intro ballI allI impI)
    fix q x :: u64 assume "q \<in> set [0x87FFA000, 0x87FF9000, 0x87FFE000]" "unat (x - 0x87000000) < 4"
    then have "page_aligned q" "0x87FF9000 \<le> unat q" "unat x < 0x87000004"
      using unat_lt64 [of x] by (auto simp: page_aligned_def unat_sub64 split: if_splits)
    then show "\<not> in_page q x" by (simp add: in_page_iff)
  qed
  then have "\<exists>s'. wait demo_symbols 0x87000000 ?s = Inr (Some (p_pid (proc ?s 1)), s') \<and>
    kmem_inv demo_symbols s' (p_kstack (proc ?s 1) # p_trapframe (proc ?s 1) # [0x87FFE000]) \<and>
    ((0x87000000 :: u64) \<noteq> 0 \<longrightarrow> load_le 4 (memory s') 0x87000000 = p_xstate (proc ?s 1)) \<and>
    p_status (proc s' 1) = TASK_FREE \<and> p_parent (proc s' 1) = None \<and> (\<forall>j. j \<noteq> 1 \<longrightarrow> proc s' j = proc ?s j)"
    by (intro wait_reaps_child [OF demo_parent_pool(1) demo_parent_sel(1,4)]) (simp_all only: demo_parent_sel demo_pages, simp_all)
  then show ?thesis unfolding demo_parent_sel by auto
qed

end
