(* ===== verification/Kernel_Space.thy ===== *)
theory Kernel_Space
  imports Vm
begin

text \<open>
  The address space of the kernel: what \<open>kvmininit\<close> (kernel/mm/vm.c) builds out of the five
  identity mappings, from any pool of free pages, and the protection it gives.
\<close>

section \<open>The five mappings\<close>

lemma page_aligned_consts:
  "page_aligned UART0" "page_aligned VIRTIO0" "page_aligned PLIC" "page_aligned KERNBASE"
  "page_aligned PHYSTOP" "page_aligned (UART0 + PGSIZE)" "page_aligned (VIRTIO0 + PGSIZE)"
  "page_aligned (PLIC + 0x400000)"
  by (simp_all add: page_aligned_def)

text \<open>Where the linker puts the end of the kernel's text.\<close>

definition text_ok :: "symbols \<Rightarrow> bool" where
  "text_ok lk \<longleftrightarrow> page_aligned (etext lk) \<and> KERNBASE < etext lk \<and> etext lk < PHYSTOP"

lemma text_okE:
  assumes "text_ok lk"
  shows "page_aligned (etext lk)" "0x80000000 < unat (etext lk)" "unat (etext lk) < 0x88000000"
  using assms by (simp_all add: text_ok_def word_less_nat_alt)

lemma text_sizes:
  assumes "text_ok lk"
  shows "unat (etext lk - KERNBASE) = unat (etext lk) - 0x80000000"
    "unat (PHYSTOP - etext lk) = 0x88000000 - unat (etext lk)"
  using text_okE [OF assms] unat_lt64 [of "etext lk"] by (simp_all add: unat_sub64)

text \<open>What is mapped after each of the five calls.\<close>

definition identity_at :: "u64 \<Rightarrow> u64 \<Rightarrow> i32 \<Rightarrow> (u64 \<Rightarrow> u64 option) \<Rightarrow> u64 \<Rightarrow> u64 option" where
  "identity_at va sz perm M v =
     (if unat va \<le> unat v \<and> unat v < unat va + unat sz
      then Some (PA2PTE (PGROUNDDOWN v) OR scast perm OR PTE_V) else M v)"

lemma described_identity:
  assumes "described lk r s ps M" "page_aligned va" "page_aligned (va + sz)"
    and "sz \<noteq> 0" "unat va + unat sz \<le> 2 ^ 38"
    and "\<And>v. unat va \<le> unat v \<Longrightarrow> unat v < unat va + unat sz \<Longrightarrow> M v = None"
  obtains rv s' ps' where "mappages r va va sz perm s = Inr (rv, s')" "set ps' \<subseteq> set ps"
    "described lk r s' ps' (identity_at va sz perm M)"
  using described_mappages [OF assms] unfolding identity_at_def [abs_def] by blast

lemma kernel_map_steps:
  assumes "text_ok lk"
  shows "identity_at (etext lk) (PHYSTOP - etext lk) 6
      (identity_at KERNBASE (etext lk - KERNBASE) 10
        (identity_at VIRTIO0 PGSIZE 6 (identity_at PLIC 0x400000 6 (identity_at UART0 PGSIZE 6 (\<lambda>_. None)))))
    = kernel_map lk"
proof
  fix v
  have p: "scast (6 :: i32) = PTE_R OR PTE_W" "scast (10 :: i32) = PTE_R OR PTE_X" by simp_all
  note e = text_okE [OF assms] text_sizes [OF assms]
  show "identity_at (etext lk) (PHYSTOP - etext lk) 6
      (identity_at KERNBASE (etext lk - KERNBASE) 10
        (identity_at VIRTIO0 PGSIZE 6 (identity_at PLIC 0x400000 6 (identity_at UART0 PGSIZE 6 (\<lambda>_. None))))) v
    = kernel_map lk v"
    using e(2,3) unfolding identity_at_def kernel_map_def p word_le_nat_alt word_less_nat_alt e(4,5)
    by auto
qed

lemma kvmininit_builds:
  assumes inv: "kmem_inv lk s ps" and "ps \<noteq> []" and ok: "text_ok lk"
  obtains s' ps' where "kvmininit lk s = Inr s'" "set ps' \<subseteq> set ps"
    "kernel_pagetable s' = hd ps" "described lk (hd ps) s' ps' (kernel_map lk)"
proof -
  obtain r qs where ps: "ps = r # qs" using \<open>ps \<noteq> []\<close> by (cases ps) auto
  obtain s1 where k: "kalloc s = (r, s1)" and r0: "r \<noteq> 0"
    using kalloc_Cons [OF inv [unfolded ps]] kmem_inv_Cons [OF inv [unfolded ps]] page_ok_nonzero
    by (cases "kalloc s") auto
  let ?s2 = "s1\<lparr>kernel_pagetable := r\<rparr>"
  let ?s2 = "?s2\<lparr>memory := zero_page r (memory ?s2)\<rparr>"
  note e = text_okE [OF ok] and sz = text_sizes [OF ok]
  have d0: "described lk r (s1\<lparr>memory := zero_page r (memory s1)\<rparr>) qs (\<lambda>_. None)"
    by (rule fresh_root [OF inv [unfolded ps] k])
  have d: "described lk r ?s2 qs (\<lambda>_. None)"
    using d0 by (simp add: described_def pt_inv_def kmem_inv_def)
  obtain rv3 s3 ps3 where m3: "mappages r UART0 UART0 PGSIZE 6 ?s2 = Inr (rv3, s3)" "set ps3 \<subseteq> set qs"
    and d3: "described lk r s3 ps3 (identity_at UART0 PGSIZE 6 (\<lambda>_. None))"
    by (rule described_identity [OF d page_aligned_consts(1) page_aligned_consts(6)]) simp_all
  obtain rv4 s4 ps4 where m4: "mappages r PLIC PLIC 0x400000 6 s3 = Inr (rv4, s4)" "set ps4 \<subseteq> set ps3"
    and d4: "described lk r s4 ps4 (identity_at PLIC 0x400000 6 (identity_at UART0 PGSIZE 6 (\<lambda>_. None)))"
    by (rule described_identity [OF d3 page_aligned_consts(3) page_aligned_consts(8)])
      (simp_all add: identity_at_def)
  obtain rv5 s5 ps5 where m5: "mappages r VIRTIO0 VIRTIO0 PGSIZE 6 s4 = Inr (rv5, s5)" "set ps5 \<subseteq> set ps4"
    and d5: "described lk r s5 ps5 (identity_at VIRTIO0 PGSIZE 6
        (identity_at PLIC 0x400000 6 (identity_at UART0 PGSIZE 6 (\<lambda>_. None))))"
    by (rule described_identity [OF d4 page_aligned_consts(2) page_aligned_consts(7)])
      (simp_all add: identity_at_def)
  have n6: "etext lk - KERNBASE \<noteq> 0" "page_aligned (KERNBASE + (etext lk - KERNBASE))"
    using e ok by (auto simp: text_ok_def)
  obtain rv6 s6 ps6 where m6: "mappages r KERNBASE KERNBASE (etext lk - KERNBASE) 10 s5 = Inr (rv6, s6)"
      "set ps6 \<subseteq> set ps5"
    and d6: "described lk r s6 ps6 (identity_at KERNBASE (etext lk - KERNBASE) 10 (identity_at VIRTIO0 PGSIZE 6
        (identity_at PLIC 0x400000 6 (identity_at UART0 PGSIZE 6 (\<lambda>_. None)))))"
    by (rule described_identity [OF d5 page_aligned_consts(4) n6(2) n6(1)])
      (use e sz in \<open>simp_all add: identity_at_def\<close>)
  have n7: "PHYSTOP - etext lk \<noteq> 0" "page_aligned (etext lk + (PHYSTOP - etext lk))"
    using e ok by (auto simp: text_ok_def page_aligned_def)
  obtain rv7 s7 ps7 where m7: "mappages r (etext lk) (etext lk) (PHYSTOP - etext lk) 6 s6 = Inr (rv7, s7)"
      "set ps7 \<subseteq> set ps6"
    and d7: "described lk r s7 ps7 (identity_at (etext lk) (PHYSTOP - etext lk) 6
       (identity_at KERNBASE (etext lk - KERNBASE) 10 (identity_at VIRTIO0 PGSIZE 6
        (identity_at PLIC 0x400000 6 (identity_at UART0 PGSIZE 6 (\<lambda>_. None))))))"
    by (rule described_identity [OF d6 e(1) n7(2) n7(1)])
      (use e sz in \<open>simp_all add: identity_at_def\<close>)
  have om: "only_memory ?s2 s7"
    using m3(1) m4(1) m5(1) m6(1) m7(1) mappages_only_memory only_memory_trans by meson
  have "kvmininit lk s = Inr s7"
    using r0 unfolding kvmininit_def k Let_def prod.case
    by (simp only: m3(1) m4(1) m5(1) m6(1) m7(1) bindE_Inr prod.case if_False)
  moreover have "kernel_pagetable s7 = r"
    using only_memory_kernel_pagetable [OF om] by simp
  ultimately show thesis
    using that [of s7 ps7] d7 subset_trans [OF m7(2) subset_trans [OF m6(2) subset_trans [OF m5(2)
        subset_trans [OF m4(2) m3(2)]]]]
    unfolding kernel_map_steps [OF ok] ps by auto
qed

text \<open>The address in an entry does not touch its flags.\<close>

lemma PA2PTE_flag:
  assumes "k \<in> {1, 2, 4, 8, 16}"
  shows "(PA2PTE a OR f) AND k = f AND k"
proof -
  have "take_bit 10 k = k" using assms by auto
  then have "PA2PTE a AND k = PA2PTE a AND take_bit 10 k" by simp
  also have "\<dots> = 0" by (rule bit_eqI) (auto simp: PA2PTE_def bit_simps)
  finally show ?thesis by (simp add: bit.conj_disj_distrib2)
qed

section \<open>Properties\<close>

text \<open>
  C3: From any well-formed pool that holds a free page, \<open>kvmininit\<close> does not panic and leaves in
  \<open>kernel_pagetable\<close> a well-formed tree of tables taken from the pool.  If pages are left, the
  tree translates every address below \<open>MAXVA\<close> exactly as intended: the devices and the RAM after
  \<open>etext\<close> onto themselves, readable and writable, the text onto itself, readable and
  executable, everything else to nothing.
\<close>

theorem kvmininit_maps_kernel:
  assumes "kmem_inv lk s ps" and "ps \<noteq> []" and "text_ok lk"
  shows "\<exists>s' ps'. kvmininit lk s = Inr s' \<and> pt_inv lk s' ps' (kernel_pagetable s') \<and> set ps' \<subseteq> set ps \<and>
     (\<forall>va. va < MAXVA \<longrightarrow> kernel_map lk va = None \<longrightarrow> leaf (memory s') (kernel_pagetable s') va = None) \<and>
     (ps' \<noteq> [] \<longrightarrow> (\<forall>va. va < MAXVA \<longrightarrow> leaf (memory s') (kernel_pagetable s') va = kernel_map lk va))"
proof -
  obtain s' ps' where "kvmininit lk s = Inr s'" "set ps' \<subseteq> set ps"
    "kernel_pagetable s' = hd ps" "described lk (hd ps) s' ps' (kernel_map lk)"
    by (rule kvmininit_builds [OF assms])
  then show ?thesis
    by (intro exI [of _ s'] exI [of _ ps']) (simp add: described_def)
qed

text \<open>The kernel before \<open>kvmininit\<close>, with one page in the pool.\<close>

definition demo_boot :: vm where
  "demo_boot = \<lparr>memory = memory demo_one_page, console_out = [], free_mem_list = free_mem_list demo_one_page,
     kernel_pagetable = 0, satp = 0\<rparr>"

theorem kvmininit_maps_kernel_witness:
  "text_ok demo_symbols \<and> kmem_inv demo_symbols demo_boot [0x87FFE000] \<and>
   (\<exists>s' ps'. kvmininit demo_symbols demo_boot = Inr s' \<and>
      pt_inv demo_symbols s' ps' (kernel_pagetable s') \<and> set ps' \<subseteq> {0x87FFE000})"
proof -
  have 1: "kmem_inv demo_symbols demo_boot [0x87FFE000]"
    using demo_one_page_inv by (simp add: kmem_inv_def demo_boot_def)
  have 2: "text_ok demo_symbols"
    by (simp add: text_ok_def demo_symbols_def page_aligned_def)
  have 3: "[0x87FFE000] \<noteq> ([] :: u64 list)" by (rule list.distinct(2))
  obtain s' ps' where "kvmininit demo_symbols demo_boot = Inr s'"
    "pt_inv demo_symbols s' ps' (kernel_pagetable s')" "set ps' \<subseteq> set [0x87FFE000 :: u64]"
    using kvmininit_maps_kernel [OF 1 3 2] by blast
  then show ?thesis using 1 2 by auto
qed

text \<open>
  The intended map: no page is both writable and executable, none is open to user mode, the executable ones are exactly
  those of the text, all of RAM is there, and every mapped page is mapped to itself.
\<close>

definition kernel_page :: "symbols \<Rightarrow> u64 \<Rightarrow> u64 \<Rightarrow> bool" where
  "kernel_page lk va e \<longleftrightarrow> e AND PTE_V \<noteq> 0 \<and> e AND PTE_U = 0 \<and> e AND PTE_R \<noteq> 0 \<and> (e AND PTE_W = 0 \<or> e AND PTE_X = 0) \<and>
    (e AND PTE_X \<noteq> 0 \<longleftrightarrow> KERNBASE \<le> va \<and> va < etext lk) \<and> PTE2PA e = PGROUNDDOWN va"

lemma kernel_map_page:
  assumes "kernel_map lk va = Some e" and "text_ok lk" and "va < MAXVA"
  shows "kernel_page lk va e"
proof -
  have self: "PTE2PA (PA2PTE (PGROUNDDOWN va) OR f) = PGROUNDDOWN va" if "f \<in> {7, 11}" for f
  proof -
    have "page_aligned (PGROUNDDOWN va)"
      by (simp add: page_aligned_def unat_PGROUNDDOWN mod_diff_eq minus_mod_eq_div_mult)
    moreover have "PGROUNDDOWN va < 2 ^ 38"
      using assms(3) by (simp add: word_less_nat_alt unat_PGROUNDDOWN)
    ultimately show ?thesis
      using that PTE2PA_PA2PTE [of "PGROUNDDOWN va" f] by auto
  qed
  note e = text_okE [OF assms(2)]
  show ?thesis
  proof (cases "KERNBASE \<le> va \<and> va < etext lk")
    case True
    then have "e = PA2PTE (PGROUNDDOWN va) OR (PTE_R OR PTE_X) OR PTE_V"
      using assms(1) e by (auto simp: kernel_map_def word_le_nat_alt word_less_nat_alt split: if_splits)
    then show ?thesis using True self PA2PTE_flag by (simp add: kernel_page_def)
  next
    case False
    then have "e = PA2PTE (PGROUNDDOWN va) OR (PTE_R OR PTE_W) OR PTE_V"
      using assms(1) by (auto simp: kernel_map_def split: if_splits)
    then show ?thesis using False self PA2PTE_flag by (simp add: kernel_page_def)
  qed
qed

lemma kernel_map_ram:
  assumes "text_ok lk" "KERNBASE \<le> va" "va < PHYSTOP"
  shows "kernel_map lk va \<noteq> None"
  using assms(2,3) text_okE [OF assms(1)] by (auto simp: kernel_map_def word_le_nat_alt word_less_nat_alt)

lemma kernel_map_None: "text_ok lk \<Longrightarrow> kernel_map lk va = None \<Longrightarrow> va < KERNBASE \<or> PHYSTOP \<le> va"
  using kernel_map_ram not_less by blast

end
