(* ===== verification/Pool_Count.thy ===== *)
theory Pool_Count
  imports Kernel_Space
begin

text \<open>
  How many pages \<open>kvmininit\<close> (\<open>kernel/mm/vm.c\<close>) takes from the allocator: one for the root and one for each
  table its five mappings need, which are 69.  The potential \<open>missing P\<close> counts the tables of \<open>P\<close> that
  are not there yet; every page that leaves the pool lowers it by one.
\<close>

section \<open>The pool is determined by the memory\<close>

lemma free_list_unique: "free_list m p ps \<Longrightarrow> free_list m p qs \<Longrightarrow> ps = qs"
proof (induction ps arbitrary: p qs)
  case Nil
  then show ?case by (cases qs) auto
next
  case (Cons a ps)
  then show ?case by (cases qs) auto
qed

lemma pool_unique: "kmem_inv lk s ps \<Longrightarrow> kmem_inv lk s qs \<Longrightarrow> ps = qs"
  unfolding kmem_inv_def using free_list_unique by blast

section \<open>The potential\<close>

definition missing :: "nat list set \<Rightarrow> mem \<Rightarrow> u64 \<Rightarrow> nat" where
  "missing P m r = card {is \<in> P. path_ok is \<and> table m r is = None}"

text \<open>The pool shrinks by no more than the tables that have appeared.\<close>

definition paid :: "nat list set \<Rightarrow> u64 \<Rightarrow> mem \<Rightarrow> u64 list \<Rightarrow> mem \<Rightarrow> u64 list \<Rightarrow> bool" where
  "paid P r m ps m' ps' \<longleftrightarrow> length ps + missing P m' r \<le> length ps' + missing P m r"

lemma paid_refl: "paid P r m ps m ps"
  by (simp add: paid_def)

lemma paid_trans: "paid P r m ps m1 ps1 \<Longrightarrow> paid P r m1 ps1 m2 ps2 \<Longrightarrow> paid P r m ps m2 ps2"
  unfolding paid_def by linarith

lemma missing_cong: "(\<And>is. path_ok is \<Longrightarrow> table m' r is = table m r is) \<Longrightarrow> missing P m' r = missing P m r"
  unfolding missing_def by (intro arg_cong [where f = card]) auto

lemma missing_link:
  assumes fin: "finite P" and p: "q \<in> P" "path_ok q" "table m r q = None" "table m' r q \<noteq> None"
    and other: "\<And>is. path_ok is \<Longrightarrow> is \<noteq> q \<Longrightarrow> table m' r is = table m r is"
  shows "Suc (missing P m' r) = missing P m r"
proof -
  let ?S = "{is \<in> P. path_ok is \<and> table m r is = None}"
  have "{is \<in> P. path_ok is \<and> table m' r is = None} = ?S - {q}"
  proof (rule set_eqI)
    fix x show "x \<in> {is \<in> P. path_ok is \<and> table m' r is = None} \<longleftrightarrow> x \<in> ?S - {q}"
      using p(4) other [of x] by (cases "x = q") auto
  qed
  moreover have "q \<in> ?S" using p by simp
  moreover have "finite ?S" using fin by simp
  ultimately show ?thesis unfolding missing_def using card_Suc_Diff1 [of ?S q] by simp
qed

text \<open>\<open>link_tree\<close> says that only the new path appears.\<close>

lemma link_paths:
  assumes inv: "pt_inv lk s (p0 # ps) r" and path: "path_ok (path @ [i])"
    and t: "table (memory s) r path = Some t" and unused: "next_table (memory s) t i = None"
    and k: "kalloc s = (p0, s1)"
    and m': "m' = store64 (zero_page p0 (memory s1)) (entry t i) (PA2PTE p0 OR PTE_V)"
    and other: "path_ok is" "is \<noteq> path @ [i]"
  shows "table m' r is = table (memory s) r is"
proof -
  note kt = kalloc_tree [OF inv k]
  have p: "path_ok path" "i < 512" using path by (auto simp: path_ok_def)
  have al: "page_aligned t" "t \<noteq> p0" using pt_inv_table [OF inv p(1) t] by auto
  have inv1: "pt_inv lk s1 ps r" using kt(2) by (simp add: tree_grows_def)
  have t1: "table (memory s1) r path = Some t" using kt(8) [OF p(1)] t by simp
  have zz: "zero_page p0 (memory s1) = memory s1" by (auto simp: kt(7) zero_page_eq)
  have u1: "next_table (memory s1) t i = None"
    using unused load64_zero_page_other [OF page_ok_aligned [OF kt(4)] al p(2)]
    by (simp add: next_table_def kt(7))
  have fresh: "table (memory s1) r js \<noteq> Some p0" if "path_ok js" for js using kt(8,9) [OF that] by simp
  have zero: "load64 (memory s1) (entry p0 j) = 0" if "j < 512" for j
    using load64_zero_page [OF page_ok_aligned [OF kt(4)] that] by (simp add: kt(7))
  from link_table(3) [OF inv1 path t1 u1 kt(4) kt(6) fresh zero m' [unfolded zz] other(1)]
  show ?thesis using other kt(8) by simp
qed

section \<open>What walk takes\<close>

text \<open>The tables a walk to \<open>va\<close> passes below the root.\<close>

definition walk_tables :: "u64 \<Rightarrow> nat list set" where
  "walk_tables va = {[unat (PX 2 va)], [unat (PX 2 va), unat (PX 1 va)]}"

lemma walk_levels_paid:
  assumes "pt_inv lk s ps r" "table (memory s) r path = Some pt" "length path + l = 2"
    "\<forall>i\<in>set path. i < 512" "walk_levels l pt va True s = (res, s')" "kmem_inv lk s' ps'"
    "finite P" "\<forall>js ks. walk_path l va = js @ ks \<longrightarrow> js \<noteq> [] \<longrightarrow> path @ js \<in> P"
  shows "paid P r (memory s) ps (memory s') ps'"
  using assms
proof (induction l arbitrary: pt path s ps)
  case 0
  then have "s' = s" by simp
  moreover have "ps' = ps" using 0 pool_unique pt_inv_kmem calculation by metis
  ultimately show ?case by (simp add: paid_refl)
next
  case (Suc l)
  let ?i = "unat (PX (Suc l) va)" and ?e = "load64 (memory s) (entry pt (unat (PX (Suc l) va)))"
  have path: "path_ok (path @ [?i])"
    using Suc.prems(3,4) PX_less [of "Suc l" va] by (auto simp: path_ok_def)
  have len: "length (path @ [?i]) + l = 2" and bound: "\<forall>i\<in>set (path @ [?i]). i < 512"
    using Suc.prems(3,4) PX_less [of "Suc l" va] by auto
  have inP: "path @ [?i] \<in> P" using Suc.prems(8) by (metis append_Cons append_Nil list.distinct(1) walk_path.simps(2))
  have deeper: "\<forall>js ks. walk_path l va = js @ ks \<longrightarrow> js \<noteq> [] \<longrightarrow> (path @ [?i]) @ js \<in> P"
  proof (intro allI impI)
    fix js ks assume "walk_path l va = js @ ks"
    then have "walk_path (Suc l) va = (?i # js) @ ks" by simp
    then show "(path @ [?i]) @ js \<in> P" using Suc.prems(8) by (metis append_Cons append_assoc append_Nil list.distinct(1))
  qed
  show ?case
  proof (cases "?e AND PTE_V \<noteq> 0")
    case True
    have "table (memory s) r (path @ [?i]) = Some (PTE2PA ?e)"
      using True Suc.prems(2) by (simp add: table_snoc next_table_def)
    moreover have "walk_levels l (PTE2PA ?e) va True s = (res, s')"
      using True Suc.prems(5) by (simp add: Let_def)
    ultimately show ?thesis
      using Suc.IH [OF Suc.prems(1) _ len bound _ Suc.prems(6,7) deeper] by blast
  next
    case False
    obtain p s1 where k: "kalloc s = (p, s1)" by fastforce
    show ?thesis
    proof (cases ps)
      case Nil
      then have "kalloc s = (0, s)" using kalloc_Nil pt_inv_kmem [OF Suc.prems(1)] by simp
      then have "s' = s" using False Suc.prems(5) by (simp add: Let_def)
      moreover have "ps' = ps" using Suc.prems(1,6) pool_unique pt_inv_kmem calculation by metis
      ultimately show ?thesis by (simp add: paid_refl)
    next
      case (Cons p0 ps1)
      have inv: "pt_inv lk s (p0 # ps1) r" using Suc.prems(1) Cons by simp
      have k0: "kalloc s = (p0, s1)" and nz: "p0 \<noteq> 0"
        using kalloc_tree(1,5) [OF inv k] k by simp_all
      define m' where "m' = store64 (zero_page p0 (memory s1)) (entry pt ?i) (PA2PTE p0 OR PTE_V)"
      have unused: "next_table (memory s) pt ?i = None" using False by (simp add: next_table_def)
      note link = link_tree [OF inv path Suc.prems(2) unused k0 m'_def]
      note others = link_paths [OF inv path Suc.prems(2) unused k0 m'_def]
      have w: "walk_levels l p0 va True (s1\<lparr>memory := m'\<rparr>) = (res, s')"
        using Suc.prems(5) False k0 nz by (simp add: Let_def m'_def)
      have "pt_inv lk (s1\<lparr>memory := m'\<rparr>) ps1 r" using link(1) by (simp add: tree_grows_def)
      from Suc.IH [OF this _ len bound w Suc.prems(6,7) deeper] link(2)
      have rest: "paid P r m' ps1 (memory s') ps'" by simp
      have none: "table (memory s) r (path @ [?i]) = None" using unused Suc.prems(2) by (simp add: table_snoc)
      have "Suc (missing P m' r) = missing P (memory s) r"
        by (rule missing_link [OF Suc.prems(7) inP path none]) (use link(2) others in auto)
      then have "paid P r (memory s) ps m' ps1" unfolding Cons by (simp add: paid_def)
      then show ?thesis by (rule paid_trans [OF _ rest])
    qed
  qed
qed

lemma walk_paid:
  assumes inv: "pt_inv lk s ps r" and w: "walk r va True s = Inr (pte, s')" and k: "kmem_inv lk s' ps'"
    and P: "finite P" "walk_tables va \<subseteq> P"
  shows "paid P r (memory s) ps (memory s') ps'"
proof -
  obtain res where wl: "walk_levels 2 r va True s = (res, s')"
    using w by (auto simp: walk_def split: if_splits prod.splits option.splits)
  have wp: "walk_path 2 va = [unat (PX 2 va), unat (PX 1 va)]" by (simp add: numeral_2_eq_2)
  have "[] @ js \<in> P" if "walk_path 2 va = js @ ks" "js \<noteq> []" for js ks
    using that P(2) unfolding wp walk_tables_def by (auto simp: Cons_eq_append_conv)
  then show ?thesis
    using walk_levels_paid [OF inv _ _ _ wl k P(1), of "[]"] by simp
qed

section \<open>What mappages and kvmininit take\<close>

text \<open>One round of the loop: a walk and the store of a leaf.\<close>

lemma map_round_paid:
  fixes s :: "'a kmem_scheme"
  assumes inv: "pt_inv lk s ps r" and w: "walk r a True s = Inr (pte, s1)"
    and P: "finite P" "walk_tables a \<subseteq> P"
  obtains ps1 where "pt_inv lk s1 ps1 r" "paid P r (memory s) ps (memory s1) ps1"
    "\<And>e. pte \<noteq> 0 \<Longrightarrow> pt_inv lk (s1\<lparr>memory := store64 (memory s1) pte e\<rparr>) ps1 r \<and>
       paid P r (memory s) ps (store64 (memory s1) pte e) ps1"
proof -
  have a: "a < MAXVA" using w by (auto simp: walk_def not_le split: if_splits)
  obtain pte' s1' ps1 where w': "walk r a True s = Inr (pte', s1')" "tree_grows lk r s ps s1' ps1"
    "if pte' = 0 then ps1 = [] else \<exists>t. table (memory s1') r [unat (PX 2 a), unat (PX 1 a)] = Some t \<and> pte' = entry t (unat (PX 0 a))"
    using walk_grows [OF inv a] by blast
  have e: "pte' = pte" "s1' = s1" using w'(1) w by simp_all
  note g = w'(2) [unfolded e] and t = w'(3) [unfolded e]
  have inv1: "pt_inv lk s1 ps1 r" using g by (simp add: tree_grows_def)
  have p1: "paid P r (memory s) ps (memory s1) ps1"
    by (rule walk_paid [OF inv w pt_inv_kmem [OF inv1] P])
  show thesis
  proof (rule that [OF inv1 p1])
    fix e assume "pte \<noteq> 0"
    then obtain t where t: "table (memory s1) r [unat (PX 2 a), unat (PX 1 a)] = Some t" "pte = entry t (unat (PX 0 a))"
      using t by (meson)
    note st = store_leaf(1,2) [OF inv1 t(1) refl, folded t(2)]
    have "missing P (store64 (memory s1) pte e) r = missing P (memory s1) r"
      by (rule missing_cong) (rule st(2))
    then have "paid P r (memory s1) ps1 (store64 (memory s1) pte e) ps1" by (simp add: paid_def)
    then show "pt_inv lk (s1\<lparr>memory := store64 (memory s1) pte e\<rparr>) ps1 r \<and>
       paid P r (memory s) ps (store64 (memory s1) pte e) ps1"
      using st(1) paid_trans [OF p1] by blast
  qed
qed

lemma map_loop_paid:
  fixes s :: "'a kmem_scheme"
  assumes "pt_inv lk s ps r" "map_loop r a last_va pa perm s = Inr (rv, s')"
    "unat last_va = unat a + 4096 * n" "finite P"
    "\<And>v. unat a \<le> unat v \<Longrightarrow> unat v \<le> unat last_va \<Longrightarrow> walk_tables v \<subseteq> P"
  shows "\<exists>ps'. pt_inv lk s' ps' r \<and> paid P r (memory s) ps (memory s') ps'"
  using assms
proof (induction n arbitrary: a pa s ps)
  case (0 a pa s ps)
  from "0.prems"(2) obtain pte s1 where w: "walk r a True s = Inr (pte, s1)"
    by (auto simp: map_loop.simps [of r a] bindE_eq_Inr)
  have eq: "a = last_va" using "0.prems"(3) by (simp add: unat_eqD)
  obtain ps1 where r1: "pt_inv lk s1 ps1 r" "paid P r (memory s) ps (memory s1) ps1"
    "\<And>e. pte \<noteq> 0 \<Longrightarrow> pt_inv lk (s1\<lparr>memory := store64 (memory s1) pte e\<rparr>) ps1 r \<and>
       paid P r (memory s) ps (store64 (memory s1) pte e) ps1"
    by (rule map_round_paid [OF "0.prems"(1) w "0.prems"(4)], rule "0.prems"(5)) (use eq in auto)
  show ?case
  proof (cases "pte = 0")
    case True
    then have "s' = s1" using "0.prems"(2) w by (simp add: map_loop.simps [of r a])
    then show ?thesis using r1(1,2) by blast
  next
    case False
    then have "s' = s1\<lparr>memory := store64 (memory s1) pte (PA2PTE pa OR scast perm OR PTE_V)\<rparr>"
      using "0.prems"(2) w eq by (simp add: map_loop.simps [of r last_va] Let_def split: if_splits)
    then show ?thesis using r1(3) [OF False] by (intro exI [of _ ps1]) simp
  qed
next
  case (Suc n a pa s ps)
  from Suc.prems(2) obtain pte s1 where w: "walk r a True s = Inr (pte, s1)"
    by (auto simp: map_loop.simps [of r a] bindE_eq_Inr)
  have a: "a < MAXVA" using w by (auto simp: walk_def not_le split: if_splits)
  then have up: "unat (a + PGSIZE) = unat a + 4096" by (simp add: word_less_nat_alt unat_add64)
  have neq: "a \<noteq> last_va" using Suc.prems(3) by auto
  obtain ps1 where r1: "pt_inv lk s1 ps1 r" "paid P r (memory s) ps (memory s1) ps1"
    "\<And>e. pte \<noteq> 0 \<Longrightarrow> pt_inv lk (s1\<lparr>memory := store64 (memory s1) pte e\<rparr>) ps1 r \<and>
       paid P r (memory s) ps (store64 (memory s1) pte e) ps1"
    by (rule map_round_paid [OF Suc.prems(1) w Suc.prems(4)], rule Suc.prems(5)) (use Suc.prems(3) in auto)
  show ?case
  proof (cases "pte = 0")
    case True
    then have "s' = s1" using Suc.prems(2) w by (simp add: map_loop.simps [of r a])
    then show ?thesis using r1(1,2) by blast
  next
    case False
    let ?s2 = "s1\<lparr>memory := store64 (memory s1) pte (PA2PTE pa OR scast perm OR PTE_V)\<rparr>"
    have ml: "map_loop r (a + PGSIZE) last_va (pa + PGSIZE) perm ?s2 = Inr (rv, s')"
      using Suc.prems(2) w neq False by (simp add: map_loop.simps [of r a] Let_def split: if_splits)
    note r2 = r1(3) [OF False]
    obtain ps' where "pt_inv lk s' ps' r" "paid P r (memory ?s2) ps1 (memory s') ps'"
      using Suc.IH [OF conjunct1 [OF r2] ml _ Suc.prems(4)] Suc.prems(3,5) up by force
    then show ?thesis using paid_trans [OF conjunct2 [OF r2]] by auto
  qed
qed

lemma mappages_paid:
  assumes inv: "pt_inv lk s ps r" and m: "mappages r pa va sz perm s = Inr (rv, s')"
    and al: "page_aligned va" "page_aligned (va + sz)" and fits: "unat va + unat sz \<le> 2 ^ 38"
    and P: "finite P" "\<And>v. unat va \<le> unat v \<Longrightarrow> unat v < unat va + unat sz \<Longrightarrow> walk_tables v \<subseteq> P"
  shows "\<exists>ps'. pt_inv lk s' ps' r \<and> paid P r (memory s) ps (memory s') ps'"
proof -
  have sz: "sz \<noteq> 0" using m by (auto simp: mappages_def)
  have up: "unat (va + sz) = unat va + unat sz" using fits by (simp add: unat_add64)
  obtain k j where k: "unat va = 4096 * k" and j: "unat va + unat sz = 4096 * j"
    using al up by (metis page_alignedE)
  have pos: "0 < unat sz" using sz by (simp add: unat_gt_0)
  have "unat (va + sz - 1) = 4096 * j - 1" using up j pos by (simp add: unat_sub64)
  moreover have "4096 * j - 1 = 4096 * (j - 1) + 4095" using j pos by (cases j) auto
  ultimately have l: "unat (PGROUNDDOWN (va + sz - 1)) = 4096 * (j - 1)" by (simp add: unat_PGROUNDDOWN)
  have a: "PGROUNDDOWN va = va" by (rule unat_eqD) (simp add: unat_PGROUNDDOWN k)
  have kj: "k < j" using k j pos by linarith
  have ml: "map_loop r va (PGROUNDDOWN (va + sz - 1)) pa perm s = Inr (rv, s')" using m sz a by (simp add: mappages_def)
  show ?thesis
  proof (rule map_loop_paid [OF inv ml _ P(1)])
    show "unat (PGROUNDDOWN (va + sz - 1)) = unat va + 4096 * (j - 1 - k)" using l k kj by simp
    fix v :: u64 assume "unat va \<le> unat v" "unat v \<le> unat (PGROUNDDOWN (va + sz - 1))"
    then show "walk_tables v \<subseteq> P" using j kj l by (intro P(2)) auto
  qed
qed

text \<open>The tables of the kernel's five mappings, below the root.\<close>

definition kernel_tables :: "nat list set" where
  "kernel_tables = {[0], [2], [0, 96], [0, 97], [0, 128]} \<union> (\<lambda>j. [2, j]) ` {..<64}"

lemma kernel_tables_card: "finite kernel_tables" "card kernel_tables \<le> 69"
proof -
  show "finite kernel_tables" by (simp add: kernel_tables_def)
  have "card kernel_tables \<le> card {[0], [2], [0, 96], [0, 97], [0, 128 :: nat]} + card ((\<lambda>j. [2, j]) ` {..<64 :: nat})"
    unfolding kernel_tables_def by (rule card_Un_le)
  also have "card ((\<lambda>j. [2, j]) ` {..<64 :: nat}) = 64" by (simp add: card_image inj_on_def)
  finally show "card kernel_tables \<le> 69" by simp
qed

lemma PX_index: "unat (PX 1 v) = unat v div 2097152 mod 512" "unat (PX 2 v) = unat v div 1073741824 mod 512"
  by (simp_all add: unat_PX)

lemma kernel_tables_of:
  "unat v div 2097152 \<in> {96, 97, 128} \<Longrightarrow> walk_tables v \<subseteq> kernel_tables"
  "1024 \<le> unat v div 2097152 \<Longrightarrow> unat v div 2097152 < 1088 \<Longrightarrow> walk_tables v \<subseteq> kernel_tables"
proof -
  have d: "unat v div 1073741824 = unat v div 2097152 div 512" by (simp add: div_mult2_eq [symmetric])
  show "walk_tables v \<subseteq> kernel_tables" if "unat v div 2097152 \<in> {96, 97, 128}"
    using that unfolding walk_tables_def kernel_tables_def PX_index d by auto
  show "walk_tables v \<subseteq> kernel_tables" if t: "1024 \<le> unat v div 2097152" "unat v div 2097152 < 1088"
  proof -
    obtain i where i: "unat v div 2097152 = 1024 + i" "i < 64" using t le_Suc_ex by fastforce
    have e: "1024 + i = i + 512 * 2" by simp
    have "(1024 + i) mod 512 = i" "(1024 + i) div 512 = 2"
      unfolding e mod_mult_self2 using i(2) by (simp_all add: div_mult_self2)
    then have "walk_tables v = {[2], [2, i]}" unfolding walk_tables_def PX_index d i(1) by simp
    moreover have "[2, i] \<in> (\<lambda>j. [2, j]) ` {..<64}" by (rule imageI) (simp add: i(2))
    ultimately show ?thesis unfolding kernel_tables_def by blast
  qed
qed

lemma kernel_ranges:
  "unat UART0 \<le> unat v \<Longrightarrow> unat v < unat UART0 + unat PGSIZE \<Longrightarrow> walk_tables v \<subseteq> kernel_tables"
  "unat PLIC \<le> unat v \<Longrightarrow> unat v < unat PLIC + unat (0x400000 :: u64) \<Longrightarrow> walk_tables v \<subseteq> kernel_tables"
  "unat VIRTIO0 \<le> unat v \<Longrightarrow> unat v < unat VIRTIO0 + unat PGSIZE \<Longrightarrow> walk_tables v \<subseteq> kernel_tables"
  "0x80000000 \<le> unat v \<Longrightarrow> unat v < 0x88000000 \<Longrightarrow> walk_tables v \<subseteq> kernel_tables"
proof -
  have "unat v div 2097152 = 128" if "0x10000000 \<le> unat v" "unat v < 0x10002000" using that by (intro div_nat_eqI) simp_all
  then show "unat UART0 \<le> unat v \<Longrightarrow> unat v < unat UART0 + unat PGSIZE \<Longrightarrow> walk_tables v \<subseteq> kernel_tables"
    "unat VIRTIO0 \<le> unat v \<Longrightarrow> unat v < unat VIRTIO0 + unat PGSIZE \<Longrightarrow> walk_tables v \<subseteq> kernel_tables"
    by (intro kernel_tables_of(1), simp)+
  show "walk_tables v \<subseteq> kernel_tables" if "unat PLIC \<le> unat v" "unat v < unat PLIC + unat (0x400000 :: u64)"
  proof (rule kernel_tables_of(1))
    have "96 \<le> unat v div 2097152" "unat v div 2097152 < 98"
      using that by (simp_all add: less_eq_div_iff_mult_less_eq div_less_iff_less_mult)
    then show "unat v div 2097152 \<in> {96, 97, 128}" by auto
  qed
  show "walk_tables v \<subseteq> kernel_tables" if "0x80000000 \<le> unat v" "unat v < 0x88000000"
    using that by (intro kernel_tables_of(2)) (simp_all add: less_eq_div_iff_mult_less_eq div_less_iff_less_mult)
qed

text \<open>\<open>kvmininit\<close> takes at most 70 pages.\<close>

lemma kvmininit_takes:
  assumes inv: "kmem_inv lk s ps" and "ps \<noteq> []" and ok: "text_ok lk"
    and run: "kvmininit lk s = Inr s'" and k: "kmem_inv lk s' ps'"
  shows "length ps \<le> length ps' + 70"
proof -
  obtain r qs where ps: "ps = r # qs" using \<open>ps \<noteq> []\<close> by (cases ps) auto
  obtain s1 where k1: "kalloc s = (r, s1)" and r0: "r \<noteq> 0"
    using kalloc_Cons [OF inv [unfolded ps]] kmem_inv_Cons [OF inv [unfolded ps]] by (cases "kalloc s") auto
  let ?s2 = "s1\<lparr>kernel_pagetable := r\<rparr>"
  let ?s2 = "?s2\<lparr>memory := zero_page r (memory ?s2)\<rparr>"
  note e = text_okE [OF ok] and sz = text_sizes [OF ok]
  have "described lk r (s1\<lparr>memory := zero_page r (memory s1)\<rparr>) qs (\<lambda>_. None)"
    by (rule fresh_root [OF inv [unfolded ps] k1])
  then have i2: "pt_inv lk ?s2 qs r" by (simp add: described_def pt_inv_def kmem_inv_def)
  obtain v3 s3 v4 s4 v5 s5 v6 s6 v7 where m: "mappages r UART0 UART0 PGSIZE 6 ?s2 = Inr (v3, s3)"
    "mappages r PLIC PLIC 0x400000 6 s3 = Inr (v4, s4)" "mappages r VIRTIO0 VIRTIO0 PGSIZE 6 s4 = Inr (v5, s5)"
    "mappages r KERNBASE KERNBASE (etext lk - KERNBASE) 10 s5 = Inr (v6, s6)"
    "mappages r (etext lk) (etext lk) (PHYSTOP - etext lk) 6 s6 = Inr (v7, s')"
    using run r0 unfolding kvmininit_def k1 Let_def prod.case if_not_P [OF r0]
    by (auto simp only: bindE_eq_Inr prod.case split_paired_Ex sum.inject split: prod.splits)
  let ?P = kernel_tables
  note P = kernel_tables_card(1) and R = kernel_ranges
  obtain p3 where 3: "pt_inv lk s3 p3 r" "paid ?P r (memory ?s2) qs (memory s3) p3"
    using mappages_paid [OF i2 m(1) page_aligned_consts(1,6) _ P R(1)] by auto
  obtain p4 where 4: "pt_inv lk s4 p4 r" "paid ?P r (memory s3) p3 (memory s4) p4"
    using mappages_paid [OF 3(1) m(2) page_aligned_consts(3,8) _ P R(2)] by auto
  obtain p5 where 5: "pt_inv lk s5 p5 r" "paid ?P r (memory s4) p4 (memory s5) p5"
    using mappages_paid [OF 4(1) m(3) page_aligned_consts(2,7) _ P R(3)] by auto
  have al: "page_aligned (KERNBASE + (etext lk - KERNBASE))" "page_aligned (etext lk + (PHYSTOP - etext lk))"
    using e(1) by (simp_all add: page_aligned_def)
  have fit: "unat KERNBASE + unat (etext lk - KERNBASE) \<le> 2 ^ 38" "unat (etext lk) + unat (PHYSTOP - etext lk) \<le> 2 ^ 38"
    using e sz by simp_all
  have RT: "unat KERNBASE \<le> unat v \<Longrightarrow> unat v < unat KERNBASE + unat (etext lk - KERNBASE) \<Longrightarrow> walk_tables v \<subseteq> ?P"
    "unat (etext lk) \<le> unat v \<Longrightarrow> unat v < unat (etext lk) + unat (PHYSTOP - etext lk) \<Longrightarrow> walk_tables v \<subseteq> ?P" for v
    using e sz by (intro R(4); simp)+
  obtain p6 where 6: "pt_inv lk s6 p6 r" "paid ?P r (memory s5) p5 (memory s6) p6"
    using mappages_paid [OF 5(1) m(4) page_aligned_consts(4) al(1) fit(1) P RT(1)] by blast
  obtain p7 where 7: "pt_inv lk s' p7 r" "paid ?P r (memory s6) p6 (memory s') p7"
    using mappages_paid [OF 6(1) m(5) e(1) al(2) fit(2) P RT(2)] by blast
  have "paid ?P r (memory ?s2) qs (memory s') p7"
    using 3(2) 4(2) 5(2) 6(2) 7(2) paid_trans by meson
  moreover have "p7 = ps'" by (rule pool_unique [OF pt_inv_kmem [OF 7(1)] k])
  moreover have "missing ?P (memory ?s2) r \<le> card ?P"
    unfolding missing_def by (rule card_mono [OF P]) auto
  ultimately show ?thesis using kernel_tables_card(2) unfolding paid_def ps by simp
qed

section \<open>Enough pages\<close>

text \<open>The pool \<open>kinit\<close> fills has a page for every 4096 bytes of RAM behind the kernel.\<close>

lemma pool_length:
  assumes "set ps = {p. page_ok lk p}" "unat (end_address lk) + 4096 * n \<le> unat PHYSTOP"
  shows "n \<le> length ps"
proof -
  let ?f = "\<lambda>i :: nat. of_nat (4096 * (557056 - Suc i)) :: u64"
  have n: "n \<le> 557056" using assms(2) by simp
  have u: "unat (?f i) = 4096 * (557056 - Suc i)" for i by (rule unat_of_nat64) simp
  have "inj_on ?f {..<n}"
  proof (rule inj_onI)
    fix i j assume "i \<in> {..<n}" "j \<in> {..<n}" "?f i = ?f j"
    then have "4096 * (557056 - Suc i) = 4096 * (557056 - Suc j)" "i < 557056" "j < 557056"
      using u [of i] u [of j] n by auto
    then show "i = j" by linarith
  qed
  moreover have "page_ok lk (?f i)" if "i < n" for i
  proof -
    have "4096 * Suc i \<le> 4096 * n" "4096 * n \<le> 4096 * 557056" using that n by simp_all
    then have "unat (end_address lk) \<le> 4096 * (557056 - Suc i)" "4096 * (557056 - Suc i) < 4096 * 557056"
      using assms(2) by (simp_all add: diff_mult_distrib2)
    then show ?thesis unfolding page_ok_def page_aligned_def word_le_nat_alt word_less_nat_alt u by simp
  qed
  then have "?f ` {..<n} \<subseteq> set ps" using assms(1) by auto
  ultimately have "card {..<n} \<le> card (set ps)" by (intro card_inj_on_le) auto
  then show ?thesis using card_length [of ps] by simp
qed

text \<open>With more than 70 pages \<open>kvmininit\<close> builds the whole intended map.\<close>

lemma kvmininit_complete:
  assumes "kmem_inv lk s ps" and "70 < length ps" and "text_ok lk"
  obtains s' where "kvmininit lk s = Inr s'" "\<And>va. va < MAXVA \<Longrightarrow> leaf (memory s') (kernel_pagetable s') va = kernel_map lk va"
proof -
  have ne: "ps \<noteq> []" using assms(2) by auto
  obtain s' ps' where b: "kvmininit lk s = Inr s'" "kernel_pagetable s' = hd ps" "described lk (hd ps) s' ps' (kernel_map lk)"
    by (rule kvmininit_builds [OF assms(1) ne assms(3)])
  have "pt_inv lk s' ps' (hd ps)" using b(3) by (simp add: described_def)
  then have "length ps \<le> length ps' + 70" by (intro kvmininit_takes [OF assms(1) ne assms(3) b(1)] pt_inv_kmem)
  then have "ps' \<noteq> []" using assms(2) by auto
  then have "leaf (memory s') (kernel_pagetable s') va = kernel_map lk va" if "va < MAXVA" for va
    using b(2,3) that by (simp add: described_def)
  then show thesis using that [OF b(1)] by blast
qed

text \<open>
  C16: When \<open>kvmininit\<close> returns (before \<open>userinit\<close> opens its two pages to the program), no page in the table it
  has built is both writable and executable, none is open to user mode, the executable ones are exactly those of
  the kernel's text, and every mapped page is mapped to itself; all of RAM is mapped.  A pool of more than
  70 pages is enough.
\<close>

theorem kvmininit_protects:
  assumes "kmem_inv lk s ps" and "70 < length ps" and "text_ok lk"
  shows "\<exists>s'. kvmininit lk s = Inr s' \<and> (\<forall>va. va < MAXVA \<longrightarrow>
    (case leaf (memory s') (kernel_pagetable s') va of
       None \<Rightarrow> va < KERNBASE \<or> PHYSTOP \<le> va
     | Some e \<Rightarrow> e AND PTE_V \<noteq> 0 \<and> e AND PTE_U = 0 \<and> e AND PTE_R \<noteq> 0 \<and> (e AND PTE_W = 0 \<or> e AND PTE_X = 0) \<and>
         (e AND PTE_X \<noteq> 0 \<longleftrightarrow> KERNBASE \<le> va \<and> va < etext lk) \<and> PTE2PA e = PGROUNDDOWN va))"
proof -
  obtain s' where s': "kvmininit lk s = Inr s'"
    "\<And>va. va < MAXVA \<Longrightarrow> leaf (memory s') (kernel_pagetable s') va = kernel_map lk va"
    by (rule kvmininit_complete [OF assms], rule that; assumption)
  have "case kernel_map lk va of None \<Rightarrow> va < KERNBASE \<or> PHYSTOP \<le> va | Some e \<Rightarrow> kernel_page lk va e" if "va < MAXVA" for va
    using kernel_map_page [OF _ assms(3) that] kernel_map_None [OF assms(3), of va] by (cases "kernel_map lk va") simp_all
  then show ?thesis using s' unfolding kernel_page_def by auto
qed

text \<open>A kernel of 128 KB, and the machine before \<open>kinit\<close>.\<close>

definition demo_layout :: symbols where
  "demo_layout = demo_symbols\<lparr>end_address := 0x80020010\<rparr>"

lemma demo_layout_linked: "linked_ok demo_layout"
  by (simp add: linked_ok_def demo_layout_def demo_symbols_def)

theorem kvmininit_protects_witness:
  "\<exists>s s'. kinit demo_layout (demo_boot\<lparr>free_mem_list := 0\<rparr>) = Inr s \<and> kvmininit demo_layout s = Inr s' \<and>
     (case leaf (memory s') (kernel_pagetable s') 0x80000000 of None \<Rightarrow> False | Some e \<Rightarrow> e AND PTE_X \<noteq> 0 \<and> e AND PTE_W = 0)"
proof -
  obtain s ps where k: "kinit demo_layout (demo_boot\<lparr>free_mem_list := 0\<rparr>) = Inr s" "kmem_inv demo_layout s ps"
    "set ps = {p. page_ok demo_layout p}"
    using kinit_fills [OF demo_layout_linked, of "demo_boot\<lparr>free_mem_list := 0\<rparr>"] by auto
  have "71 \<le> length ps" by (rule pool_length [OF k(3)]) (simp add: demo_layout_def)
  then have 2: "70 < length ps" by simp
  have 3: "text_ok demo_layout" by (simp add: text_ok_def demo_layout_def demo_symbols_def page_aligned_def)
  obtain s' where s': "kvmininit demo_layout s = Inr s'" and all: "\<forall>va. va < MAXVA \<longrightarrow>
    (case leaf (memory s') (kernel_pagetable s') va of
       None \<Rightarrow> va < KERNBASE \<or> PHYSTOP \<le> va
     | Some e \<Rightarrow> e AND PTE_V \<noteq> 0 \<and> e AND PTE_U = 0 \<and> e AND PTE_R \<noteq> 0 \<and> (e AND PTE_W = 0 \<or> e AND PTE_X = 0) \<and>
         (e AND PTE_X \<noteq> 0 \<longleftrightarrow> KERNBASE \<le> va \<and> va < etext demo_layout) \<and> PTE2PA e = PGROUNDDOWN va)"
    using kvmininit_protects [OF k(2) 2 3] by blast
  have "(0x80000000 :: u64) < MAXVA" "\<not> ((0x80000000 :: u64) < KERNBASE \<or> PHYSTOP \<le> (0x80000000 :: u64))"
    "KERNBASE \<le> (0x80000000 :: u64) \<and> (0x80000000 :: u64) < etext demo_layout" by (simp_all add: demo_layout_def demo_symbols_def)
  then have "case leaf (memory s') (kernel_pagetable s') 0x80000000 of None \<Rightarrow> False | Some e \<Rightarrow> e AND PTE_X \<noteq> 0 \<and> e AND PTE_W = 0"
    using spec [where x = "0x80000000", OF all] by (auto split: option.splits)
  then show ?thesis using k(1) s' by blast
qed

end
