(* ===== verification/First_Process.thy ===== *)
theory First_Process
  imports Proc_Pages Pool_Count
begin

text \<open>
  \<open>userinit\<close> (\<open>kernel/proc/proc.c\<close>) on the address space \<open>kvmininit\<close> has built: four pages of the pool become the
  trap frame, the kernel stack, the code and the stack of the first process, and exactly the last two are opened to user mode.
\<close>

section \<open>A page table and the pages of other parts of the kernel\<close>

text \<open>The tree at \<open>r\<close> translates as \<open>L\<close> says, and the pages \<open>Q\<close> are neither free nor tables.\<close>

definition kspace :: "symbols \<Rightarrow> 'a kmem_scheme \<Rightarrow> u64 list \<Rightarrow> u64 \<Rightarrow> (u64 \<Rightarrow> u64 option) \<Rightarrow> u64 set \<Rightarrow> bool" where
  "kspace lk s ps r L Q \<longleftrightarrow> pt_inv lk s ps r \<and> (\<forall>va. va < MAXVA \<longrightarrow> leaf (memory s) r va = L va) \<and>
     (\<forall>q \<in> Q. owned_elsewhere s ps r q)"

lemma kspace_same:
  "kspace lk s ps r L Q \<Longrightarrow> memory t = memory s \<Longrightarrow> free_mem_list t = free_mem_list s \<Longrightarrow> kspace lk t ps r L Q"
  by (simp add: kspace_def pt_inv_def kmem_inv_def owned_elsewhere_def)

lemma kspace_kmem: "kspace lk s ps r L Q \<Longrightarrow> kmem_inv lk s ps"
  by (simp add: kspace_def pt_inv_def)

lemma kspace_kalloc:
  fixes s :: "'a kmem_scheme"
  assumes sp: "kspace lk s (p # ps) r L Q"
  obtains m fl where "kalloc s = (p, s\<lparr>memory := m, free_mem_list := fl\<rparr>)" "m = zero_page p (memory s)" "page_ok lk p" "p \<noteq> 0" "p \<notin> Q"
    "kspace lk (s\<lparr>memory := m, free_mem_list := fl\<rparr>) ps r L (insert p Q)"
proof -
  have inv: "pt_inv lk s (p # ps) r" using sp by (simp add: kspace_def)
  let ?s1 = "s\<lparr>memory := zero_page p (memory s), free_mem_list := load64 (memory s) p\<rparr>"
  have sw: "s\<lparr>free_mem_list := a, memory := b\<rparr> = s\<lparr>memory := b, free_mem_list := a\<rparr>" for a b by (cases s) simp
  have k: "kalloc s = (p, ?s1)" using kalloc_Cons(1) [OF pt_inv_kmem [OF inv]] by (simp add: sw)
  note kt = kalloc_tree [OF inv k]
  have "owned_elsewhere ?s1 ps r p"
    using kt(4,6,8,9) page_ok_aligned by (simp add: owned_elsewhere_def)
  moreover have "owned_elsewhere ?s1 ps r q" if "q \<in> Q" for q
    using kt(2) sp that by (auto simp: kspace_def tree_grows_def)
  ultimately have 1: "kspace lk ?s1 ps r L (insert p Q)"
    using kt(2,3) sp by (auto simp: kspace_def tree_grows_def)
  have "p \<notin> Q" using sp by (auto simp: kspace_def owned_elsewhere_def)
  then show thesis by (intro that [OF k refl kt(4,5)] 1) simp_all
qed

text \<open>Writing to a page of another part of the kernel.\<close>

lemma kspace_write:
  assumes sp: "kspace lk s ps r L Q" and q: "q \<in> Q" and out: "\<And>x. \<not> in_page q x \<Longrightarrow> m x = memory s x"
  shows "kspace lk (s\<lparr>memory := m\<rparr>) ps r L Q"
proof -
  have inv: "pt_inv lk s ps r" and own: "owned_elsewhere s ps r q" using sp q by (auto simp: kspace_def)
  have far: "m x = memory s x" if "page_aligned t" "t \<noteq> q" "in_page t x" for t x
    using that out own in_page_unique unfolding owned_elsewhere_def by blast
  have same: "load64 m (entry t i) = load64 (memory s) (entry t i)"
    if "path_ok js" "table (memory s) r js = Some t" "i < 512" for js t i
    using that pt_inv_table [OF inv that(1,2)] own far by (intro load64_entry_cong) (auto simp: owned_elsewhere_def)
  have T: "table m r is = table (memory s) r is" if "path_ok is" for "is"
    using that path_ok_prefix by (intro table_agree same) (auto simp: path_ok_def)
  have Lf: "leaf m r va = leaf (memory s) r va" for va by (intro leaf_agree T same) auto
  have "kmem_inv lk (s\<lparr>memory := m\<rparr>) ps"
  proof (rule kmem_inv_frame [OF pt_inv_kmem [OF inv]])
    fix p x assume p: "p \<in> set ps" "in_page p x"
    then have "page_aligned p" "p \<noteq> q"
      using pool_props(2) [OF pt_inv_kmem [OF inv]] page_ok_aligned own by (auto simp: owned_elsewhere_def)
    then show "memory s x = m x" using far p(2) by metis
  qed
  then have "pt_inv lk (s\<lparr>memory := m\<rparr>) ps r" by (rule pt_inv_same_tables [OF inv]) (simp_all add: T)
  then show ?thesis using sp T Lf by (simp add: kspace_def owned_elsewhere_def)
qed

text \<open>\<open>*walk(pagetable, va, 0) |= bits\<close> on a page that is mapped.\<close>

lemma kspace_or:
  assumes sp: "kspace lk s ps r L Q" and va: "va < MAXVA" and e: "L va = Some e"
  obtains pte where "walk r va False s = Inr (pte, s)" "pte \<noteq> 0" "load64 (memory s) pte = e"
    "kspace lk (s\<lparr>memory := store64 (memory s) pte (e OR bits)\<rparr>) ps r
       (\<lambda>v. if unat v div 4096 = unat va div 4096 then Some (e OR bits) else L v) Q"
    "\<And>q x. q \<in> Q \<Longrightarrow> in_page q x \<Longrightarrow> store64 (memory s) pte (e OR bits) x = memory s x"
proof -
  let ?p = "[unat (PX 2 va), unat (PX 1 va)]" and ?i = "unat (PX 0 va)"
  have inv: "pt_inv lk s ps r" and lf: "leaf (memory s) r va = Some e" using sp va e by (auto simp: kspace_def)
  have ok: "path_ok ?p" by (simp add: path_ok_def PX_less)
  obtain t where t: "table (memory s) r ?p = Some t" using lf by (cases "table (memory s) r ?p") (auto simp: leaf_no_table)
  have ld: "load64 (memory s) (entry t ?i) = e" "e AND PTE_V \<noteq> 0"
    using leaf_table [OF t] lf by (auto split: if_splits)
  have nz: "entry t ?i \<noteq> 0" by (rule table_entry_nonzero [OF inv ok t PX_less])
  have wl: "walk_levels l pt va False s = (table (memory s) pt (walk_path l va), s)" for l pt
    by (induction l arbitrary: pt) (simp_all add: Let_def next_table_def)
  have "walk_path 2 va = ?p" by (simp add: numeral_2_eq_2)
  then have w: "walk r va False s = Inr (entry t ?i, s)" using va t unfolding walk_def wl by simp
  let ?m = "store64 (memory s) (entry t ?i) (e OR bits)"
  note st = store_leaf [OF inv t refl, where e = "e OR bits"]
  have "(e OR bits) AND PTE_V \<noteq> 0" using ld(2) by (metis bit.conj_disj_distrib2 or_eq_0_iff)
  then have lv: "leaf ?m r v = (if unat v div 4096 = unat va div 4096 then Some (e OR bits) else L v)" if "v < MAXVA" for v
    unfolding st(3) same_index_iff [OF va that] using sp that by (simp add: kspace_def)
  have far: "?m x = memory s x" if "q \<in> Q" "in_page q x" for q x
  proof -
    have "owned_elsewhere s ps r q" using that(1) sp by (simp add: kspace_def)
    then have "page_aligned q" "q \<noteq> t" "page_aligned t"
      using t ok pt_inv_table [OF inv ok t] unfolding owned_elsewhere_def by metis+
    then have "\<not> in_page t x" using that(2) in_page_unique by blast
    then show ?thesis using store64_entry_outside \<open>page_aligned t\<close> PX_less by simp
  qed
  have "kspace lk (s\<lparr>memory := ?m\<rparr>) ps r (\<lambda>v. if unat v div 4096 = unat va div 4096 then Some (e OR bits) else L v) Q"
    using st(1,2) lv sp by (simp add: kspace_def owned_elsewhere_def)
  then show thesis using that [OF w nz ld(1)] far by blast
qed

section \<open>userinit\<close>

text \<open>What the first process can reach: the kernel's address space, with its code and its stack open to user mode.\<close>

definition first_map :: "symbols \<Rightarrow> u64 \<Rightarrow> u64 \<Rightarrow> u64 \<Rightarrow> u64 option" where
  "first_map lk cp sp va = map_option (\<lambda>e. if PGROUNDDOWN va = cp then e OR (PTE_X OR PTE_U)
     else if PGROUNDDOWN va = sp then e OR PTE_U else e) (kernel_map lk va)"

text \<open>\<open>code\<close> is in memory from \<open>a\<close> on.\<close>

definition loaded :: "u64 \<Rightarrow> u8 list \<Rightarrow> mem \<Rightarrow> bool" where
  "loaded a code m \<longleftrightarrow> (\<forall>i < length code. m (a + of_nat i) = code ! i)"

text \<open>A page of the pool is mapped by the kernel, readable and writable.\<close>

lemma kernel_map_pool_page:
  assumes "page_ok lk p" "linked_ok lk"
  shows "p < MAXVA" "PGROUNDDOWN w = p \<Longrightarrow> kernel_map lk w = Some (PA2PTE p OR (PTE_R OR PTE_W) OR PTE_V)"
    "unat v div 4096 = unat p div 4096 \<longleftrightarrow> PGROUNDDOWN v = p"
proof -
  have al: "page_aligned p" using assms(1) by (simp add: page_ok_def)
  have r: "etext lk \<le> p" "p < PHYSTOP" using assms by (auto simp: page_ok_def linked_ok_def)
  show "p < MAXVA" using r(2) by (simp add: word_less_nat_alt)
  obtain k where k: "unat p = 4096 * k" using al by (rule page_alignedE)
  show "kernel_map lk w = Some (PA2PTE p OR (PTE_R OR PTE_W) OR PTE_V)" if "PGROUNDDOWN w = p" for w
  proof -
    have "unat p = unat w - unat w mod 4096" using that by (auto simp: unat_PGROUNDDOWN)
    then have "unat p \<le> unat w" "unat w < unat p + 4096" by (simp_all add: minus_mod_eq_div_mult)
    moreover have "4096 * k < 4096 * 557056" using r(2) k by (simp add: word_less_nat_alt)
    ultimately have "p \<le> w" "w < PHYSTOP" using k by (simp_all add: word_le_nat_alt word_less_nat_alt)
    moreover from this(1) have "etext lk \<le> w" using r(1) by simp
    ultimately show ?thesis using that by (simp add: kernel_map_def)
  qed
  show "unat v div 4096 = unat p div 4096 \<longleftrightarrow> PGROUNDDOWN v = p"
  proof
    show "unat v div 4096 = unat p div 4096 \<Longrightarrow> PGROUNDDOWN v = p" by (rule PGROUNDDOWN_page [OF al])
    show "PGROUNDDOWN v = p \<Longrightarrow> unat v div 4096 = unat p div 4096"
      by (auto simp: unat_PGROUNDDOWN minus_mod_eq_div_mult)
  qed
qed

lemma put_code_eq:
  assumes "length code \<le> 4096"
  shows "loaded p code (put_code p code m)" "\<not> in_page p x \<Longrightarrow> put_code p code m x = m x"
proof -
  have gen: "fold (\<lambda>i m. m(p + of_nat i := code ! i)) [0..<n] m = (\<lambda>x. if unat (x - p) < n then code ! unat (x - p) else m x)"
    if "n \<le> 4096" for n
    using that
  proof (induction n)
    case (Suc n)
    have "x = p + of_nat n \<longleftrightarrow> unat (x - p) = n" for x
    proof
      show "x = p + of_nat n \<Longrightarrow> unat (x - p) = n" using Suc.prems by (simp add: unat_of_nat64)
      show "unat (x - p) = n \<Longrightarrow> x = p + of_nat n" by auto
    qed
    then show ?case using Suc by (auto simp: fun_eq_iff less_Suc_eq)
  qed simp
  have e: "put_code p code m = (\<lambda>x. if unat (x - p) < length code then code ! unat (x - p) else m x)"
    unfolding put_code_def by (rule gen [OF assms])
  show "loaded p code (put_code p code m)" using assms by (simp add: loaded_def e unat_of_nat64)
  show "\<not> in_page p x \<Longrightarrow> put_code p code m x = m x" using assms by (simp add: e in_page_def)
qed

lemma loaded_cong:
  assumes "loaded p code m" "length code \<le> 4096" "\<And>x. in_page p x \<Longrightarrow> m' x = m x"
  shows "loaded p code m'"
  using assms unfolding loaded_def by (auto simp: in_page_def unat_of_nat64)

text \<open>The slot of the process when \<open>userinit\<close> is through.\<close>

definition first_pcb :: "symbols \<Rightarrow> i32 \<Rightarrow> u64 \<Rightarrow> u64 \<Rightarrow> u64 \<Rightarrow> pcb \<Rightarrow> pcb" where
  "first_pcb lk pid r tf ks f = f\<lparr>p_pid := pid, p_trapframe := tf, p_status := TASK_READY, p_parent := None, p_chan := None,
     p_killed := 0, p_xstate := 0, p_context := (new_context lk)\<lparr>ctx_sp := ks + PGSIZE\<rparr>, p_kstack := ks, p_pagetable := r,
     p_sz := PGSIZE * 2, p_name := (\<lambda>i. if i \<le> 8 then proczero_name i else p_name f i)\<rparr>"

text \<open>The trap frame \<open>userinit\<close> writes.\<close>

lemma first_trapframe:
  fixes m :: mem and tf cp sp :: u64
  assumes tf: "page_aligned tf"
  defines "m' \<equiv> store64 (store64 (zero_page tf m) (entry tf TF_epc) cp) (entry tf TF_sp) sp"
  shows "i < 512 \<Longrightarrow> load64 m' (entry tf i) = (if i = TF_epc then cp else if i = TF_sp then sp else 0)"
    and "\<not> in_page tf x \<Longrightarrow> m' x = m x"
proof -
  have lt: "TF_epc < 512" "TF_sp < 512" by (simp_all add: TF_defs)
  show "load64 m' (entry tf i) = (if i = TF_epc then cp else if i = TF_sp then sp else 0)" if i: "i < 512"
    unfolding m'_def load64_page_store [OF tf tf lt(2) i] load64_page_store [OF tf tf lt(1) i] load64_zero_page [OF tf i]
    by (simp add: TF_defs)
  show "\<not> in_page tf x \<Longrightarrow> m' x = m x"
    unfolding m'_def using store64_entry_outside [OF tf lt(1)] store64_entry_outside [OF tf lt(2)] by (simp add: zero_page_eq)
qed

lemma allocproc_first:
  fixes s :: "'a procs_scheme"
  assumes sp: "kspace lk s (tf # ps) r L Q" and q: "free_slot s = Some q" and pid: "nextpid s \<noteq> 0x7fffffff"
  obtains m fl where "allocproc lk s = Inr (Some q, s\<lparr>memory := m, free_mem_list := fl, nextpid := nextpid s + 1,
      proc := (proc s)(q := (proc s q)\<lparr>p_pid := nextpid s, p_trapframe := tf, p_status := TASK_ALLOCATED,
        p_parent := None, p_chan := None, p_killed := 0, p_xstate := 0, p_context := new_context lk\<rparr>),
      resume := (resume s)(q := Forkret), point := (point s)(q := Running_code)\<rparr>)"
    "page_ok lk tf"
    "\<And>t :: 'a procs_scheme. memory t = m \<Longrightarrow> free_mem_list t = fl \<Longrightarrow> kspace lk t ps r L (insert tf Q)"
proof -
  obtain m fl where k: "kalloc s = (tf, s\<lparr>memory := m, free_mem_list := fl\<rparr>)" "m = zero_page tf (memory s)" "tf \<noteq> 0"
    "kspace lk (s\<lparr>memory := m, free_mem_list := fl\<rparr>) ps r L (insert tf Q)" "page_ok lk tf"
    by (rule kspace_kalloc [OF sp], rule that; assumption)
  have f: "find (\<lambda>p. p_status (proc s p) = TASK_FREE) [0..<NPROC] = Some q" using q by (simp add: free_slot_def)
  let ?s2 = "upd_proc q (\<lambda>f. f\<lparr>p_pid := nextpid s\<rparr>) (s\<lparr>nextpid := nextpid s + 1\<rparr>)"
  have k2: "kalloc ?s2 = (tf, ?s2\<lparr>memory := m, free_mem_list := fl\<rparr>)" by (rule kalloc_cong [OF k(1)]) simp_all
  have "allocproc lk s = Inr (Some q, s\<lparr>memory := m, free_mem_list := fl, nextpid := nextpid s + 1,
      proc := (proc s)(q := (proc s q)\<lparr>p_pid := nextpid s, p_trapframe := tf, p_status := TASK_ALLOCATED,
        p_parent := None, p_chan := None, p_killed := 0, p_xstate := 0, p_context := new_context lk\<rparr>),
      resume := (resume s)(q := Forkret), point := (point s)(q := Running_code)\<rparr>)"
    unfolding allocproc_def f option.case allocpid_def if_not_P [OF pid] bindE_Inr prod.case Let_def k2 if_not_P [OF k(3)]
    by (cases s) (simp add: upd_proc_def)
  then show thesis by (intro that [OF _ k(5)] kspace_same [OF k(4)]) simp_all
qed

text \<open>The state while \<open>userinit\<close> fills slot \<open>q\<close>: only the memory, the free list and the table change.\<close>

definition filling :: "'a procs_scheme \<Rightarrow> nat \<Rightarrow> mem \<Rightarrow> u64 \<Rightarrow> (nat \<Rightarrow> pcb) \<Rightarrow> 'a procs_scheme" where
  "filling s q m fl P = s\<lparr>memory := m, free_mem_list := fl, nextpid := nextpid s + 1, proc := P,
     resume := (resume s)(q := Forkret), point := (point s)(q := Running_code)\<rparr>"

lemma filling_sel:
  "memory (filling s q m fl P) = m" "free_mem_list (filling s q m fl P) = fl" "proc (filling s q m fl P) = P"
  "kernel_pagetable (filling s q m fl P) = kernel_pagetable s"
  by (simp_all add: filling_def)

lemma filling_upd:
  "upd_proc q f (filling s q m fl P) = filling s q m fl (P(q := f (P q)))"
  "(filling s q m fl P)\<lparr>memory := m'\<rparr> = filling s q m' fl P"
  "or_pte c bits (filling s q m fl P) = filling s q (store64 m c (load64 m c OR bits)) fl P"
  by (cases s; simp add: filling_def upd_proc_def or_pte_def)+

lemma filling_any: "kspace lk (filling s q m fl P) ps r L Q \<Longrightarrow> kspace lk (filling s q m fl P') ps r L Q"
  by (erule kspace_same) (simp_all add: filling_sel)

lemma filling_kalloc:
  assumes "kspace lk (filling s q m fl P) (p # ps) r L Q"
  obtains fl' where "\<And>P. kalloc (filling s q m fl P) = (p, filling s q (zero_page p m) fl' P)" "page_ok lk p" "p \<noteq> 0" "p \<notin> Q"
    "\<And>P. kspace lk (filling s q (zero_page p m) fl' P) ps r L (insert p Q)"
proof -
  obtain m' fl' where k: "kalloc (filling s q m fl P) = (p, (filling s q m fl P)\<lparr>memory := m', free_mem_list := fl'\<rparr>)"
    "m' = zero_page p m" "page_ok lk p" "p \<noteq> 0" "p \<notin> Q"
    "kspace lk ((filling s q m fl P)\<lparr>memory := m', free_mem_list := fl'\<rparr>) ps r L (insert p Q)"
    by (rule kspace_kalloc [OF assms, unfolded filling_sel], rule that; assumption)
  have e: "(filling s q m fl P)\<lparr>memory := m', free_mem_list := fl'\<rparr> = filling s q m' fl' P" for P
    by (cases s) (simp add: filling_def)
  have "kalloc (filling s q m fl P') = (p, filling s q m' fl' P')" for P'
    using kalloc_cong [OF k(1), of "filling s q m fl P'"] by (simp add: filling_sel e)
  then show thesis using that k(3-5) filling_any [OF k(6) [unfolded e]] unfolding k(2) by blast
qed

text \<open>Opening a page of the process to user mode.\<close>

lemma filling_open:
  assumes sp: "kspace lk (filling s q m fl P) ps r L Q" and pg: "page_ok lk p" and lk: "linked_ok lk"
    and L: "L p = kernel_map lk p"
  obtains c where "\<And>P. walk r p False (filling s q m fl P) = Inr (c, filling s q m fl P)" "c \<noteq> 0"
    "\<And>P. kspace lk (filling s q (store64 m c (load64 m c OR bits)) fl P) ps r
       (\<lambda>v. if PGROUNDDOWN v = p then map_option (\<lambda>e. e OR bits) (kernel_map lk v) else L v) Q"
    "\<And>q x. q \<in> Q \<Longrightarrow> in_page q x \<Longrightarrow> store64 m c (load64 m c OR bits) x = m x"
proof -
  note kp = kernel_map_pool_page [OF pg lk]
  define e where "e = PA2PTE p OR (PTE_R OR PTE_W) OR PTE_V"
  have rd: "PGROUNDDOWN p = p" using PGROUNDDOWN_page [OF page_ok_aligned [OF pg] refl] .
  have Le: "L p = Some e" unfolding L e_def by (rule kp(2) [OF rd])
  obtain c where c: "walk r p False (filling s q m fl P) = Inr (c, filling s q m fl P)" "c \<noteq> 0" "load64 m c = e"
    "kspace lk (filling s q (store64 m c (e OR bits)) fl P) ps r
       (\<lambda>v. if PGROUNDDOWN v = p then Some (e OR bits) else L v) Q"
    "\<And>q x. q \<in> Q \<Longrightarrow> in_page q x \<Longrightarrow> store64 m c (e OR bits) x = m x"
    by (rule kspace_or [OF sp kp(1) Le, unfolded filling_sel filling_upd kp(3)], rule that; assumption)
  have "(if PGROUNDDOWN v = p then Some (e OR bits) else L v) =
      (if PGROUNDDOWN v = p then map_option (\<lambda>e. e OR bits) (kernel_map lk v) else L v)" for v
    using kp(2) [of v] by (simp add: e_def)
  moreover have "walk r p False (filling s q m fl P') = Inr (c, filling s q m fl P')" for P'
  proof -
    have wl: "walk_levels l pt va False u = (table (memory u) pt (walk_path l va), u)" for l pt va and u :: "'a procs_scheme"
      by (induction l arbitrary: pt) (simp_all add: Let_def next_table_def)
    show ?thesis using c(1) unfolding walk_def wl filling_sel by (auto split: if_splits option.splits)
  qed
  ultimately show thesis using that [OF _ c(2)] filling_any [OF c(4)] c(3,5) by simp
qed

text \<open>The code page and the stack page.\<close>

lemma userinit_pages:
  assumes sp: "kspace lk (filling s q m fl P) (cp # sp # ps) r (kernel_map lk) Q" and len: "length code \<le> 4096" and lk: "linked_ok lk"
  obtains f3 c f6 d m' where
    "\<And>P. kalloc (filling s q m fl P) = (cp, filling s q (zero_page cp m) f3 P)" "cp \<noteq> 0"
    "\<And>P. walk r cp False (filling s q (put_code cp code (zero_page cp m)) f3 P) =
       Inr (c, filling s q (put_code cp code (zero_page cp m)) f3 P)" "c \<noteq> 0"
    "\<And>P. kalloc (or_pte c (PTE_X OR PTE_U) (filling s q (put_code cp code (zero_page cp m)) f3 P)) = (sp, filling s q m' f6 P)" "sp \<noteq> 0"
    "\<And>P. walk r sp False (filling s q m' f6 P) = Inr (d, filling s q m' f6 P)" "d \<noteq> 0"
    "\<And>P. kspace lk (or_pte d PTE_U (filling s q m' f6 P)) ps r (first_map lk cp sp) (insert sp (insert cp Q))"
    "loaded cp code (store64 m' d (load64 m' d OR PTE_U))" "\<And>x. in_page sp x \<Longrightarrow> store64 m' d (load64 m' d OR PTE_U) x = 0"
    "page_ok lk cp" "page_ok lk sp" "cp \<notin> Q" "sp \<notin> insert cp Q"
proof -
  obtain f3 where k3: "\<And>P. kalloc (filling s q m fl P) = (cp, filling s q (zero_page cp m) f3 P)" "page_ok lk cp" "cp \<noteq> 0" "cp \<notin> Q"
    and s3: "\<And>P. kspace lk (filling s q (zero_page cp m) f3 P) (sp # ps) r (kernel_map lk) (insert cp Q)"
    by (rule filling_kalloc [OF sp], rule that; assumption)
  define m4 where "m4 = put_code cp code (zero_page cp m)"
  have s4: "kspace lk (filling s q m4 f3 P) (sp # ps) r (kernel_map lk) (insert cp Q)"
    using kspace_write [OF s3 [of P], of cp m4] put_code_eq(2) [OF len] by (simp add: filling_sel filling_upd m4_def)
  have l4: "loaded cp code m4" unfolding m4_def by (rule put_code_eq(1) [OF len])
  let ?L = "\<lambda>v. if PGROUNDDOWN v = cp then map_option (\<lambda>e. e OR (PTE_X OR PTE_U)) (kernel_map lk v) else kernel_map lk v"
  obtain c where w5: "\<And>P. walk r cp False (filling s q m4 f3 P) = Inr (c, filling s q m4 f3 P)" "c \<noteq> 0"
    and s5: "\<And>P. kspace lk (filling s q (store64 m4 c (load64 m4 c OR (PTE_X OR PTE_U))) f3 P) (sp # ps) r ?L (insert cp Q)"
    and o5: "\<And>p x. p \<in> insert cp Q \<Longrightarrow> in_page p x \<Longrightarrow> store64 m4 c (load64 m4 c OR (PTE_X OR PTE_U)) x = m4 x"
    by (rule filling_open [OF s4 k3(2) lk refl, where bits = "PTE_X OR PTE_U"], rule that; assumption)
  define m5 where "m5 = store64 m4 c (load64 m4 c OR (PTE_X OR PTE_U))"
  obtain f6 where k6: "\<And>P. kalloc (filling s q m5 f3 P) = (sp, filling s q (zero_page sp m5) f6 P)" "page_ok lk sp" "sp \<noteq> 0"
      "sp \<notin> insert cp Q"
    and s6: "\<And>P. kspace lk (filling s q (zero_page sp m5) f6 P) ps r ?L (insert sp (insert cp Q))"
    by (rule filling_kalloc [OF s5, folded m5_def], rule that; assumption)
  define m6 where "m6 = zero_page sp m5"
  have ne: "sp \<noteq> cp" using k6(4) by simp
  have "PGROUNDDOWN sp = sp" using PGROUNDDOWN_page [OF page_ok_aligned [OF k6(2)] refl] .
  then have Lsp: "?L sp = kernel_map lk sp" using ne by simp
  obtain d where w7: "\<And>P. walk r sp False (filling s q m6 f6 P) = Inr (d, filling s q m6 f6 P)" "d \<noteq> 0"
    and s7: "\<And>P. kspace lk (filling s q (store64 m6 d (load64 m6 d OR PTE_U)) f6 P) ps r
       (\<lambda>v. if PGROUNDDOWN v = sp then map_option (\<lambda>e. e OR PTE_U) (kernel_map lk v) else ?L v) (insert sp (insert cp Q))"
    and o7: "\<And>p x. p \<in> insert sp (insert cp Q) \<Longrightarrow> in_page p x \<Longrightarrow> store64 m6 d (load64 m6 d OR PTE_U) x = m6 x"
    by (rule filling_open [OF s6 k6(2) lk Lsp, folded m6_def, where bits = PTE_U], rule that; assumption)
  have fm: "(\<lambda>v. if PGROUNDDOWN v = sp then map_option (\<lambda>e. e OR PTE_U) (kernel_map lk v) else ?L v) = first_map lk cp sp"
    using ne by (auto simp: first_map_def fun_eq_iff option.map_ident)
  have l7: "loaded cp code (store64 m6 d (load64 m6 d OR PTE_U))"
  proof (rule loaded_cong [OF l4 len])
    fix x assume x: "in_page cp x"
    have "\<not> in_page sp x" using other_page [OF k6(2) k3(2) ne x] .
    then show "store64 m6 d (load64 m6 d OR PTE_U) x = m4 x"
      using o7 [OF _ x] o5 [OF _ x] by (simp add: m6_def m5_def zero_page_eq)
  qed
  have z7: "store64 m6 d (load64 m6 d OR PTE_U) x = 0" if "in_page sp x" for x
    using o7 [OF _ that] that by (simp add: m6_def zero_page_eq)
  show thesis
    by (rule that [of f3 c m6 f6 d, folded m4_def, unfolded filling_upd(3), folded m5_def];
      fact k3(1) k3(3) w5 k6(1) [folded m6_def] k6(3) w7 s7 [unfolded fm] l7 z7 k3(2,4) k6(2,4))
qed

text \<open>\<open>userinit\<close> as a whole.\<close>

lemma userinit_ok:
  fixes s :: "'a procs_scheme"
  assumes sp: "kspace lk s (tf # ks # cp # sp # ps) (kernel_pagetable s) (kernel_map lk) {}"
    and q: "free_slot s = Some q" and len: "length code \<le> 4096" and pid: "nextpid s = 1"
  obtains m fl c where "userinit lk code s = Inr (s\<lparr>memory := m, free_mem_list := fl, console_out := c,
      nextpid := nextpid s + 1, proc := (proc s)(q := first_pcb lk (nextpid s) (kernel_pagetable s) tf ks (proc s q)),
      resume := (resume s)(q := Forkret), point := (point s)(q := Running_code)\<rparr>)"
    "\<And>t :: 'a procs_scheme. memory t = m \<Longrightarrow> free_mem_list t = fl \<Longrightarrow>
       kspace lk t ps (kernel_pagetable s) (first_map lk cp sp) {tf, ks, cp, sp}"
    "loaded cp code m" "\<And>x. in_page sp x \<Longrightarrow> m x = 0" "distinct [tf, ks, cp, sp]" "\<forall>p \<in> {tf, ks, cp, sp}. page_ok lk p"
    "\<And>i. i < 512 \<Longrightarrow> load64 m (entry tf i) = (if i = TF_epc then cp else if i = TF_sp then sp + PGSIZE else 0)"
proof -
  let ?r = "kernel_pagetable s" and ?t = "filling s q"
  have pid': "nextpid s \<noteq> 0x7fffffff" by (simp add: pid)
  have lk: "linked_ok lk" using kspace_kmem [OF sp] by (simp add: kmem_inv_def)
  define P1 where "P1 = (proc s)(q := (proc s q)\<lparr>p_pid := nextpid s, p_trapframe := tf, p_status := TASK_ALLOCATED,
        p_parent := None, p_chan := None, p_killed := 0, p_xstate := 0, p_context := new_context lk\<rparr>)"
  obtain m1 f1 where a: "allocproc lk s = Inr (Some q, ?t m1 f1 P1)" "page_ok lk tf"
    and s1: "\<And>t :: 'a procs_scheme. memory t = m1 \<Longrightarrow> free_mem_list t = f1 \<Longrightarrow>
      kspace lk t (ks # cp # sp # ps) ?r (kernel_map lk) {tf}"
    by (rule allocproc_first [OF sp q pid', folded P1_def, folded filling_def], rule that; assumption)
  have s1': "kspace lk (?t m1 f1 P) (ks # cp # sp # ps) ?r (kernel_map lk) {tf}" for P by (rule s1) (simp_all add: filling_sel)
  obtain f2 where k2: "\<And>P. kalloc (?t m1 f1 P) = (ks, ?t (zero_page ks m1) f2 P)" "page_ok lk ks" "ks \<noteq> 0" "ks \<notin> {tf}"
    and s2: "\<And>P. kspace lk (?t (zero_page ks m1) f2 P) (cp # sp # ps) ?r (kernel_map lk) {ks, tf}"
    by (rule filling_kalloc [OF s1'], rule that; assumption)
  obtain f3 c f6 d m6 where pages: "\<And>P. kalloc (?t (zero_page ks m1) f2 P) = (cp, ?t (zero_page cp (zero_page ks m1)) f3 P)" "cp \<noteq> 0"
    "\<And>P. walk ?r cp False (?t (put_code cp code (zero_page cp (zero_page ks m1))) f3 P) =
       Inr (c, ?t (put_code cp code (zero_page cp (zero_page ks m1))) f3 P)" "c \<noteq> 0"
    "\<And>P. kalloc (or_pte c (PTE_X OR PTE_U) (?t (put_code cp code (zero_page cp (zero_page ks m1))) f3 P)) = (sp, ?t m6 f6 P)" "sp \<noteq> 0"
    "\<And>P. walk ?r sp False (?t m6 f6 P) = Inr (d, ?t m6 f6 P)" "d \<noteq> 0"
    "\<And>P. kspace lk (or_pte d PTE_U (?t m6 f6 P)) ps ?r (first_map lk cp sp) {sp, cp, ks, tf}"
    "loaded cp code (store64 m6 d (load64 m6 d OR PTE_U))" "\<And>x. in_page sp x \<Longrightarrow> store64 m6 d (load64 m6 d OR PTE_U) x = 0"
    "page_ok lk cp" "page_ok lk sp" "cp \<notin> {ks, tf}" "sp \<notin> {cp, ks, tf}"
    by (rule userinit_pages [OF s2 len lk], rule that; assumption)
  define m7 where "m7 = store64 m6 d (load64 m6 d OR PTE_U)"
  define m8 where "m8 = store64 (store64 (zero_page tf m7) (entry tf TF_epc) cp) (entry tf TF_sp) (sp + PGSIZE)"
  note tfr = first_trapframe [OF page_ok_aligned [OF a(2)], where m = m7 and cp = cp and sp = "sp + PGSIZE", folded m8_def]
  have s8: "kspace lk (?t m8 f6 P) ps ?r (first_map lk cp sp) {sp, cp, ks, tf}" for P
    using kspace_write [OF pages(9) [of P, unfolded filling_upd(3), folded m7_def], of tf m8] tfr(2) by (simp add: filling_sel filling_upd)
  have other: "m8 x = m7 x" if "p \<in> {cp, sp}" "in_page p x" for p x
    using tfr(2) that other_page [OF a(2), of p x] pages(12-15) by auto
  have l8: "loaded cp code m8" by (rule loaded_cong [OF pages(10) [folded m7_def] len other]) simp_all
  have z8: "m8 x = 0" if "in_page sp x" for x using other [OF _ that] pages(11) [OF that, folded m7_def] by simp
  define P2 where "P2 = P1(q := (P1 q)\<lparr>p_kstack := ks\<rparr>)"
  define P3 where "P3 = P2(q := (P2 q)\<lparr>p_context := (p_context (P2 q))\<lparr>ctx_sp := ks + PGSIZE\<rparr>\<rparr>)"
  define P4 where "P4 = P3(q := first_pcb lk (nextpid s) ?r tf ks (proc s q))"
  have tfq: "p_trapframe (P3 q) = tf" and pn: "p_name (P3 q) = p_name (proc s q)" by (simp_all add: P3_def P2_def P1_def)
  have P4: "P3(q := (P3 q)\<lparr>p_pagetable := ?r, p_sz := PGSIZE * 2, p_name := (\<lambda>i. if i \<le> 8 then proczero_name i else p_name (P3 q) i),
      p_parent := None, p_status := TASK_READY\<rparr>) = P4"
    unfolding P4_def pn unfolding P3_def P2_def P1_def by (cases "proc s q") (simp add: first_pcb_def new_context_def cong del: if_weak_cong)
  have pid4: "p_pid (P4 q) \<noteq> 0x80000000" by (simp add: P4_def first_pcb_def pid)
  obtain c' where pr: "printf (Some (ascii ''userinit: proczero created (pid=%d, epc=%p, sp=%p)'' @ [0x0a]))
      [VInt (p_pid (P4 q)), VLong cp, VLong (sp + PGSIZE)] (?t m8 f6 P4) = Inr ((?t m8 f6 P4)\<lparr>console_out := c'\<rparr>)"
    using printf_ok [OF kernel_formats(2) [THEN iffD2, OF pid4]] by blast
  have sel: "kernel_pagetable (or_pte b x (?t m fl P)) = ?r" "proc (or_pte b x (?t m fl P)) = P"
    "memory (or_pte d PTE_U (?t m6 f6 P)) = m7" "(or_pte d PTE_U (?t m6 f6 P))\<lparr>memory := m8\<rparr> = ?t m8 f6 P" for b x m fl P
    by (simp_all add: filling_upd filling_sel m7_def)
  have "userinit lk code s = Inr ((?t m8 f6 P4)\<lparr>console_out := c'\<rparr>)"
    unfolding userinit_def a(1) bindE_Inr option.case prod.case Let_def k2(1) filling_upd(1) if_not_P [OF k2(3)] P2_def [symmetric] P3_def [symmetric]
      pages(1) if_not_P [OF pages(2)] filling_sel filling_upd(2) pages(3) bindE_Inr if_not_P [OF pages(4)] pages(5) if_not_P [OF pages(6)]
      pages(7) if_not_P [OF pages(8)] sel tfq m8_def [symmetric] P4 pr ..
  moreover have "(?t m8 f6 P4)\<lparr>console_out := c'\<rparr> = s\<lparr>memory := m8, free_mem_list := f6, console_out := c',
      nextpid := nextpid s + 1, proc := (proc s)(q := first_pcb lk (nextpid s) ?r tf ks (proc s q)),
      resume := (resume s)(q := Forkret), point := (point s)(q := Running_code)\<rparr>"
    unfolding filling_def P4_def P3_def P2_def P1_def by (cases s) simp
  moreover have "kspace lk u ps ?r (first_map lk cp sp) {tf, ks, cp, sp}" if "memory u = m8" "free_mem_list u = f6" for u :: "'a procs_scheme"
    using kspace_same [OF s8, of u] that by (simp add: filling_sel insert_commute)
  ultimately show thesis
    using k2 pages(12-15) a(2) by (intro that [OF _ _ l8 z8 _ _ tfr(1)]) auto
qed

end
