(* ===== verification/Mkfs.thy ===== *)
theory Mkfs
  imports Path "HOL-Library.Signed_Division"
begin

text \<open>
  The program that makes the disk, \<open>mkfs/mkfs.c\<close>, with the layout of \<open>kernel/include/fs.h\<close>.  The image
  file is a sequence of blocks: writing past its end makes it longer, reading there ends the program
  (\<open>exit(1)\<close>, an error value here), as a failed \<open>assert\<close> does.  What it prints is not modelled.
\<close>

section \<open>The image file\<close>

record mkfs =
  img :: "u32 \<Rightarrow> block"
  img_blocks :: nat
  mk_sb :: superblock
  freeblock :: u32
  freeinode :: u32

definition wsect :: "u32 \<Rightarrow> block \<Rightarrow> mkfs \<Rightarrow> mkfs" where
  "wsect sec b s = s\<lparr>img := (img s)(sec := b), img_blocks := max (img_blocks s) (unat sec + 1)\<rparr>"

definition rsect :: "u32 \<Rightarrow> mkfs \<Rightarrow> block res" where
  "rsect sec s = (if img_blocks s \<le> unat sec then Inl (Panic ''read'') else Inr (img s sec))"

section \<open>Blocks and inodes\<close>

definition balloc_mark :: "u32 \<Rightarrow> mkfs \<Rightarrow> mkfs res" where
  "balloc_mark b s =
     (let bmapblock = sb_bmapstart (mk_sb s) + b div 8192 in
      bindE (rsect bmapblock s) (\<lambda>buf.
      Inr (wsect bmapblock (set_bit_at buf (unat (b mod 8192 div 8)) (unat (b mod 8))) s)))"

definition next_block :: "mkfs \<Rightarrow> (u32 \<times> mkfs) res" where
  "next_block s =
     (let b = freeblock s in bindE (balloc_mark b (s\<lparr>freeblock := freeblock s + 1\<rparr>)) (\<lambda>s1. Inr (b, s1)))"

definition winode :: "u32 \<Rightarrow> dinode \<Rightarrow> mkfs \<Rightarrow> mkfs res" where
  "winode inum ip s =
     (let bn = inode_block (mk_sb s) inum in
      bindE (rsect bn s) (\<lambda>buf. Inr (wsect bn (put_dinode ip buf (inode_off inum)) s)))"

definition rinode :: "u32 \<Rightarrow> mkfs \<Rightarrow> dinode res" where
  "rinode inum s = bindE (rsect (inode_block (mk_sb s) inum) s) (\<lambda>buf. Inr (dinode_of buf (inode_off inum)))"

definition zero_dinode :: dinode where
  "zero_dinode = \<lparr>d_type = 0, d_major = 0, d_minor = 0, d_nlink = 0, d_size = 0, d_addrs = \<lambda>_. 0\<rparr>"

definition mk_ialloc :: "u16 \<Rightarrow> mkfs \<Rightarrow> (u32 \<times> mkfs) res" where
  "mk_ialloc typ s =
     (let inum = freeinode s in
      bindE (winode inum (zero_dinode\<lparr>d_type := typ, d_nlink := 1, d_size := 0\<rparr>) (s\<lparr>freeinode := freeinode s + 1\<rparr>))
        (\<lambda>s1. Inr (inum, s1)))"

section \<open>Appending to a file\<close>

definition set_daddr :: "nat \<Rightarrow> u32 \<Rightarrow> dinode \<Rightarrow> dinode" where
  "set_daddr k b din = din\<lparr>d_addrs := (d_addrs din)(k := b)\<rparr>"

text \<open>The disk block of block \<open>fbn\<close> of the file, allocated when there is none yet.\<close>

definition entry_or_next :: "nat \<Rightarrow> dinode \<Rightarrow> mkfs \<Rightarrow> (dinode \<times> mkfs) res" where
  "entry_or_next k din s =
     (if d_addrs din k = 0 then bindE (next_block s) (\<lambda>(b, s1). Inr (set_daddr k b din, s1)) else Inr (din, s))"

definition append_block :: "dinode \<Rightarrow> nat \<Rightarrow> mkfs \<Rightarrow> (u32 \<times> dinode \<times> mkfs) res" where
  "append_block din fbn s =
     (if fbn < NDIRECT then
        bindE (entry_or_next fbn din s) (\<lambda>(din, s1). Inr (d_addrs din fbn, din, s1))
      else
        bindE (entry_or_next NDIRECT din s) (\<lambda>(din, s1).
        let indirect_blk = d_addrs din NDIRECT; k = 4 * (fbn - NDIRECT) in
        bindE (rsect indirect_blk s1) (\<lambda>ibuf.
        if get_le 4 ibuf k = (0 :: u32) then
          bindE (next_block s1) (\<lambda>(b, s2). Inr (b, din, wsect indirect_blk (put_le 4 ibuf k b) s2))
        else Inr (get_le 4 ibuf k, din, s1))))"

function iappend_loop :: "dinode \<Rightarrow> u32 \<Rightarrow> block \<Rightarrow> nat \<Rightarrow> mkfs \<Rightarrow> (dinode \<times> u32 \<times> mkfs) res" where
  "iappend_loop din off p n s =
     (if n = 0 then Inr (din, off, s)
      else let fbn = unat (off div 1024) in
        if NDIRECT + NINDIRECT \<le> fbn then Inl (Panic ''assert'')
        else
          bindE (append_block din fbn s) (\<lambda>(x, din1, s1).
          let at_off = unat (off mod 1024); n1 = min (BSIZE - at_off) n in
          bindE (rsect x s1) (\<lambda>buf.
          iappend_loop din1 (off + of_nat n1) (\<lambda>i. p (n1 + i)) (n - n1)
            (wsect x (\<lambda>i. if at_off \<le> i \<and> i < at_off + n1 then p (i - at_off) else buf i) s1))))"
  by pat_completeness auto
termination
proof (relation "measure (\<lambda>(din, off, p, n, s). n)", goal_cases)
  case 2
  have "0 < BSIZE - unat (off mod 1024)" for off :: u32 using unat_mod32 [of off 1024] by (simp add: BSIZE_def)
  then show ?case using 2 by (simp add: min_def)
qed simp

declare iappend_loop.simps [simp del]

definition iappend :: "u32 \<Rightarrow> block \<Rightarrow> nat \<Rightarrow> mkfs \<Rightarrow> mkfs res" where
  "iappend inum xp n s =
     bindE (rinode inum s) (\<lambda>din. bindE (iappend_loop din (d_size din) xp n s) (\<lambda>(din, off, s1).
     winode inum (din\<lparr>d_size := off\<rparr>) s1))"

section \<open>main\<close>

definition put_superblock :: "superblock \<Rightarrow> block \<Rightarrow> block" where
  "put_superblock b d = put_le 4 (put_le 4 (put_le 4 (put_le 4 (put_le 4 (put_le 4 (put_le 4 (put_le 4 d
     0 (sb_magic b)) 4 (sb_size b)) 8 (sb_nblocks b)) 12 (sb_ninodes b)) 16 (sb_nlog b)) 20 (sb_logstart b))
     24 (sb_inodestart b)) 28 (sb_bmapstart b)"

definition put_dirent :: "u16 \<Rightarrow> u8 list \<Rightarrow> block" where
  "put_dirent inum nm = (\<lambda>i. if 2 \<le> i \<and> i - 2 < length nm then nm ! (i - 2) else put_le 2 (\<lambda>_. 0) 0 inum i)"

definition NINODES :: int where "NINODES = 200"
definition SBLOCK :: u32 where "SBLOCK = 1"

definition mkfs_nbitmap :: "int \<Rightarrow> int" where
  "mkfs_nbitmap tot = (tot + int BSIZE * 8 - 1) sdiv (int BSIZE * 8)"

definition mkfs_inodeblocks :: int where
  "mkfs_inodeblocks = (NINODES + 16 - 1) sdiv 16"

definition mkfs_nmeta :: "int \<Rightarrow> int" where
  "mkfs_nmeta tot = 1 + 1 + mkfs_inodeblocks + mkfs_nbitmap tot"

definition mkfs_sb :: "int \<Rightarrow> superblock" where
  "mkfs_sb tot = \<lparr>sb_magic = FSMAGIC, sb_size = of_int tot, sb_nblocks = of_int (tot - mkfs_nmeta tot),
     sb_ninodes = of_int NINODES, sb_nlog = 0, sb_logstart = 0, sb_inodestart = 2,
     sb_bmapstart = of_int (2 + mkfs_inodeblocks)\<rparr>"

primrec mark_all :: "nat list \<Rightarrow> mkfs \<Rightarrow> mkfs res" where
  "mark_all [] s = Inr s"
| "mark_all (i # is) s = bindE (balloc_mark (of_nat i) s) (mark_all is)"

text \<open>\<open>main\<close>, for an image of \<open>tot\<close> blocks in a file that \<open>open\<close> has truncated.\<close>

definition mkfs_main :: "int \<Rightarrow> mkfs res" where
  "mkfs_main tot =
     (let s0 = \<lparr>img = \<lambda>_ _. 0, img_blocks = 0, mk_sb = mkfs_sb tot, freeblock = 0, freeinode = 1\<rparr>;
          s1 = fold (\<lambda>i. wsect (of_nat i) (\<lambda>_. 0)) [0..<nat tot] s0;
          s2 = wsect SBLOCK (put_superblock (mk_sb s1) (\<lambda>_. 0)) s1;
          s3 = s2\<lparr>freeblock := of_int (mkfs_nmeta tot)\<rparr> in
      bindE (mark_all [0..<nat (mkfs_nmeta tot)] s3) (\<lambda>s4.
      bindE (mk_ialloc T_DIR s4) (\<lambda>(rootino, s5).
      if rootino \<noteq> ROOTINO then Inl (Panic ''assert'') else
      bindE (iappend rootino (put_dirent (ucast rootino) [0x2e]) 16 s5) (\<lambda>s6.
      iappend rootino (put_dirent (ucast rootino) [0x2e, 0x2e]) 16 s6))))"

section \<open>The layout\<close>

text \<open>Sizes for which the image holds the metadata and one data block, with one block of marks in use.\<close>

definition size_ok :: "int \<Rightarrow> bool" where
  "size_ok tot \<longleftrightarrow> 17 \<le> tot \<and> tot \<le> 2 ^ 25"

definition nmeta :: "int \<Rightarrow> nat" where
  "nmeta tot = nat (mkfs_nmeta tot)"

lemma layout:
  assumes "size_ok tot"
  shows "mkfs_nmeta tot = 15 + (tot + 8191) div 8192" "int (nmeta tot) = mkfs_nmeta tot"
    "16 \<le> nmeta tot" "nmeta tot < 8191" "nmeta tot < nat tot" "16 < nat tot"
    "of_int (mkfs_nmeta tot) = (of_nat (nmeta tot) :: u32)" "unat (of_nat (nmeta tot) :: u32) = nmeta tot"
proof -
  have t: "17 \<le> tot" "tot \<le> 33554432" using assms by (auto simp: size_ok_def)
  show m: "mkfs_nmeta tot = 15 + (tot + 8191) div 8192"
    using t by (simp add: mkfs_nmeta_def mkfs_inodeblocks_def NINODES_def mkfs_nbitmap_def BSIZE_def signed_divide_int_def)
  have d: "1 \<le> (tot + 8191) div 8192" "(tot + 8191) div 8192 \<le> 4096" "15 + (tot + 8191) div 8192 < tot" using t by linarith+
  then show n: "int (nmeta tot) = mkfs_nmeta tot" unfolding nmeta_def m by simp
  then show "16 \<le> nmeta tot" "nmeta tot < 8191" "nmeta tot < nat tot" "16 < nat tot" using d m t by linarith+
  then show "unat (of_nat (nmeta tot) :: u32) = nmeta tot" by (simp add: unat_of_nat32)
  show "of_int (mkfs_nmeta tot) = (of_nat (nmeta tot) :: u32)" by (metis n of_int_of_nat_eq)
qed

lemma mkfs_sb_sel:
  "sb_magic (mkfs_sb tot) = FSMAGIC" "sb_size (mkfs_sb tot) = of_int tot" "sb_ninodes (mkfs_sb tot) = 200"
  "sb_inodestart (mkfs_sb tot) = 2" "sb_bmapstart (mkfs_sb tot) = 15"
  by (simp_all add: mkfs_sb_def NINODES_def mkfs_inodeblocks_def signed_divide_int_def)

lemma superblock_of_put: "superblock_of (put_superblock b d) = b"
  by (simp add: superblock_of_def put_superblock_def get_put_le_same get_put_le_other)

section \<open>Marks\<close>

definition marked :: "block \<Rightarrow> nat \<Rightarrow> bool" where
  "marked d n \<longleftrightarrow> (\<forall>i. bm_bit d i \<longleftrightarrow> i < n)"

lemma marked_0: "marked (\<lambda>_. 0) 0"
  by (simp add: marked_def bm_bit_def)

lemma mark_next:
  assumes "marked (img s (sb_bmapstart (mk_sb s))) n" "n < 8192" "unat (sb_bmapstart (mk_sb s)) < img_blocks s"
  shows "\<exists>d. balloc_mark (of_nat n) s = Inr (s\<lparr>img := (img s)(sb_bmapstart (mk_sb s) := d)\<rparr>) \<and> marked d (Suc n)"
proof -
  let ?bm = "sb_bmapstart (mk_sb s)"
  have u: "unat (of_nat n :: u32) = n" using assms(2) by (simp add: unat_of_nat32)
  have z: "(of_nat n :: u32) div 8192 = 0" by (intro unat_eqD) (use assms(2) u in \<open>simp add: unat_div32\<close>)
  have k: "unat ((of_nat n :: u32) mod 8192 div 8) = n div 8" "unat ((of_nat n :: u32) mod 8) = n mod 8"
    using assms(2) u by (simp_all add: unat_div32 unat_mod32)
  let ?d = "set_bit_at (img s ?bm) (n div 8) (n mod 8)"
  have "max (img_blocks s) (Suc (unat ?bm)) = img_blocks s" using assms(3) by simp
  then have "balloc_mark (of_nat n) s = Inr (s\<lparr>img := (img s)(?bm := ?d)\<rparr>)"
    using assms(3) by (simp add: balloc_mark_def z k rsect_def wsect_def Let_def)
  moreover have "marked ?d (Suc n)"
    using assms(1) unfolding marked_def by (simp add: bm_bit_set less_Suc_eq)
  ultimately show ?thesis by blast
qed

lemma mark_all_snoc: "mark_all (xs @ [x]) s = bindE (mark_all xs s) (balloc_mark (of_nat x))"
proof (induction xs arbitrary: s)
  case Nil
  show ?case by (cases "balloc_mark (of_nat x) s") simp_all
next
  case (Cons y ys)
  then show ?case by (cases "balloc_mark (of_nat y) s") simp_all
qed

lemma mark_all_upto:
  assumes "marked (img s (sb_bmapstart (mk_sb s))) 0" "n \<le> 8192" "unat (sb_bmapstart (mk_sb s)) < img_blocks s"
  shows "\<exists>d. mark_all [0..<n] s = Inr (s\<lparr>img := (img s)(sb_bmapstart (mk_sb s) := d)\<rparr>) \<and> marked d n"
  using assms(2)
proof (induction n)
  case 0
  have "s = s\<lparr>img := (img s)(sb_bmapstart (mk_sb s) := img s (sb_bmapstart (mk_sb s)))\<rparr>" by simp
  then show ?case using assms(1) by (intro exI [of _ "img s (sb_bmapstart (mk_sb s))"]) simp
next
  case (Suc n)
  let ?bm = "sb_bmapstart (mk_sb s)"
  obtain d where d: "mark_all [0..<n] s = Inr (s\<lparr>img := (img s)(?bm := d)\<rparr>)" "marked d n"
    using Suc.IH Suc_leD [OF Suc.prems] by blast
  let ?t = "s\<lparr>img := (img s)(?bm := d)\<rparr>"
  obtain e where e: "balloc_mark (of_nat n) ?t = Inr (?t\<lparr>img := (img ?t)(?bm := e)\<rparr>)" "marked e (Suc n)"
    using mark_next [of ?t n] d(2) Suc.prems assms(3) by auto
  have "mark_all [0..<Suc n] s = Inr (?t\<lparr>img := (img ?t)(?bm := e)\<rparr>)"
    using mark_all_snoc [of "[0..<n]" n s] d(1) e(1) by simp
  moreover have "?t\<lparr>img := (img ?t)(?bm := e)\<rparr> = s\<lparr>img := (img s)(?bm := e)\<rparr>" by simp
  ultimately have "mark_all [0..<Suc n] s = Inr (s\<lparr>img := (img s)(?bm := e)\<rparr>)" by (simp only:)
  then show ?case using e(2) by blast
qed

lemma zero_image:
  "n < 2 ^ 32 \<Longrightarrow> img s = (\<lambda>_ _. 0) \<Longrightarrow> img_blocks s = 0 \<Longrightarrow>
     fold (\<lambda>i. wsect (of_nat i) (\<lambda>_. 0)) [0..<n] s = s\<lparr>img_blocks := n\<rparr>"
proof (induction n)
  case (Suc n)
  have "unat (of_nat n :: u32) = n" using Suc.prems(1) by (simp add: unat_of_nat32)
  moreover have "((\<lambda>_ _. 0) :: u32 \<Rightarrow> block)(of_nat n := \<lambda>_. 0) = (\<lambda>_ _. 0)" by (rule ext) simp
  ultimately show ?case using Suc by (simp add: wsect_def)
qed simp

section \<open>The image step by step\<close>

definition root_block :: "int \<Rightarrow> u32" where
  "root_block tot = of_nat (nmeta tot)"

text \<open>The first \<open>m\<close> blocks marked, inode 1 and the first data block as given, everything else zero.\<close>

definition image :: "int \<Rightarrow> nat \<Rightarrow> dinode \<Rightarrow> block \<Rightarrow> mkfs \<Rightarrow> bool" where
  "image tot m din dat s \<longleftrightarrow> img_blocks s = nat tot \<and> mk_sb s = mkfs_sb tot \<and> freeblock s = of_nat m \<and>
     img s 1 = put_superblock (mkfs_sb tot) (\<lambda>_. 0) \<and> dinode_of (img s 2) 64 = din \<and>
     (\<forall>i. i < 64 \<or> 128 \<le> i \<longrightarrow> img s 2 i = 0) \<and> marked (img s 15) m \<and> img s (root_block tot) = dat \<and>
     (\<forall>k. k \<notin> {1, 2, 15, root_block tot} \<longrightarrow> img s k = (\<lambda>_. 0))"

lemma root_block_facts:
  assumes "size_ok tot"
  shows "unat (root_block tot) = nmeta tot" "unat (root_block tot) < nat tot" "root_block tot \<notin> {0, 1, 2, 15}"
proof -
  note l = layout [OF assms]
  show u: "unat (root_block tot) = nmeta tot" by (simp only: root_block_def l(8))
  then show "unat (root_block tot) < nat tot" using l(5) by simp
  show "root_block tot \<notin> {0, 1, 2, 15}" using u l(3) by auto
qed

lemma block_ne: "(15 :: u32) \<noteq> 1" "(15 :: u32) \<noteq> 2" "(1 :: u32) \<noteq> 15" "(2 :: u32) \<noteq> 15" "(1 :: u32) \<noteq> 2" "(2 :: u32) \<noteq> 1"
  by simp_all

lemma image_winode:
  assumes ok: "size_ok tot" and s: "image tot m din dat s" and a: "addrs_ok (d_addrs din')"
  shows "\<exists>s'. winode 1 din' s = Inr s' \<and> image tot m din' dat s'"
proof -
  have b: "inode_block (mk_sb s) 1 = 2" using s by (simp add: image_def inode_block_def mkfs_sb_sel)
  have o: "inode_off 1 = 64" by (simp add: inode_off_def)
  have n: "2 < img_blocks s" using s layout(6) [OF ok] by (simp add: image_def)
  note r = root_block_facts [OF ok]
  let ?s' = "s\<lparr>img := (img s)(2 := put_dinode din' (img s 2) 64)\<rparr>"
  have "winode 1 din' s = Inr ?s'" using n by (simp add: winode_def b o rsect_def wsect_def)
  moreover have "image tot m din' dat ?s'"
    using s r(3) by (auto simp: image_def dinode_of_put_dinode [OF a] put_dinode_outside)
  ultimately show ?thesis by blast
qed

lemma image_rinode:
  assumes "size_ok tot" "image tot m din dat s"
  shows "rinode 1 s = Inr din"
  using assms layout(6) [OF assms(1)] by (simp add: rinode_def rsect_def image_def inode_block_def mkfs_sb_sel inode_off_def)

lemma image_next_block:
  assumes ok: "size_ok tot" and s: "image tot m din dat s" and m: "m < 8192"
  shows "\<exists>s'. next_block s = Inr (of_nat m, s') \<and> image tot (Suc m) din dat s'"
proof -
  note r = root_block_facts [OF ok]
  let ?t = "s\<lparr>freeblock := freeblock s + 1\<rparr>"
  have bm: "sb_bmapstart (mk_sb ?t) = 15" using s by (simp add: image_def mkfs_sb_sel)
  obtain d where d: "balloc_mark (of_nat m) ?t = Inr (?t\<lparr>img := (img ?t)(15 := d)\<rparr>)" "marked d (Suc m)"
    using mark_next [of ?t m] m s layout(6) [OF ok] unfolding bm by (auto simp: image_def)
  have "next_block s = Inr (of_nat m, ?t\<lparr>img := (img ?t)(15 := d)\<rparr>)" using s d(1) by (simp add: next_block_def image_def Let_def)
  moreover have "image tot (Suc m) din dat (?t\<lparr>img := (img ?t)(15 := d)\<rparr>)"
    using s d(2) r(3) block_ne unfolding image_def by (intro conjI) (simp_all add: add.commute)
  ultimately show ?thesis by blast
qed

lemma image_data:
  assumes ok: "size_ok tot" and s: "image tot m din dat s"
  shows "rsect (root_block tot) s = Inr dat" "image tot m din e (wsect (root_block tot) e s)"
proof -
  note r = root_block_facts [OF ok]
  show "rsect (root_block tot) s = Inr dat" using s r(2) by (simp add: rsect_def image_def)
  have "max (img_blocks s) (Suc (unat (root_block tot))) = img_blocks s" using s r(2) by (simp add: image_def)
  then show "image tot m din e (wsect (root_block tot) e s)"
    using s r(3) by (auto simp: image_def wsect_def)
qed

text \<open>The directory inode and its data after both entries.\<close>

definition root_dinode :: "int \<Rightarrow> u32 \<Rightarrow> dinode" where
  "root_dinode tot sz = \<lparr>d_type = T_DIR, d_major = 0, d_minor = 0, d_nlink = 1, d_size = sz,
     d_addrs = (\<lambda>_. 0)(0 := if sz = 0 then 0 else root_block tot)\<rparr>"

definition add_entry :: "nat \<Rightarrow> u8 list \<Rightarrow> block \<Rightarrow> block" where
  "add_entry off nm dat = (\<lambda>i. if off \<le> i \<and> i < off + 16 then put_dirent 1 nm (i - off) else dat i)"

lemma addrs_ok_root: "addrs_ok (d_addrs (root_dinode tot sz))"
  by (simp add: addrs_ok_def root_dinode_def)

text \<open>One more entry, while the directory is shorter than a block; the first one allocates the block.\<close>

lemma image_iappend:
  assumes ok: "size_ok tot" and s: "image tot m (root_dinode tot sz) dat s" and sz: "unat sz + 16 \<le> 1024"
    and m: "m = (if sz = 0 then nmeta tot else nmeta tot + 1)"
  shows "\<exists>s'. iappend 1 (put_dirent 1 nm) 16 s = Inr s' \<and>
    image tot (nmeta tot + 1) (root_dinode tot (sz + 16)) (add_entry (unat sz) nm dat) s'"
proof -
  note r = root_block_facts [OF ok] note l = layout [OF ok]
  let ?d = "root_dinode tot sz" let ?d1 = "set_daddr 0 (root_block tot) ?d"
  have f: "unat (sz div 1024) = 0" "unat (sz mod 1024) = unat sz" using sz by (simp_all add: unat_div32 unat_mod32)
  have u: "unat (sz + 16) = unat sz + 16" using sz by (simp add: unat_add32)
  then have nz: "sz + 16 \<noteq> 0" by (metis add_is_0 unat_0 zero_neq_numeral)
  have d1: "?d1\<lparr>d_size := sz + 16\<rparr> = root_dinode tot (sz + 16)" "d_addrs ?d1 0 = root_block tot"
    using nz by (simp_all add: set_daddr_def root_dinode_def)
  have ne: "root_block tot \<noteq> 0" using r(3) by auto
  obtain s1 where s1: "entry_or_next 0 ?d s = Inr (?d1, s1)" "image tot (nmeta tot + 1) ?d dat s1"
  proof (cases "sz = 0")
    case True
    then have "d_addrs ?d 0 = 0" by (simp add: root_dinode_def)
    moreover obtain s1 where "next_block s = Inr (of_nat m, s1)" "image tot (Suc m) ?d dat s1"
      using image_next_block [OF ok s] m l(4) True by auto
    ultimately show thesis using that m True by (simp add: entry_or_next_def root_block_def)
  next
    case False
    then have "d_addrs ?d 0 = root_block tot" "?d1 = ?d" by (simp_all add: root_dinode_def set_daddr_def)
    then show thesis using that [of s] s ne m False by (simp add: entry_or_next_def)
  qed
  let ?w = "wsect (root_block tot) (add_entry (unat sz) nm dat) s1"
  have buf: "(\<lambda>i. if unat sz \<le> i \<and> i < unat sz + 16 then put_dirent 1 nm (i - unat sz) else dat i) = add_entry (unat sz) nm dat"
    by (simp add: add_entry_def)
  have a: "append_block ?d 0 s = Inr (root_block tot, ?d1, s1)"
    by (simp add: append_block_def s1(1) NDIRECT_def d1(2))
  have c: "min (BSIZE - unat sz) 16 = 16" using sz by (simp add: BSIZE_def)
  have "iappend_loop ?d sz (put_dirent 1 nm) 16 s = iappend_loop ?d1 (sz + of_nat 16) (\<lambda>i. put_dirent 1 nm (16 + i)) (16 - 16) ?w"
    by (subst iappend_loop.simps)
      (simp add: f a c Let_def NDIRECT_def image_data(1) [OF ok s1(2)] buf)
  also have "\<dots> = Inr (?d1, sz + 16, ?w)" by (subst iappend_loop.simps) simp
  finally have lp: "iappend_loop ?d sz (put_dirent 1 nm) 16 s = Inr (?d1, sz + 16, ?w)" .
  obtain s2 where "winode 1 (root_dinode tot (sz + 16)) ?w = Inr s2"
    "image tot (nmeta tot + 1) (root_dinode tot (sz + 16)) (add_entry (unat sz) nm dat) s2"
    using image_winode [OF ok image_data(2) [OF ok s1(2)] addrs_ok_root] by blast
  moreover have "d_size ?d = sz" by (simp add: root_dinode_def)
  ultimately show ?thesis by (simp add: iappend_def image_rinode [OF ok s] lp d1(1))
qed

definition root_data :: block where
  "root_data = add_entry 16 [0x2e, 0x2e] (add_entry 0 [0x2e] (\<lambda>_. 0))"

lemma mkfs_image:
  assumes ok: "size_ok tot"
  shows "\<exists>s. mkfs_main tot = Inr s \<and> image tot (nmeta tot + 1) (root_dinode tot 32) root_data s"
proof -
  note r = root_block_facts [OF ok] note l = layout [OF ok]
  have "tot \<le> 33554432" using ok by (simp add: size_ok_def)
  then have t: "nat tot < 2 ^ 32" by simp
  let ?s0 = "\<lparr>img = \<lambda>_ _. 0, img_blocks = 0, mk_sb = mkfs_sb tot, freeblock = 0, freeinode = 1\<rparr>"
  have z: "fold (\<lambda>i. wsect (of_nat i) (\<lambda>_. 0)) [0..<nat tot] ?s0 = ?s0\<lparr>img_blocks := nat tot\<rparr>"
    by (rule zero_image [OF t]) simp_all
  let ?sbb = "put_superblock (mkfs_sb tot) (\<lambda>_. 0)"
  let ?s3 = "\<lparr>img = (\<lambda>_ _. 0)(1 := ?sbb), img_blocks = nat tot, mk_sb = mkfs_sb tot, freeblock = of_nat (nmeta tot), freeinode = 1\<rparr>"
  have w: "(wsect SBLOCK (put_superblock (mk_sb (?s0\<lparr>img_blocks := nat tot\<rparr>)) (\<lambda>_. 0)) (?s0\<lparr>img_blocks := nat tot\<rparr>))
      \<lparr>freeblock := of_int (mkfs_nmeta tot)\<rparr> = ?s3"
    using l(6,7) by (simp add: wsect_def SBLOCK_def)
  obtain d where d: "mark_all [0..<nmeta tot] ?s3 = Inr (?s3\<lparr>img := (img ?s3)(15 := d)\<rparr>)" "marked d (nmeta tot)"
    using mark_all_upto [of ?s3 "nmeta tot"] l(4,6) by (auto simp: mkfs_sb_sel marked_0)
  let ?s4 = "?s3\<lparr>img := (img ?s3)(15 := d)\<rparr>"
  have z64: "dinode_of (\<lambda>_. 0) 64 = zero_dinode"
    by (simp add: dinode_of_def zero_dinode_def fun_eq_iff)
  have i4: "image tot (nmeta tot) zero_dinode (\<lambda>_. 0) (?s4\<lparr>freeinode := freeinode ?s4 + 1\<rparr>)"
    using d(2) r(3) by (auto simp: image_def z64)
  have rd: "zero_dinode\<lparr>d_type := T_DIR, d_nlink := 1, d_size := 0\<rparr> = root_dinode tot 0"
    by (simp add: zero_dinode_def root_dinode_def fun_eq_iff)
  obtain s5 where s5: "winode 1 (root_dinode tot 0) (?s4\<lparr>freeinode := freeinode ?s4 + 1\<rparr>) = Inr s5"
    "image tot (nmeta tot) (root_dinode tot 0) (\<lambda>_. 0) s5"
    using image_winode [OF ok i4 addrs_ok_root] by blast
  have al: "mk_ialloc T_DIR ?s4 = Inr (1, s5)"
    using s5(1) unfolding mk_ialloc_def Let_def rd by simp
  obtain s6 where s6: "iappend 1 (put_dirent 1 [0x2e]) 16 s5 = Inr s6"
    "image tot (nmeta tot + 1) (root_dinode tot 16) (add_entry 0 [0x2e] (\<lambda>_. 0)) s6"
    using image_iappend [OF ok s5(2), of "[0x2e]"] by auto
  obtain s7 where s7: "iappend 1 (put_dirent 1 [0x2e, 0x2e]) 16 s6 = Inr s7"
    "image tot (nmeta tot + 1) (root_dinode tot 32) root_data s7"
    using image_iappend [OF ok s6(2), of "[0x2e, 0x2e]"] by (auto simp: root_data_def)
  have "mkfs_main tot = Inr s7"
    unfolding mkfs_main_def Let_def z w nmeta_def [symmetric] d(1) bindE_Inr al prod.case
    by (simp add: ROOTINO_def s6(1) s7(1))
  then show ?thesis using s7(2) by blast
qed

end
