(* ===== verification/Mount.thy ===== *)
theory Mount
  imports Mkfs
begin

text \<open>
  From \<open>mkfs/mkfs.c\<close> to \<open>kernel/fs/fs.c\<close>: the kernel mounts the disk the program makes, the allocator and
  the resolution of paths find their invariants there, and the root directory is the root.
\<close>

section \<open>Mounting\<close>

lemma bcache_ok_sb [simp]: "bcache_ok (s\<lparr>sb := x\<rparr>) H = bcache_ok s H"
  by (simp add: bcache_ok_def)

lemma holds_sb [simp]: "holds (s\<lparr>sb := x\<rparr>) b k = holds s b k"
  by (simp add: holds_def)

lemma fsinit_mounts:
  fixes k :: "'a fs_scheme"
  assumes ok: "bcache_ok k H" "size H < NBUF" "1 < disk_blocks k"
    and magic: "sb_magic (superblock_of (disk k 1)) = FSMAGIC"
  shows "\<exists>k'. fsinit ROOTDEV k = Inr k' \<and> disk k' = disk k \<and> sb k' = superblock_of (disk k 1) \<and>
    disk_blocks k' = disk_blocks k \<and> bcache_ok k' H \<and> (\<forall>i < NINODE. i_ref (icache k' i) = 0 \<and> i_valid (icache k' i) = 0)"
proof -
  have one: "unat (1 :: u32) < disk_blocks k" using ok(3) by simp
  obtain b s1 where r: "bread ROOTDEV 1 k = Inr (b, s1)" "bcache_ok s1 (add_mset 1 H)" "holds s1 b 1"
    "disk s1 = disk k" "only_cache k s1"
    by (rule bread_ok [OF ok(1,2) one])
  have data: "b_data (bufs s1 b) = disk k 1"
    using r(2,3,4) unfolding bcache_ok_def holds_def is_for_def by metis
  let ?t = "s1\<lparr>sb := superblock_of (disk k 1)\<rparr>"
  have t: "bcache_ok ?t (add_mset 1 H)" "holds ?t b 1" using r(2,3) by simp_all
  note rel = brelse_ok [OF t, simplified]
  have f: "sb (brelse b ?t) = superblock_of (disk k 1)" "disk_blocks (brelse b ?t) = disk_blocks k"
    using only_cache_fs [OF rel(3)] only_cache_fs [OF r(5)] by simp_all
  let ?k = "(brelse b ?t)\<lparr>icache := \<lambda>i. if i < NINODE then (icache (brelse b ?t) i)\<lparr>i_ref := 0, i_valid := 0\<rparr>
    else icache (brelse b ?t) i\<rparr>"
  have "fsinit ROOTDEV k = Inr ?k" using magic f unfolding fsinit_def r(1) bindE_Inr prod.case Let_def data by simp
  moreover have "bcache_ok ?k H" using rel(1) by simp
  ultimately show ?thesis using rel(2) r(4) f by (intro exI [of _ ?k]) simp
qed

section \<open>What the image holds\<close>

lemma root_bytes:
  "get_le 2 root_data 0 = (1 :: u16)" "get_le 2 root_data 16 = (1 :: u16)"
  "cname (\<lambda>i. root_data (2 + i)) = [0x2e]" "cname (\<lambda>i. root_data (18 + i)) = [0x2e, 0x2e]"
proof -
  have "get_le 2 root_data 0 = (get_le 2 (put_le 2 (\<lambda>_. 0) 0 (1 :: u16)) 0 :: u16)"
    unfolding get_le_def by (intro of_le_cong) (simp add: root_data_def add_entry_def put_dirent_def)
  then show "get_le 2 root_data 0 = (1 :: u16)" by (simp add: get_put_le_same)
  have "get_le 2 root_data 16 = (get_le 2 (put_le 2 (\<lambda>_. 0) 0 (1 :: u16)) 0 :: u16)"
    unfolding get_le_def by (intro of_le_cong) (simp add: root_data_def add_entry_def put_dirent_def)
  then show "get_le 2 root_data 16 = (1 :: u16)" by (simp add: get_put_le_same)
  have n: "[0..<DIRSIZ] = 0 # 1 # 2 # [3..<14]" by (simp add: DIRSIZ_def upt_conv_Cons)
  show "cname (\<lambda>i. root_data (2 + i)) = [0x2e]" "cname (\<lambda>i. root_data (18 + i)) = [0x2e, 0x2e]"
    unfolding cname_def n by (simp_all add: root_data_def add_entry_def put_dirent_def put_le_def)
qed

lemma dinode_type_zero: "(\<And>i. off \<le> i \<Longrightarrow> i < off + 64 \<Longrightarrow> d i = 0) \<Longrightarrow> d_type (dinode_of d off) = 0"
  using get_le_cong [of off 2 d "\<lambda>_. 0"] by (simp add: dinode_of_def)

text \<open>Blocks strictly between the first block of marks and the root's, or between 2 and 15, are empty.\<close>

lemma plain_block:
  assumes "size_ok tot" "unat j < nmeta tot" "2 < unat j" "unat j \<noteq> 15"
  shows "j \<notin> {1, 2, 15, root_block tot}"
proof -
  have "unat (1 :: u32) = 1" "unat (2 :: u32) = 2" "unat (15 :: u32) = 15" by simp_all
  moreover have "unat (root_block tot) = nmeta tot" by (rule root_block_facts(1) [OF assms(1)])
  ultimately have "unat j \<noteq> unat (1 :: u32)" "unat j \<noteq> unat (2 :: u32)" "unat j \<noteq> unat (15 :: u32)"
    "unat j \<noteq> unat (root_block tot)" using assms(2-4) by linarith+
  then show ?thesis by blast
qed

text \<open>The kernel's view of such an image once it is mounted.\<close>

definition mounted :: "int \<Rightarrow> mkfs \<Rightarrow> 'a fs_scheme \<Rightarrow> bool" where
  "mounted tot m k \<longleftrightarrow> size_ok tot \<and> image tot (nmeta tot + 1) (root_dinode tot 32) root_data m \<and>
     disk k = img m \<and> sb k = mkfs_sb tot \<and> disk_blocks k = nat tot"

lemma mounted_sel:
  assumes "mounted tot m k"
  shows "size_ok tot" "marked (disk k 15) (nmeta tot + 1)" "disk k (root_block tot) = root_data"
    "dinode_of (disk k 2) 64 = root_dinode tot 32" "j \<notin> {1, 2, 15, root_block tot} \<Longrightarrow> disk k j = (\<lambda>_. 0)"
    "l < 64 \<or> 128 \<le> l \<Longrightarrow> disk k 2 l = 0" "disk_blocks k = nat tot" "sb k = mkfs_sb tot"
proof -
  have a: "disk k = img m" "disk_blocks k = nat tot" "sb k = mkfs_sb tot" "size_ok tot"
    and i: "image tot (nmeta tot + 1) (root_dinode tot 32) root_data m"
    using assms unfolding mounted_def by blast+
  note i = i [unfolded image_def]
  show "size_ok tot" "disk_blocks k = nat tot" "sb k = mkfs_sb tot" by (fact a)+
  show "marked (disk k 15) (nmeta tot + 1)" "disk k (root_block tot) = root_data"
    "dinode_of (disk k 2) 64 = root_dinode tot 32" unfolding a(1) using i by blast+
  have z1: "\<forall>j. j \<notin> {1, 2, 15, root_block tot} \<longrightarrow> disk k j = (\<lambda>_. 0)"
    unfolding a(1) using i by (elim conjE)
  have z2: "\<forall>l. l < 64 \<or> 128 \<le> l \<longrightarrow> disk k 2 l = 0"
    unfolding a(1) using i by (elim conjE)
  show "disk k j = (\<lambda>_. 0)" if "j \<notin> {1, 2, 15, root_block tot}" by (rule mp [OF spec [OF z1] that])
  show "disk k 2 l = 0" if "l < 64 \<or> 128 \<le> l" by (rule mp [OF spec [OF z2] that])
qed

lemma mounted_root:
  assumes "mounted tot m k"
  shows "dinode_at k 1 = root_dinode tot 32"
  using mounted_sel(4,8) [OF assms] by (simp add: dinode_at_def inode_block_def mkfs_sb_sel inode_off_def)

lemma mounted_other:
  assumes "mounted tot m k" "i < 200" "i \<noteq> 1"
  shows "d_type (dinode_at k i) = 0"
proof -
  note m = mounted_sel [OF assms(1)] and r = root_block_facts [OF mounted_sel(1) [OF assms(1)]]
  have i: "unat i < 200" "unat i \<noteq> 1" using assms(2,3) by (simp_all add: word_less_nat_alt word_unat_eq_iff)
  have b: "unat (inode_block (sb k) i) = 2 + unat i div 16"
    using i by (simp add: inode_block_def m(8) mkfs_sb_sel unat_add32 unat_div32)
  show ?thesis
  proof (cases "unat i div 16 = 0")
    case True
    then have two: "inode_block (sb k) i = 2" using b by (simp add: word_unat_eq_iff)
    have off: "inode_off i = 64 * unat i" using True by (simp add: inode_off_def unat_mod32)
    have "disk k 2 j = 0" if "64 * unat i \<le> j" "j < 64 * unat i + 64" for j
      using that i(2) by (intro m(6)) linarith
    then show ?thesis unfolding dinode_at_def two off by (intro dinode_type_zero) simp
  next
    case False
    have "unat (inode_block (sb k) i) < 15" "2 < unat (inode_block (sb k) i)" using b i(1) False by linarith+
    then have "inode_block (sb k) i \<notin> {1, 2, 15, root_block tot}"
      using layout(3) [OF m(1)] by (intro plain_block [OF m(1)]) linarith+
    then have "disk k (inode_block (sb k) i) = (\<lambda>_. 0)" by (rule m(5))
    then show ?thesis unfolding dinode_at_def by (simp add: dinode_type_zero)
  qed
qed

lemma mounted_slots:
  assumes "mounted tot m k"
  shows "fblock (disk k) (d_addrs (root_dinode tot 32)) 0 = root_block tot"
    "n < 2 \<Longrightarrow> slot_inum (disk k) (d_addrs (root_dinode tot 32)) n = 1"
    "slot_name (disk k) (d_addrs (root_dinode tot 32)) 0 = [0x2e]"
    "slot_name (disk k) (d_addrs (root_dinode tot 32)) 1 = [0x2e, 0x2e]"
proof -
  let ?a = "d_addrs (root_dinode tot 32)"
  show fb: "fblock (disk k) ?a 0 = root_block tot" by (simp add: fblock_def NDIRECT_def root_dinode_def)
  have bt: "fbyte (disk k) ?a i = root_data i" if "i < 1024" for i
    using that fb mounted_sel(3) [OF assms] by (simp add: fbyte_def)
  have g: "slot_inum (disk k) ?a n = get_le 2 root_data (16 * n)" if "n < 2" for n
    unfolding slot_inum_def using that by (intro get_le_cong bt) simp
  show "slot_inum (disk k) ?a n = 1" if "n < 2"
    using g [OF that] that root_bytes(1,2) by (cases n) (auto simp: less_Suc_eq)
  have c: "slot_name (disk k) ?a n = cname (\<lambda>i. root_data (16 * n + 2 + i))" if "n < 2" for n
    unfolding slot_name_def cname_def using that by (intro arg_cong [where f = "takeWhile _"] map_cong refl) (simp add: bt DIRSIZ_def)
  show "slot_name (disk k) ?a 0 = [0x2e]" using c [of 0] root_bytes(3) by simp
  show "slot_name (disk k) ?a 1 = [0x2e, 0x2e]" using c [of 1] root_bytes(4) by simp
qed

lemma mounted_tree:
  assumes "mounted tot m k"
  shows "tree_ok k"
proof -
  note m = mounted_sel [OF assms] and l = layout [OF mounted_sel(1) [OF assms]] and r = root_block_facts [OF mounted_sel(1) [OF assms]]
  let ?d = "root_dinode tot 32"
  have sz: "unat (d_size ?d) = 32" "blocks_for 32 = 1" "32 div 16 = (2 :: nat)" by (simp_all add: root_dinode_def blocks_for_def)
  have ty: "d_type (dinode_at k 1) \<noteq> 0" "d_type ?d = T_DIR" by (simp_all add: mounted_root [OF assms] root_dinode_def T_DIR_def)
  have ni: "sb_ninodes (sb k) = 200" by (simp add: m(8) mkfs_sb_sel)
  have "dir_wf k ?d"
    unfolding dir_wf_def sz ni
  proof (intro conjI allI impI)
    show "fblock (disk k) (d_addrs ?d) bn \<noteq> 0" "unat (fblock (disk k) (d_addrs ?d) bn) < disk_blocks k" if "bn < 1" for bn
      using that mounted_slots(1) [OF assms] r m(7) by simp_all
    show "ucast (slot_inum (disk k) (d_addrs ?d) n) < (200 :: u32)"
      "d_type (dinode_at k (ucast (slot_inum (disk k) (d_addrs ?d) n))) \<noteq> 0" if "n < 2" for n
      unfolding mounted_slots(2) [OF assms that] using ty(1) by simp_all
  qed (simp_all add: NDIRECT_def)
  moreover have "i = 1" if "i < 200" "d_type (dinode_at k i) = T_DIR" for i
    using mounted_other [OF assms that(1)] that(2) by (cases "i = 1") (simp_all add: T_DIR_def)
  ultimately have "\<forall>i. i < 200 \<longrightarrow> d_type (dinode_at k i) = T_DIR \<longrightarrow> dir_wf k (dinode_at k i)"
    using mounted_root [OF assms] by metis
  moreover have "unat (inode_block (sb k) i) < disk_blocks k" if "i < 200" for i
  proof -
    have "unat i < 200" using that by (simp add: word_less_nat_alt)
    then have "unat (inode_block (sb k) i) < 15" by (simp add: inode_block_def m(8) mkfs_sb_sel unat_add32 unat_div32)
    then show ?thesis using l(6) m(7) by linarith
  qed
  ultimately show ?thesis using ty(1) unfolding tree_ok_def inodes_on_disk_def ni ROOTINO_def by simp
qed

lemma mounted_root_names:
  assumes "mounted tot m k" "nm \<in> {[0x2e], [0x2e, 0x2e]}"
  shows "resolve k [nm] ROOTINO = Some ROOTINO"
proof -
  let ?d = "root_dinode tot 32"
  have n: "unat (d_size ?d) div 16 = 2" "[0..<2] = [0, 1 :: nat]" by (simp_all add: root_dinode_def upt_conv_Cons)
  note sl = mounted_slots [OF assms(1)]
  have i: "slot_inum (disk k) (d_addrs ?d) 0 = 1" "slot_inum (disk k) (d_addrs ?d) 1 = 1" by (rule sl(2), simp)+
  have "take DIRSIZ nm = nm" using assms(2) by (auto simp: DIRSIZ_def)
  then have "child k ?d nm = Some 1"
    unfolding child_def dir_find_def n using assms(2) sl(3,4) i by auto
  moreover have "d_type ?d = T_DIR" by (simp add: root_dinode_def)
  ultimately show ?thesis by (simp add: ROOTINO_def mounted_root [OF assms(1)])
qed

text \<open>The blocks in use are the metadata and the block of the root directory.\<close>

lemma mounted_used:
  assumes "mounted tot m k" "unat b < nat tot"
  shows "blk_used (disk k) 15 b \<longleftrightarrow> unat b \<le> nmeta tot"
proof -
  note m = mounted_sel [OF assms(1)] and l = layout [OF mounted_sel(1) [OF assms(1)]] and r = root_block_facts [OF mounted_sel(1) [OF assms(1)]]
  have t: "tot \<le> 33554432" using m(1) by (simp add: size_ok_def)
  have bm: "unat (15 + b div 8192) = 15 + unat b div 8192" using assms(2) t by (simp add: unat_add32 unat_div32)
  show ?thesis
  proof (cases "unat b div 8192 = 0")
    case True
    then have "15 + b div 8192 = 15" using bm by (simp add: word_unat_eq_iff)
    moreover have "unat b mod 8192 = unat b" using True by simp
    ultimately show ?thesis using m(2) by (simp add: blk_used_def marked_def less_Suc_eq_le)
  next
    case False
    have "unat b div 8192 < nat ((tot + 8191) div 8192)" using assms(2) by linarith
    then have "unat (15 + b div 8192) < nmeta tot" using bm l(1,2) by linarith
    moreover have "15 < unat (15 + b div 8192)" using bm False by linarith
    ultimately have "15 + b div 8192 \<notin> {1, 2, 15, root_block tot}" by (intro plain_block [OF m(1)]) linarith+
    then have "disk k (15 + b div 8192) = (\<lambda>_. 0)" by (rule m(5))
    moreover have "\<not> unat b \<le> nmeta tot" using False l(4) by linarith
    ultimately show ?thesis by (simp add: blk_used_def bm_bit_def)
  qed
qed

lemma mounted_alloc:
  assumes "mounted tot m k" "8 dvd tot"
  shows "alloc_ok k"
proof -
  note m = mounted_sel [OF assms(1)] and l = layout [OF mounted_sel(1) [OF assms(1)]]
  have t: "17 \<le> tot" "tot \<le> 33554432" using m(1) by (simp_all add: size_ok_def)
  have u: "unat (of_int tot :: u32) = nat tot" using t by (simp add: unsigned_of_int take_bit_int_eq_self)
  have "unat (sb_bmapstart (sb k)) + j < nat tot \<and> blk_used (disk k) (sb_bmapstart (sb k)) (sb_bmapstart (sb k) + of_nat j)"
    if "8192 * j < nat tot" for j
  proof -
    have "int j < (tot + 8191) div 8192" using that by linarith
    then have lt: "15 + j < nmeta tot" using l(1,2) by linarith
    have j: "unat (of_nat j :: u32) = j" using that t by (intro unat_of_nat32) simp
    have "unat (15 + of_nat j :: u32) = 15 + j" using that t by (simp add: unat_add32 j)
    then show ?thesis using lt l(5) mounted_used [OF assms(1), of "15 + of_nat j"] by (simp add: m(8) mkfs_sb_sel)
  qed
  moreover have "8 dvd nat tot" using assms(2) t by (auto elim!: dvdE simp: nat_mult_distrib)
  ultimately show ?thesis using t by (simp add: alloc_ok_def m(7,8) mkfs_sb_sel u)
qed

section \<open>Making a disk and mounting it\<close>

text \<open>C9: For every size of an image that \<open>mkfs\<close> can lay out (from 17 blocks, the smallest with a block for data, to 32 GB) it makes the image, as many blocks long, in which exactly the metadata and the first data block are
  in use.  A kernel with that image in its disk and an idle cache mounts it: \<open>fsinit\<close> accepts the magic number, reads back
  the superblock \<open>mkfs\<close> computed, and leaves the state in which the resolution of paths and, for a size that is a multiple
  of 8, the allocator start: every directory is well formed, no inode is held, and \<open>.\<close> and \<open>..\<close> of the root are
  the root.\<close>

theorem mkfs_image_mounts:
  assumes "17 \<le> tot" and "tot \<le> 2 ^ 25"
  shows "\<exists>m. mkfs_main tot = Inr m \<and> img_blocks m = nat tot \<and>
    (\<forall>b. unat b < nat tot \<longrightarrow> blk_used (img m) 15 b = (unat b \<le> nat (mkfs_nmeta tot))) \<and>
    (\<forall>k :: fs. bcache_ok k {#} \<longrightarrow> disk k = img m \<longrightarrow> disk_blocks k = img_blocks m \<longrightarrow>
      (\<exists>k'. fsinit ROOTDEV k = Inr k' \<and> disk k' = img m \<and> sb k' = mk_sb m \<and> tree_ok k' \<and> holding {#} (\<lambda>_. 0) k' \<and>
        (8 dvd tot \<longrightarrow> alloc_ok k') \<and> resolve k' [[0x2e]] ROOTINO = Some ROOTINO \<and>
        resolve k' [[0x2e, 0x2e]] ROOTINO = Some ROOTINO))"
proof -
  have ok: "size_ok tot" using assms by (simp add: size_ok_def)
  obtain m where m: "mkfs_main tot = Inr m" "image tot (nmeta tot + 1) (root_dinode tot 32) root_data m"
    using mkfs_image [OF ok] by blast
  have f: "img_blocks m = nat tot" "mk_sb m = mkfs_sb tot" "img m 1 = put_superblock (mkfs_sb tot) (\<lambda>_. 0)"
    using m(2) by (simp_all add: image_def)
  have used: "blk_used (img m) 15 b \<longleftrightarrow> unat b \<le> nmeta tot" if "unat b < nat tot" for b
    using mounted_used [OF _ that, of m "demo_fs\<lparr>disk := img m, sb := mkfs_sb tot, disk_blocks := nat tot\<rparr>"] ok m(2)
    by (simp add: mounted_def)
  have "\<exists>k'. fsinit ROOTDEV k = Inr k' \<and> disk k' = img m \<and> sb k' = mk_sb m \<and> tree_ok k' \<and> holding {#} (\<lambda>_. 0) k' \<and>
        (8 dvd tot \<longrightarrow> alloc_ok k') \<and> resolve k' [[0x2e]] ROOTINO = Some ROOTINO \<and>
        resolve k' [[0x2e, 0x2e]] ROOTINO = Some ROOTINO"
    if k: "bcache_ok k {#}" "disk k = img m" "disk_blocks k = img_blocks m" for k :: fs
  proof -
    have s: "superblock_of (disk k 1) = mkfs_sb tot" by (simp add: k(2) f(3) superblock_of_put)
    have "1 < disk_blocks k" "size ({#} :: u32 multiset) < NBUF" using k(3) f(1) layout(6) [OF ok] by simp_all
    then obtain k' where k': "fsinit ROOTDEV k = Inr k'" "disk k' = disk k" "sb k' = mkfs_sb tot"
      "disk_blocks k' = disk_blocks k" "bcache_ok k' {#}" "\<forall>i < NINODE. i_ref (icache k' i) = 0 \<and> i_valid (icache k' i) = 0"
      using fsinit_mounts [OF k(1)] s by (force simp: mkfs_sb_sel)
    have mo: "mounted tot m k'" using ok m(2) k' k f(1) by (simp add: mounted_def)
    have "holding {#} (\<lambda>_. 0) k'" using k'(5,6) by (simp add: holding_def icache_ok_def refers_def)
    then show ?thesis
      using k'(1-3) k(2) f(2) mounted_tree [OF mo] mounted_alloc [OF mo] mounted_root_names [OF mo] by simp
  qed
  then show ?thesis using m(1) f(1) used unfolding nmeta_def by blast
qed

theorem mkfs_image_mounts_witness:
  "\<exists>m. mkfs_main 1000 = Inr m \<and> img_blocks m = 1000 \<and> blk_used (img m) 15 16 \<and> \<not> blk_used (img m) 15 17"
proof -
  have n: "nat (mkfs_nmeta 1000) = 16" using layout(1) [of 1000] by (simp add: size_ok_def)
  have "unat (16 :: u32) < nat 1000" "unat (17 :: u32) < nat 1000" by simp_all
  then show ?thesis using mkfs_image_mounts [of 1000] unfolding n by force
qed

end
