(* ===== verification/Trap.thy ===== *)
theory Trap
  imports Syscall
begin

text \<open>
  Traps: \<open>kernel/trap/trap.c\<close>, with the entry from and the return to user mode of
  \<open>kernel/trap/kernelvec.S\<close>, the control registers of \<open>kernel/include/riscv.h\<close> and the interrupt
  controller.  What the hardware does at a trap and at \<open>sret\<close> is \<open>take_trap\<close> and \<open>sret\<close>; what it
  presents to the kernel (a claimed interrupt, a received character) are fields of the state.
\<close>

section \<open>State\<close>

text \<open>
  \<open>user_reg\<close> holds the registers \<open>x1\<close> to \<open>x31\<close> of the user program while it runs, \<open>tp_reg\<close> and
  \<open>sp_reg\<close> those of the kernel; \<open>plic\<close> is what has been written to the interrupt controller,
  \<open>plic_claim\<close> the interrupt the next read of its claim register returns.
\<close>

record traps = procs +
  user_mode :: bool
  pc :: u64
  user_reg :: "nat \<Rightarrow> u64"
  tp_reg :: u64
  sp_reg :: u64
  sepc :: u64
  sstatus :: u64
  scause :: u64
  stval :: u64
  sip :: u64
  stvec :: u64
  sscratch :: u64
  ticks :: u64
  plic :: "u64 \<Rightarrow> u32"
  plic_claim :: u32
  uart_rhr :: u8

definition SSTATUS_SPP :: u64 where "SSTATUS_SPP = push_bit 8 1"
definition SSTATUS_SPIE :: u64 where "SSTATUS_SPIE = push_bit 5 1"
definition SSTATUS_SIE :: u64 where "SSTATUS_SIE = push_bit 1 1"

definition UART0_IRQ :: nat where "UART0_IRQ = 10"
definition PLIC_PRIORITY :: u64 where "PLIC_PRIORITY = PLIC + 0x0"
definition PLIC_SENABLE :: "nat \<Rightarrow> u64" where "PLIC_SENABLE hart = PLIC + 0x2080 + of_nat hart * 0x100"
definition PLIC_SPRIORITY :: "nat \<Rightarrow> u64" where "PLIC_SPRIORITY hart = PLIC + 0x201000 + of_nat hart * 0x2000"
definition PLIC_SCLAIM :: "nat \<Rightarrow> u64" where "PLIC_SCLAIM hart = PLIC + 0x201004 + of_nat hart * 0x2000"

definition intr_on :: "'a traps_scheme \<Rightarrow> 'a traps_scheme" where
  "intr_on s = s\<lparr>sstatus := sstatus s OR SSTATUS_SIE\<rparr>"

definition intr_off :: "'a traps_scheme \<Rightarrow> 'a traps_scheme" where
  "intr_off s = s\<lparr>sstatus := sstatus s AND NOT SSTATUS_SIE\<rparr>"

definition intr_get :: "'a traps_scheme \<Rightarrow> bool" where
  "intr_get s \<longleftrightarrow> sstatus s AND SSTATUS_SIE \<noteq> 0"

section \<open>Initialisation\<close>

definition trapinithart :: "symbols \<Rightarrow> 'a traps_scheme \<Rightarrow> 'a traps_scheme" where
  "trapinithart lk s = s\<lparr>stvec := sys_trap_vector_addr lk\<rparr>"

definition plic_write :: "u64 \<Rightarrow> u32 \<Rightarrow> 'a traps_scheme \<Rightarrow> 'a traps_scheme" where
  "plic_write a v s = s\<lparr>plic := (plic s)(a := v)\<rparr>"

definition plicinit :: "'a traps_scheme \<Rightarrow> 'a traps_scheme" where
  "plicinit s = plic_write (PLIC_PRIORITY + of_nat UART0_IRQ * 4) 1 s"

definition plicinithart :: "'a traps_scheme \<Rightarrow> 'a traps_scheme" where
  "plicinithart s = plic_write (PLIC_SPRIORITY 0) 0 (plic_write (PLIC_SENABLE 0) (push_bit UART0_IRQ 1) s)"

section \<open>The hardware\<close>

definition take_trap :: "u64 \<Rightarrow> u64 \<Rightarrow> 'a traps_scheme \<Rightarrow> 'a traps_scheme" where
  "take_trap cause tval s =
     (let x = sstatus s AND NOT (SSTATUS_SPP OR SSTATUS_SPIE OR SSTATUS_SIE);
          y = (if user_mode s then x else x OR SSTATUS_SPP);
          z = (if sstatus s AND SSTATUS_SIE \<noteq> 0 then y OR SSTATUS_SPIE else y)
      in s\<lparr>user_mode := False, pc := stvec s, sepc := pc s, sstatus := z, scause := cause, stval := tval\<rparr>)"

definition sret :: "'a traps_scheme \<Rightarrow> 'a traps_scheme" where
  "sret s =
     (let x = sstatus s AND NOT (SSTATUS_SPP OR SSTATUS_SIE);
          y = (if sstatus s AND SSTATUS_SPIE \<noteq> 0 then x OR SSTATUS_SIE else x)
      in s\<lparr>user_mode := (sstatus s AND SSTATUS_SPP = 0), pc := sepc s, sstatus := y OR SSTATUS_SPIE\<rparr>)"

section \<open>Entry and return: kernelvec.S\<close>

text \<open>Register \<open>xr\<close> of the user is doubleword \<open>4 + r\<close> of the trap frame; \<open>t0\<close> is stored last.\<close>

definition saved_order :: "nat list" where
  "saved_order = [1..<5] @ [6..<32] @ [5]"

definition user_trap_entry :: "'a traps_scheme \<Rightarrow> 'a traps_scheme" where
  "user_trap_entry s =
     (let tf = sscratch s;
          m1 = fold (\<lambda>r m. store64 m (entry tf (4 + r)) (user_reg s r)) saved_order (memory s);
          m2 = store64 m1 (entry tf TF_epc) (sepc s)
      in s\<lparr>memory := m2, tp_reg := load64 m2 (entry tf TF_kernel_hartid), sp_reg := load64 m2 (entry tf TF_kernel_sp)\<rparr>)"

definition return_to_user :: "u64 \<Rightarrow> 'a traps_scheme \<Rightarrow> 'a traps_scheme" where
  "return_to_user tf s =
     sret (s\<lparr>user_reg := (\<lambda>r. if 1 \<le> r \<and> r < 32 then load64 (memory s) (entry tf (4 + r)) else user_reg s r),
             sepc := load64 (memory s) (entry tf TF_epc), sscratch := tf\<rparr>)"

section \<open>Handlers\<close>

text \<open>The timer, as both handlers treat it; the result is whether the CPU was kept.\<close>

definition timer_interrupt :: "'a traps_scheme \<Rightarrow> (bool \<times> 'a traps_scheme) res" where
  "timer_interrupt s =
     (let s1 = s\<lparr>sip := sip s AND NOT 2\<rparr>; s2 = s1\<lparr>ticks := ticks s1 + 1\<rparr> in
      bindE (if ticks s2 mod 10 = 0 then printf (Some (ascii ''Tick! (%ld)'' @ [0x0a])) [VLong (ticks s2)] s2 else Inr s2)
        (\<lambda>s3. case myproc s3 of
            Some p \<Rightarrow> if p_status (proc s3 p) = TASK_RUNNING then bindE (yield s3) (\<lambda>s4. Inr (False, s4)) else Inr (True, s3)
          | None \<Rightarrow> Inr (True, s3)))"

definition external_interrupt :: "string \<Rightarrow> 'a traps_scheme \<Rightarrow> 'a traps_scheme res" where
  "external_interrupt msg s =
     (let irq_id = plic_claim s in
      bindE (if irq_id = of_nat UART0_IRQ then
               let c = uart_rhr s in Inr (if c \<noteq> 0 then uart_putc c s else s)
             else if irq_id \<noteq> 0 then printf (Some (ascii msg @ [0x0a])) [VInt irq_id] s
             else Inr s)
        (\<lambda>s1. Inr (if irq_id \<noteq> 0 then plic_write (PLIC_SCLAIM 0) irq_id s1 else s1)))"

text \<open>
  \<open>sys_trap_handler\<close>; \<open>trap_epilogue\<close> is its end, which runs when the process the timer made yield
  has the CPU again.
\<close>

definition trap_epilogue :: "u64 \<Rightarrow> u64 \<Rightarrow> 'a traps_scheme \<Rightarrow> 'a traps_scheme" where
  "trap_epilogue epc status s = s\<lparr>sepc := epc, sstatus := status\<rparr>"

definition sys_trap_handler :: "'a traps_scheme \<Rightarrow> (bool \<times> 'a traps_scheme) res" where
  "sys_trap_handler s =
     (if sstatus s AND SSTATUS_SPP = 0 then Inl (Panic ''sys_trap_handler: not from supervisor mode'')
      else if intr_get s then Inl (Panic ''sys_trap_handler: entered with interrupts enabled'')
      else if scause s AND 0x8000000000000000 \<noteq> 0 then
        let irq = scause s AND 0xff in
        bindE (if irq = 1 then timer_interrupt s
               else if irq = 9 then
                 bindE (external_interrupt ''unexpected external interrupt irq=%d'' s) (\<lambda>s1. Inr (True, s1))
               else bindE (printf (Some (ascii ''sys_trap_handler: unknown interrupt irq=%ld'' @ [0x0a])) [VLong irq] s)
                 (\<lambda>s1. Inr (True, s1)))
          (\<lambda>(kept, s1). Inr (kept, if kept then trap_epilogue (sepc s) (sstatus s) s1 else s1))
      else
        bindE (printf (Some (ascii ''sys_trap_handler: exception! scause=%ld, sepc=%p, stval=%p'' @ [0x0a]))
          [VLong (scause s), VLong (sepc s), VLong (stval s)] s) (\<lambda>_. Inl (Panic ''sys_trap_handler: unexpected exception'')))"

definition usertrapret :: "symbols \<Rightarrow> 'a traps_scheme \<Rightarrow> 'a traps_scheme res" where
  "usertrapret lk = running (\<lambda>p s.
     let s1 = intr_off s;
         s2 = s1\<lparr>stvec := user_trap_entry_addr lk\<rparr>;
         s3 = tf_store p TF_kernel_sp (p_kstack (proc s2 p) + PGSIZE) s2;
         s4 = tf_store p TF_kernel_trap (usertrap_addr lk) s3;
         s5 = tf_store p TF_kernel_hartid (tp_reg s4) s4;
         s6 = tf_store p TF_kernel_satp (satp s5) s5;
         x = sstatus s6 AND NOT SSTATUS_SPP;
         s7 = s6\<lparr>sstatus := x OR SSTATUS_SPIE\<rparr>
     in Inr (return_to_user (p_trapframe (proc s7 p)) s7))"

text \<open>The result is whether \<open>usertrap\<close> came to its end, in user mode.\<close>

definition usertrap :: "symbols \<Rightarrow> 'a traps_scheme \<Rightarrow> (bool \<times> 'a traps_scheme) res" where
  "usertrap lk s =
     (let s0 = s\<lparr>stvec := sys_trap_vector_addr lk\<rparr>; cause = scause s0;
          to_user = (\<lambda>(kept, s1). if kept then bindE (usertrapret lk s1) (\<lambda>s2. Inr (True, s2)) else Inr (False, s1)) in
      if cause = 8 then
        running (\<lambda>p s0.
          let s1 = tf_store p TF_epc (tf_load p TF_epc s0 + 4) s0
          in bindE (syscall lk (intr_on s1)) to_user) s0
      else if cause = 0x8000000000000001 then bindE (timer_interrupt s0) to_user
      else if cause = 0x8000000000000009 then
        bindE (external_interrupt ''usertrap: unexpected external interrupt irq=%d'' s0) (\<lambda>s1. to_user (True, s1))
      else
        bindE (printf (Some (ascii ''usertrap: unexpected scause=%ld, sepc=%p, stval=%p'' @ [0x0a]))
          [VLong cause, VLong (sepc s0), VLong (stval s0)] s0) (\<lambda>_. Inl (Panic ''usertrap'')))"

end
