(* ===== verification/Virtio.thy ===== *)
theory Virtio
  imports Bio Fs_Alloc
begin

text \<open>
  The disk driver, \<open>kernel/driver/virtio_disk.c\<close>: the descriptor table and the two rings that the
  driver shares with the device, the initialisation of the device, and the synchronous transfer of
  one block.  The device is not code of the repository; it is a parameter \<open>dev\<close>, called each time the
  driver looks at the used ring, and \<open>serve\<close> states what the VirtIO specification promises it does.
  Pointers that a descriptor holds are values of \<open>vaddr\<close>.
\<close>

section \<open>State\<close>

definition NUM :: nat where [simp]: "NUM = 8"
definition VRING_DESC_F_NEXT :: u16 where "VRING_DESC_F_NEXT = 1"
definition VRING_DESC_F_WRITE :: u16 where "VRING_DESC_F_WRITE = 2"
definition VIRTIO_BLK_T_IN :: u32 where "VIRTIO_BLK_T_IN = 0"
definition VIRTIO_BLK_T_OUT :: u32 where "VIRTIO_BLK_T_OUT = 1"

datatype vaddr = Null | Request nat | Buf_data nat | Status_byte nat

record virtq_desc =
  d_addr :: vaddr
  d_len :: u32
  d_flags :: u16
  d_next :: u16

record virtio_blk_req =
  rq_type :: u32
  rq_reserved :: u32
  rq_sector :: u64

text \<open>
  The global \<open>disk\<close>; \<open>dev_idx\<close> is the field \<open>used.idx\<close>, which the device writes.  \<open>notified\<close> is the
  register \<open>QUEUE_NOTIFY\<close>: the driver has written to it and the device has not acted on it yet.
\<close>

record vdisk =
  desc :: "nat \<Rightarrow> virtq_desc"
  avail_idx :: u16
  avail_ring :: "nat \<Rightarrow> u16"
  dev_idx :: u16
  used_ring :: "nat \<Rightarrow> u32"
  free_desc :: "nat \<Rightarrow> u8"
  used_idx :: u16
  info_b :: "nat \<Rightarrow> nat option"
  info_status :: "nat \<Rightarrow> u8"
  ops :: "nat \<Rightarrow> virtio_blk_req"
  notified :: bool

type_synonym 'a vstate = "vdisk \<times> 'a bcache_scheme"

definition upd_desc :: "nat \<Rightarrow> virtq_desc \<Rightarrow> vdisk \<Rightarrow> vdisk" where
  "upd_desc i d q = q\<lparr>desc := (desc q)(i := d)\<rparr>"

section \<open>Initialisation\<close>

text \<open>
  What the driver writes to the registers, in order; \<open>regs\<close> is what it reads from them and
  \<open>desc_page\<close> the page number of the descriptor table.
\<close>

definition virtio_features :: "u32 \<Rightarrow> u64" where
  "virtio_features f = fold (\<lambda>i f. f AND NOT (push_bit i 1)) [5, 7, 11, 12, 27, 29, 28] (ucast f)"

definition virtio_disk_init :: "(nat \<Rightarrow> u32) \<Rightarrow> u32 \<Rightarrow> vdisk \<Rightarrow> ((nat \<times> u32) list \<times> vdisk) res" where
  "virtio_disk_init regs desc_page q =
     (if regs 0x000 \<noteq> 0x74726976 \<or> regs 0x004 \<noteq> 1 \<or> regs 0x008 \<noteq> 2 \<or> regs 0x00c \<noteq> 0x554d4551
      then Inl (Panic ''virtio disk init failed: bad magic/version/device'')
      else
        let w1 = [(0x070, 0), (0x070, 0 OR 1), (0x070, 0 OR 1 OR 2), (0x020, ucast (virtio_features (regs 0x010))),
                  (0x070, 0 OR 1 OR 2 OR 8), (0x028, 4096), (0x030, 0)];
            max_num = regs 0x034 in
        if max_num = 0 then Inl (Panic ''virtio disk: no queue'')
        else if unat max_num < NUM then Inl (Panic ''virtio disk: queue too short'')
        else Inr (w1 @ [(0x038, of_nat NUM), (0x03c, 4096), (0x040, desc_page), (0x070, 0 OR 1 OR 2 OR 8 OR 4)],
                  q\<lparr>free_desc := \<lambda>i. if i < NUM then 1 else free_desc q i\<rparr>))"

section \<open>Descriptors\<close>

definition alloc_desc :: "vdisk \<Rightarrow> (nat \<times> vdisk) res" where
  "alloc_desc q =
     (case find (\<lambda>i. free_desc q i \<noteq> 0) [0..<NUM] of
        Some i \<Rightarrow> Inr (i, q\<lparr>free_desc := (free_desc q)(i := 0)\<rparr>)
      | None \<Rightarrow> Inl (Panic ''virtio: no desc''))"

text \<open>The loop only ends at a descriptor without the flag \<open>NEXT\<close>: \<open>None\<close> is a loop that does not end.\<close>

partial_function (option) free_chain :: "nat \<Rightarrow> vdisk \<Rightarrow> vdisk res option" where
  "free_chain i q =
     (if NUM \<le> i then Some (Inl (Fault ''descriptor out of range'')) else
      let d = desc q i;
          q1 = upd_desc i (d\<lparr>d_flags := 0\<rparr>) (q\<lparr>free_desc := (free_desc q)(i := 1)\<rparr>)
      in if d_flags d AND VRING_DESC_F_NEXT \<noteq> 0 then free_chain (unat (d_next d)) q1 else Some (Inr q1))"

section \<open>A request\<close>

text \<open>The first half of \<open>virtio_disk_rw\<close>: three descriptors, the request, and its submission.\<close>

definition submit :: "nat \<Rightarrow> bool \<Rightarrow> 'a vstate \<Rightarrow> (nat \<times> 'a vstate) res" where
  "submit b write v =
     (let q = fst v; s = snd v; sector = ucast (blockno (bufs s b)) * (of_nat BSIZE div 512) :: u64 in
      bindE (alloc_desc q) (\<lambda>(i0, q). bindE (alloc_desc q) (\<lambda>(i1, q). bindE (alloc_desc q) (\<lambda>(i2, q).
      let q1 = q\<lparr>ops := (ops q)(i0 := \<lparr>rq_type = (if write then VIRTIO_BLK_T_OUT else VIRTIO_BLK_T_IN),
                 rq_reserved = 0, rq_sector = sector\<rparr>)\<rparr>;
          q2 = upd_desc i0 \<lparr>d_addr = Request i0, d_len = 16, d_flags = VRING_DESC_F_NEXT, d_next = of_nat i1\<rparr> q1;
          q3 = upd_desc i1 \<lparr>d_addr = Buf_data b, d_len = of_nat BSIZE,
                 d_flags = (if write then 0 else VRING_DESC_F_WRITE) OR VRING_DESC_F_NEXT, d_next = of_nat i2\<rparr> q2;
          q4 = q3\<lparr>info_status := (info_status q3)(i0 := 0xff)\<rparr>;
          q5 = upd_desc i2 \<lparr>d_addr = Status_byte i0, d_len = 1, d_flags = VRING_DESC_F_WRITE, d_next = 0\<rparr> q4;
          q6 = q5\<lparr>info_b := (info_b q5)(i0 := Some b)\<rparr>;
          s1 = upd_buf b (\<lambda>f. f\<lparr>b_disk := 1\<rparr>) s;
          q7 = q6\<lparr>avail_ring := (avail_ring q6)(unat (avail_idx q6) mod NUM := of_nat i0)\<rparr>;
          q8 = q7\<lparr>avail_idx := avail_idx q7 + 1\<rparr>;
          q9 = q8\<lparr>notified := True\<rparr>
      in Inr (i0, (q9, s1))))))"

text \<open>The inner loop of the busy wait: take over what the device has completed.\<close>

function collect :: "'a vstate \<Rightarrow> 'a vstate res" where
  "collect (q, s) =
     (if used_idx q = dev_idx q then Inr (q, s)
      else let k = unat (used_ring q (unat (used_idx q) mod NUM)) in
        if NUM \<le> k then Inl (Fault ''used ring id out of range'')
        else if info_status q k \<noteq> 0 then Inl (Panic ''virtio_disk_rw: status error'')
        else case info_b q k of
            None \<Rightarrow> Inl (Fault ''null buf'')
          | Some b \<Rightarrow> collect (q\<lparr>used_idx := used_idx q + 1\<rparr>, upd_buf b (\<lambda>f. f\<lparr>b_disk := 0\<rparr>) s))"
  by pat_completeness auto

lemma unat_gap_dec: "x \<noteq> y \<Longrightarrow> unat (y - (x + 1)) < unat (y - x)" for x y :: u16
proof -
  assume "x \<noteq> y"
  then have "0 < unat (y - x)" by (simp add: unat_gt_0)
  then have "unat ((y - x) - 1) < unat (y - x)" by (simp add: unat_sub_if_size word_size)
  then show ?thesis by (simp add: algebra_simps)
qed

termination collect
  by (relation "measure (\<lambda>(q, s). unat (dev_idx q - used_idx q))") (simp_all add: unat_gap_dec)

declare collect.simps [simp del]

text \<open>The busy wait; \<open>dev n\<close> is what the device does before the \<open>n\<close>-th look at the ring.\<close>

partial_function (option) poll :: "(nat \<Rightarrow> 'a vstate \<Rightarrow> 'a vstate) \<Rightarrow> nat \<Rightarrow> nat \<Rightarrow> 'a vstate \<Rightarrow> 'a vstate res option" where
  "poll dev n b v =
     (if b_disk (bufs (snd v) b) \<noteq> 1 then Some (Inr v)
      else case collect (dev n v) of Inl e \<Rightarrow> Some (Inl e) | Inr v1 \<Rightarrow> poll dev (Suc n) b v1)"

definition virtio_disk_rw :: "(nat \<Rightarrow> 'a vstate \<Rightarrow> 'a vstate) \<Rightarrow> nat \<Rightarrow> bool \<Rightarrow> 'a vstate \<Rightarrow> 'a vstate res option" where
  "virtio_disk_rw dev b write v =
     (case submit b write v of
        Inl e \<Rightarrow> Some (Inl e)
      | Inr (i0, v1) \<Rightarrow>
          (case poll dev 0 b v1 of
             None \<Rightarrow> None
           | Some (Inl e) \<Rightarrow> Some (Inl e)
           | Some (Inr v2) \<Rightarrow>
               (case free_chain i0 (fst v2) of
                  None \<Rightarrow> None
                | Some (Inl e) \<Rightarrow> Some (Inl e)
                | Some (Inr q) \<Rightarrow> Some (Inr (q, snd v2)))))"

section \<open>The device\<close>

text \<open>
  VirtIO block device: it acts only when it has been notified and the available ring holds a chain it
  has not served.  The next chain of the available ring is a request header, a data buffer and a
  status byte; a read or write of \<open>len\<close> bytes starts at the given 512-byte sector.  Sectors beyond
  the capacity, and a read into a buffer that is not marked as writable, end with an error status.
\<close>

definition transfer_in :: "nat \<Rightarrow> nat \<Rightarrow> (u32 \<Rightarrow> block) \<Rightarrow> block \<Rightarrow> block" where
  "transfer_in pos n d data = (\<lambda>i. if i < n then d (of_nat ((pos + i) div BSIZE)) ((pos + i) mod BSIZE) else data i)"

definition transfer_out :: "nat \<Rightarrow> nat \<Rightarrow> block \<Rightarrow> (u32 \<Rightarrow> block) \<Rightarrow> u32 \<Rightarrow> block" where
  "transfer_out pos n data d = (\<lambda>k i. let at_byte = unat k * BSIZE + i in
     if i < BSIZE \<and> pos \<le> at_byte \<and> at_byte < pos + n then data (at_byte - pos) else d k i)"

definition serve :: "'a vstate \<Rightarrow> 'a vstate" where
  "serve v =
     (if \<not> notified (fst v) \<or> avail_idx (fst v) = dev_idx (fst v) then v else
      let q = fst v; s = snd v;
          head = avail_ring q (unat (dev_idx q) mod NUM);
          d0 = desc q (unat head); d1 = desc q (unat (d_next d0)); d2 = desc q (unat (d_next d1)) in
      case (d_addr d0, d_addr d1, d_addr d2) of
        (Request r, Buf_data b, Status_byte k) \<Rightarrow>
          let rq = ops q r; pos = unat (rq_sector rq) * 512; n = unat (d_len d1);
              ok = (pos + n \<le> disk_blocks s * BSIZE \<and>
                    (rq_type rq = VIRTIO_BLK_T_OUT \<or> rq_type rq = VIRTIO_BLK_T_IN \<and> d_flags d1 AND VRING_DESC_F_WRITE \<noteq> 0));
              s1 = (if \<not> ok then s
                    else if rq_type rq = VIRTIO_BLK_T_IN then
                      upd_buf b (\<lambda>f. f\<lparr>b_data := transfer_in pos n (disk s) (b_data f)\<rparr>) s
                    else s\<lparr>disk := transfer_out pos n (b_data (bufs s b)) (disk s)\<rparr>)
          in (q\<lparr>info_status := (info_status q)(k := (if ok then 0 else 1)),
                used_ring := (used_ring q)(unat (dev_idx q) mod NUM := ucast head),
                dev_idx := dev_idx q + 1, notified := False\<rparr>, s1)
      | _ \<Rightarrow> v)"

text \<open>A device that answers before the look number \<open>k\<close> and does nothing before.\<close>

definition answers_after :: "nat \<Rightarrow> (nat \<Rightarrow> 'a vstate \<Rightarrow> 'a vstate) \<Rightarrow> bool" where
  "answers_after k dev \<longleftrightarrow> (\<forall>n < k. \<forall>v. dev n v = v) \<and> (\<forall>v. dev k v = serve v)"

section \<open>The driver keeps its contract\<close>

text \<open>Between two requests: every descriptor free, everything submitted answered and taken over.\<close>

definition ring_idle :: "vdisk \<Rightarrow> bool" where
  "ring_idle q \<longleftrightarrow> (\<forall>i < NUM. free_desc q i \<noteq> 0) \<and> used_idx q = dev_idx q \<and> avail_idx q = dev_idx q"

lemma alloc_desc_first:
  assumes "k < NUM" "\<And>i. i < k \<Longrightarrow> free_desc q i = 0" "free_desc q k \<noteq> 0"
  shows "alloc_desc q = Inr (k, q\<lparr>free_desc := (free_desc q)(k := 0)\<rparr>)"
proof -
  have "find (\<lambda>i. free_desc q i \<noteq> 0) [0..<NUM] = Some k"
    using assms by (subst find_Some_iff) (intro exI [of _ k], simp)
  then show ?thesis by (simp add: alloc_desc_def)
qed

text \<open>The ring with the request submitted.\<close>

definition submitted :: "nat \<Rightarrow> bool \<Rightarrow> u64 \<Rightarrow> vdisk \<Rightarrow> vdisk" where
  "submitted b write sector q = q\<lparr>
     desc := (desc q)(0 := \<lparr>d_addr = Request 0, d_len = 16, d_flags = 1, d_next = 1\<rparr>,
       1 := \<lparr>d_addr = Buf_data b, d_len = 1024, d_flags = (if write then 1 else 3), d_next = 2\<rparr>,
       2 := \<lparr>d_addr = Status_byte 0, d_len = 1, d_flags = 2, d_next = 0\<rparr>),
     avail_idx := avail_idx q + 1,
     avail_ring := (avail_ring q)(unat (avail_idx q) mod 8 := 0),
     free_desc := (free_desc q)(0 := 0, 1 := 0, 2 := 0),
     info_b := (info_b q)(0 := Some b),
     info_status := (info_status q)(0 := 0xff),
     ops := (ops q)(0 := \<lparr>rq_type = (if write then 1 else 0), rq_reserved = 0, rq_sector = sector\<rparr>), notified := True\<rparr>"

lemma submit_idle:
  assumes "ring_idle q"
  shows "submit b write (q, s) = Inr (0, (submitted b write (ucast (blockno (bufs s b)) * 2) q,
           upd_buf b (\<lambda>f. f\<lparr>b_disk := 1\<rparr>) s))"
proof -
  have f: "i < NUM \<Longrightarrow> free_desc q i \<noteq> 0" for i using assms by (simp add: ring_idle_def)
  let ?q0 = "q\<lparr>free_desc := (free_desc q)(0 := 0)\<rparr>"
  let ?q1 = "?q0\<lparr>free_desc := (free_desc ?q0)(1 := 0)\<rparr>"
  have a: "alloc_desc q = Inr (0, ?q0)" by (rule alloc_desc_first) (simp_all add: f)
  have b: "alloc_desc ?q0 = Inr (1, ?q1)" by (rule alloc_desc_first) (simp_all add: f)
  have c: "alloc_desc ?q1 = Inr (2, ?q1\<lparr>free_desc := (free_desc ?q1)(2 := 0)\<rparr>)"
    by (rule alloc_desc_first) (auto simp: f less_2_cases_iff)
  show ?thesis
    unfolding submit_def fst_conv snd_conv Let_def a b c bindE_Inr prod.case
    by (cases q) (simp add: submitted_def upd_desc_def VRING_DESC_F_NEXT_def VRING_DESC_F_WRITE_def BSIZE_def
      VIRTIO_BLK_T_IN_def VIRTIO_BLK_T_OUT_def)
qed

lemma poll_waits:
  assumes "answers_after k dev" "used_idx q = dev_idx q" "b_disk (bufs s b) = 1" "n \<le> k"
  shows "poll dev n b (q, s) = poll dev k b (q, s)"
  using assms(4)
proof (induction n rule: inc_induct)
  case (step n)
  have "dev n (q, s) = (q, s)" using assms(1) step.hyps unfolding answers_after_def by blast
  moreover have "collect (q, s) = Inr (q, s)" using assms(2) by (simp add: collect.simps)
  ultimately show ?case using step.IH assms(3) by (subst poll.simps) simp
qed simp

text \<open>The ring after the device has answered.\<close>

definition answered :: "u8 \<Rightarrow> vdisk \<Rightarrow> vdisk" where
  "answered st q = q\<lparr>info_status := (info_status q)(0 := st),
     used_ring := (used_ring q)(unat (dev_idx q) mod 8 := 0), dev_idx := dev_idx q + 1, notified := False\<rparr>"

definition transferred :: "nat \<Rightarrow> bool \<Rightarrow> nat \<Rightarrow> 'a bcache_scheme \<Rightarrow> 'a bcache_scheme" where
  "transferred b write pos s =
     (if write then s\<lparr>disk := transfer_out pos 1024 (b_data (bufs s b)) (disk s)\<rparr>
      else upd_buf b (\<lambda>f. f\<lparr>b_data := transfer_in pos 1024 (disk s) (b_data f)\<rparr>) s)"

lemma serve_submitted:
  assumes "ring_idle q"
  shows "serve (submitted b write sector q, s) =
    (let pos = unat sector * 512; ok = (pos + 1024 \<le> disk_blocks s * 1024) in
     (answered (if ok then 0 else 1) (submitted b write sector q), if ok then transferred b write pos s else s))"
proof -
  let ?q = "submitted b write sector q"
  have i: "dev_idx ?q = avail_idx q" "avail_ring ?q (unat (avail_idx q) mod 8) = 0" "notified ?q" "avail_idx ?q = avail_idx q + 1"
    using assms by (simp_all add: ring_idle_def submitted_def)
  have d: "desc ?q 0 = \<lparr>d_addr = Request 0, d_len = 16, d_flags = 1, d_next = 1\<rparr>"
    "desc ?q 1 = \<lparr>d_addr = Buf_data b, d_len = 1024, d_flags = (if write then 1 else 3), d_next = 2\<rparr>"
    "desc ?q 2 = \<lparr>d_addr = Status_byte 0, d_len = 1, d_flags = 2, d_next = 0\<rparr>"
    "ops ?q 0 = \<lparr>rq_type = (if write then 1 else 0), rq_reserved = 0, rq_sector = sector\<rparr>"
    by (simp_all add: submitted_def)
  show ?thesis
    by (simp add: serve_def i d [unfolded One_nat_def] Let_def answered_def transferred_def BSIZE_def VIRTIO_BLK_T_IN_def
      VIRTIO_BLK_T_OUT_def VRING_DESC_F_WRITE_def)
qed

lemma collect_answered:
  assumes "ring_idle q" and q': "q' = answered st (submitted b write sector q)"
  shows "collect (q', s) = (if st \<noteq> 0 then Inl (Panic ''virtio_disk_rw: status error'')
    else Inr (q'\<lparr>used_idx := used_idx q + 1\<rparr>, upd_buf b (\<lambda>f. f\<lparr>b_disk := 0\<rparr>) s))"
proof -
  have f: "used_idx q' = dev_idx q" "dev_idx q' = dev_idx q + 1" "used_ring q' (unat (dev_idx q) mod 8) = 0"
    "info_status q' 0 = st" "info_b q' 0 = Some b"
    using assms(1) by (simp_all add: q' answered_def submitted_def ring_idle_def)
  have n: "used_idx q' \<noteq> dev_idx q'" by (simp add: f)
  have e: "collect (q'\<lparr>used_idx := used_idx q' + 1\<rparr>, upd_buf b (\<lambda>f. f\<lparr>b_disk := 0\<rparr>) s) =
      Inr (q'\<lparr>used_idx := used_idx q' + 1\<rparr>, upd_buf b (\<lambda>f. f\<lparr>b_disk := 0\<rparr>) s)"
    by (subst collect.simps) (simp add: f)
  show ?thesis
    using assms(1) e by (subst collect.simps) (simp add: n f ring_idle_def)
qed

lemma free_submitted:
  assumes "ring_idle q" "q' = (answered 0 (submitted b write sector q))\<lparr>used_idx := used_idx q + 1\<rparr>"
  shows "\<exists>q''. free_chain 0 q' = Some (Inr q'') \<and> ring_idle q''"
proof -
  have d: "d_flags (desc q' 0) = 1" "d_next (desc q' 0) = 1" "d_flags (desc q' (Suc 0)) AND 1 = 1" "d_next (desc q' (Suc 0)) = 2"
    "d_flags (desc q' 2) AND 1 = 0"
    by (simp_all add: assms(2) answered_def submitted_def)
  let ?f = "\<lambda>i q. upd_desc i ((desc q i)\<lparr>d_flags := 0\<rparr>) (q\<lparr>free_desc := (free_desc q)(i := 1)\<rparr>)"
  have "free_chain 0 q' = free_chain 1 (?f 0 q')"
    by (subst free_chain.simps) (simp add: d VRING_DESC_F_NEXT_def Let_def)
  also have "\<dots> = free_chain 2 (?f 1 (?f 0 q'))"
    by (subst free_chain.simps) (simp add: d VRING_DESC_F_NEXT_def Let_def upd_desc_def)
  also have "\<dots> = Some (Inr (?f 2 (?f 1 (?f 0 q'))))"
    by (subst free_chain.simps) (simp add: d VRING_DESC_F_NEXT_def Let_def upd_desc_def)
  moreover have "ring_idle (?f 2 (?f 1 (?f 0 q')))"
    using assms(1) by (simp add: ring_idle_def upd_desc_def assms(2) answered_def submitted_def)
  ultimately show ?thesis by metis
qed

text \<open>Blocks as far as they exist: the bytes below \<open>BSIZE\<close>.\<close>

definition cut :: "block \<Rightarrow> block" where
  "cut d = (\<lambda>i. if i < BSIZE then d i else 0)"

definition seen :: "'a bcache_scheme \<Rightarrow> 'a bcache_scheme" where
  "seen s = s\<lparr>disk := \<lambda>k. cut (disk s k), bufs := \<lambda>b. (bufs s b)\<lparr>b_data := cut (b_data (bufs s b))\<rparr>\<rparr>"

lemma transfer_in_block: "cut (transfer_in (unat blk * 1024) 1024 d data) = cut (d blk)"
  by (rule ext) (simp add: cut_def transfer_in_def BSIZE_def)

lemma transfer_out_block:
  fixes blk :: u32
  shows "cut (transfer_out (unat blk * 1024) 1024 data d k) = cut ((d(blk := data)) k)"
proof (cases "k = blk")
  case True
  then show ?thesis by (auto simp: cut_def transfer_out_def BSIZE_def fun_eq_iff)
next
  case False
  then have "unat k < unat blk \<or> unat blk < unat k" by (metis unat_eqD linorder_neqE_nat)
  then have "\<not> (unat blk * 1024 \<le> unat k * 1024 + i \<and> unat k * 1024 + i < unat blk * 1024 + 1024)" if "i < 1024" for i
    using that by linarith
  then show ?thesis using False by (auto simp: cut_def transfer_out_def BSIZE_def Let_def fun_eq_iff)
qed

lemma sector_pos: "unat (ucast (blk :: u32) * 2 :: u64) * 512 = unat blk * 1024"
proof -
  have b: "unat blk < 2 ^ 32" using unsigned_less [of blk] by simp
  have "unat (ucast blk :: u64) = unat blk" using b by (simp add: unsigned_ucast_eq take_bit_nat_eq_self)
  then have "unat (ucast blk * 2 :: u64) = unat blk * 2" using b by (simp add: unat_word_ariths)
  then show ?thesis by simp
qed

lemma seen_transferred:
  "seen (upd_buf b (\<lambda>f. f\<lparr>b_disk := 0\<rparr>) (transferred b write (unat (blockno (bufs s b)) * 1024) (upd_buf b (\<lambda>f. f\<lparr>b_disk := 1\<rparr>) s))) =
   seen (upd_buf b (\<lambda>f. f\<lparr>b_disk := 0\<rparr>) (if write then s\<lparr>disk := (disk s)(blockno (bufs s b) := b_data (bufs s b))\<rparr>
     else upd_buf b (\<lambda>f. f\<lparr>b_data := disk s (blockno (bufs s b))\<rparr>) s))"
proof (cases "write")
  case True
  then show ?thesis
    by (cases s) (simp add: seen_def transferred_def upd_buf_def transfer_out_block fun_eq_iff del: fun_upd_apply, simp add: fun_eq_iff)
next
  case False
  then show ?thesis
    by (cases s) (simp add: seen_def transferred_def upd_buf_def fun_eq_iff transfer_in_block)
qed

text \<open>How the call ends, for every device that answers first at look \<open>k\<close>: the result does not depend on the rest of it.\<close>

lemma virtio_ends:
  assumes idle: "ring_idle q"
  obtains r where "\<And>dev k. answers_after k dev \<Longrightarrow> virtio_disk_rw dev b write (q, s) = Some r"
    and "case disk_request b write s of
       Inl e \<Rightarrow> r = Inl e
     | Inr t \<Rightarrow> \<exists>q' s'. r = Inr (q', s') \<and> ring_idle q' \<and> b_disk (bufs s' b) = 0 \<and> seen s' = seen (upd_buf b (\<lambda>f. f\<lparr>b_disk := 0\<rparr>) t)"
proof -
  let ?blk = "blockno (bufs s b)"
  let ?sec = "ucast ?blk * 2 :: u64"
  let ?q1 = "submitted b write ?sec q"
  let ?s1 = "upd_buf b (\<lambda>f. f\<lparr>b_disk := 1\<rparr>) s"
  have b1: "b_disk (bufs ?s1 b) = 1" by (simp add: upd_buf_def)
  have u: "used_idx ?q1 = dev_idx ?q1" using idle by (simp add: submitted_def ring_idle_def)
  have p0: "poll dev 0 b (?q1, ?s1) = poll dev k b (?q1, ?s1)" if "answers_after k dev" for dev k
    by (rule poll_waits [OF that u b1]) simp
  have dk: "dev k (?q1, ?s1) = serve (?q1, ?s1)" if "answers_after k dev" for dev k
    using that unfolding answers_after_def by blast
  have cap: "unat ?sec * 512 + 1024 \<le> disk_blocks ?s1 * 1024 \<longleftrightarrow> unat ?blk < disk_blocks s"
    unfolding sector_pos by (simp add: upd_buf_def) linarith
  show thesis
  proof (cases "unat ?blk < disk_blocks s")
    case False
    have "virtio_disk_rw dev b write (q, s) = Some (Inl (Panic ''virtio_disk_rw: status error''))" if a: "answers_after k dev" for dev k
    proof -
      have "serve (?q1, ?s1) = (answered 1 ?q1, ?s1)" using False unfolding serve_submitted [OF idle] Let_def cap by simp
      then have "poll dev k b (?q1, ?s1) = Some (Inl (Panic ''virtio_disk_rw: status error''))"
        using b1 by (subst poll.simps) (simp add: dk [OF a] collect_answered [OF idle refl])
      then show ?thesis unfolding virtio_disk_rw_def submit_idle [OF idle] by (simp add: p0 [OF a])
    qed
    moreover have "disk_request b write s = Inl (Panic ''virtio_disk_rw: status error'')"
      using False by (simp add: disk_request_def Let_def)
    ultimately show thesis by (intro that) simp_all
  next
    case True
    let ?s2 = "upd_buf b (\<lambda>f. f\<lparr>b_disk := 0\<rparr>) (transferred b write (unat ?blk * 1024) ?s1)"
    let ?q2 = "(answered 0 ?q1)\<lparr>used_idx := used_idx q + 1\<rparr>"
    obtain q3 where f: "free_chain 0 ?q2 = Some (Inr q3)" "ring_idle q3" using free_submitted [OF idle refl] by blast
    have "virtio_disk_rw dev b write (q, s) = Some (Inr (q3, ?s2))" if a: "answers_after k dev" for dev k
    proof -
      have "serve (?q1, ?s1) = (answered 0 ?q1, transferred b write (unat ?blk * 1024) ?s1)"
        using True unfolding serve_submitted [OF idle] Let_def cap by (simp add: sector_pos)
      moreover have "poll dev (Suc k) b (?q2, ?s2) = Some (Inr (?q2, ?s2))"
        by (subst poll.simps) (simp add: upd_buf_def)
      ultimately have p: "poll dev k b (?q1, ?s1) = Some (Inr (?q2, ?s2))"
        using b1 by (subst poll.simps) (simp add: dk [OF a] collect_answered [OF idle refl])
      show ?thesis unfolding virtio_disk_rw_def submit_idle [OF idle] by (simp add: p0 [OF a] p f(1))
    qed
    moreover have "disk_request b write s = Inr (if write then s\<lparr>disk := (disk s)(?blk := b_data (bufs s b))\<rparr>
        else upd_buf b (\<lambda>f. f\<lparr>b_data := disk s ?blk\<rparr>) s)"
      using True by (simp add: disk_request_def Let_def)
    moreover have "b_disk (bufs ?s2 b) = 0" by (simp add: upd_buf_def)
    ultimately show thesis using f(2) seen_transferred [of b "write" s] by (intro that [of "Inr (q3, ?s2)"]) simp_all
  qed
qed

lemma virtio_request:
  assumes "answers_after k dev" and "ring_idle q"
  shows "\<exists>r. virtio_disk_rw dev b write (q, s) = Some r \<and>
    (case disk_request b write s of
       Inl e \<Rightarrow> r = Inl e
     | Inr t \<Rightarrow> \<exists>q' s'. r = Inr (q', s') \<and> ring_idle q' \<and> seen s' = seen (upd_buf b (\<lambda>f. f\<lparr>b_disk := 0\<rparr>) t))"
  by (rule virtio_ends [OF assms(2), of b "write" s]) (use assms(1) in \<open>fastforce split: sum.splits\<close>)

lemma virtio_result:
  assumes "\<And>dev :: nat \<Rightarrow> 'a vstate \<Rightarrow> 'a vstate. C dev \<Longrightarrow> answers_after k dev" and "ring_idle q"
  shows "\<exists>r. (if unat (blockno (bufs s b)) < disk_blocks s
         then \<exists>q' s'. r = Inr (q', s') \<and> ring_idle q' \<and> b_disk (bufs s' b) = 0
         else r = Inl (Panic ''virtio_disk_rw: status error'')) \<and>
      (\<forall>dev. C dev \<longrightarrow> virtio_disk_rw dev b write (q, s) = Some r)"
  by (rule virtio_ends [OF assms(2), of b "write" s])
    (use assms(1) in \<open>auto simp: disk_request_def Let_def split: if_splits\<close>)

text \<open>
  C8: The driver keeps the contract the buffer cache relies on, whatever request it is given and
  however long the device takes: with a device that answers as VirtIO specifies, \<open>virtio_disk_rw\<close>
  returns, with the panic exactly where the contract has it, and otherwise with the block transferred
  between the disk and this buffer alone and all descriptors free again, ready for the next request.
\<close>

theorem virtio_disk_rw_implements_request:
  assumes "answers_after k dev" and "ring_idle q"
  shows "\<exists>r. virtio_disk_rw dev b write (q, s) = Some r \<and>
    (case disk_request b write s of
       Inl e \<Rightarrow> r = Inl e
     | Inr t \<Rightarrow> \<exists>q' s'. r = Inr (q', s') \<and> ring_idle q' \<and> seen s' = seen (upd_buf b (\<lambda>f. f\<lparr>b_disk := 0\<rparr>) t))"
  by (rule virtio_request [OF assms])

lemma init_idle:
  assumes "virtio_disk_init regs pg q = Inr (w, q')" "used_idx q = dev_idx q" "avail_idx q = dev_idx q"
  shows "ring_idle q'"
  using assms by (auto simp: virtio_disk_init_def Let_def ring_idle_def split: if_splits)

text \<open>The driver after \<open>virtio_disk_init\<close>, and a device that answers at the third look.\<close>

definition demo_vdisk :: vdisk where
  "demo_vdisk = \<lparr>desc = \<lambda>_. \<lparr>d_addr = Null, d_len = 0, d_flags = 0, d_next = 0\<rparr>, avail_idx = 0, avail_ring = \<lambda>_. 0,
     dev_idx = 0, used_ring = \<lambda>_. 0, free_desc = \<lambda>i. if i < NUM then 1 else 0, used_idx = 0, info_b = \<lambda>_. None,
     info_status = \<lambda>_. 0, ops = \<lambda>_. \<lparr>rq_type = 0, rq_reserved = 0, rq_sector = 0\<rparr>, notified = False\<rparr>"

definition demo_device :: "nat \<Rightarrow> 'a vstate \<Rightarrow> 'a vstate" where
  "demo_device n = (if n = 3 then serve else (\<lambda>v. v))"

theorem virtio_disk_rw_implements_request_witness:
  "\<exists>q s. virtio_disk_rw demo_device 2 False (demo_vdisk, demo_boot_cache) = Some (Inr (q, s)) \<and> ring_idle q"
proof -
  have dev: "answers_after 3 demo_device" by (simp add: answers_after_def demo_device_def)
  have idle: "ring_idle demo_vdisk" by (simp add: ring_idle_def demo_vdisk_def)
  have "disk_request 2 False demo_boot_cache = Inr (upd_buf 2 (\<lambda>f. f\<lparr>b_data := disk demo_boot_cache 0\<rparr>) demo_boot_cache)"
    by (simp add: disk_request_def demo_boot_cache_def)
  then show ?thesis
    using virtio_disk_rw_implements_request [OF dev idle, of 2 False demo_boot_cache] by auto
qed

text \<open>With a device that never answers the driver waits forever.\<close>

lemma poll_stuck:
  assumes "\<forall>n. dev n v = v" "used_idx (fst v) = dev_idx (fst v)" "b_disk (bufs (snd v) b) = 1"
  shows "poll dev n b v = None"
proof -
  have c: "collect v = Inr v" using assms(2) by (cases v) (simp add: collect.simps)
  have "\<not> (dev' = dev \<and> b' = b \<and> v' = v)" if "poll dev' m b' v' = Some r" for dev' m b' v' r
    by (rule poll.raw_induct [where P = "\<lambda>dev' m b' v' r. \<not> (dev' = dev \<and> b' = b \<and> v' = v)", OF _ that])
      (use assms(1,3) c in \<open>fastforce split: if_splits\<close>)
  then show ?thesis by (cases "poll dev n b v") blast+
qed

lemma virtio_stuck:
  assumes "\<forall>n v. dev n v = v" "ring_idle q"
  shows "virtio_disk_rw dev b write (q, s) = None"
proof -
  let ?v = "(submitted b write (ucast (blockno (bufs s b)) * 2) q, upd_buf b (\<lambda>f. f\<lparr>b_disk := 1\<rparr>) s)"
  have "poll dev 0 b ?v = None"
    using assms by (intro poll_stuck) (simp_all add: submitted_def ring_idle_def upd_buf_def)
  then show ?thesis by (simp add: virtio_disk_rw_def submit_idle [OF assms(2)])
qed

text \<open>
  A device that comes to the queue when it likes: \<open>acts n\<close> says whether it does so before the look
  number \<open>n\<close>.  What it does there is \<open>serve\<close>.
\<close>

definition device :: "(nat \<Rightarrow> bool) \<Rightarrow> nat \<Rightarrow> 'a vstate \<Rightarrow> 'a vstate" where
  "device acts n = (if acts n then serve else (\<lambda>v. v))"

text \<open>C37: \<open>virtio_disk_rw\<close> has no timeout, and needs none as long as the device comes to the queue once.  If it ever
  does, the call ends with the first look \<open>k\<close> after it has: in the panic when the block is not on the disk, and otherwise
  with the buffer free and the ring idle again, and whatever the device does at later looks changes nothing of this.  If it
  never does, the call waits forever.\<close>

theorem virtio_disk_rw_terminates:
  assumes "ring_idle q"
  shows "if \<forall>n. \<not> acts n then virtio_disk_rw (device acts) b write (q, s) = None else
    \<exists>r. (if unat (blockno (bufs s b)) < disk_blocks s
         then \<exists>q' s'. r = Inr (q', s') \<and> ring_idle q' \<and> b_disk (bufs s' b) = 0
         else r = Inl (Panic ''virtio_disk_rw: status error'')) \<and>
      (\<forall>dev. (\<forall>n \<le> (LEAST k. acts k). dev n = device acts n) \<longrightarrow> virtio_disk_rw dev b write (q, s) = Some r)"
proof (cases "\<forall>n. \<not> acts n")
  case True
  then show ?thesis using virtio_stuck [OF _ assms, of "device acts" b "write" s] by (simp add: device_def)
next
  case False
  let ?k = "LEAST k. acts k"
  have k: "acts ?k" "n < ?k \<Longrightarrow> \<not> acts n" for n
    using False LeastI_ex [of acts] not_less_Least by blast+
  have "answers_after ?k dev" if d: "\<forall>n \<le> ?k. dev n = device acts n" for dev :: "nat \<Rightarrow> 'a vstate \<Rightarrow> 'a vstate"
  proof -
    have "dev n = (\<lambda>v. v)" if "n < ?k" for n using d k(2) [OF that] that by (simp add: device_def)
    moreover have "dev ?k = serve" using d k(1) by (simp add: device_def)
    ultimately show ?thesis by (simp add: answers_after_def)
  qed
  then show ?thesis unfolding if_not_P [OF False] by (rule virtio_result [OF _ assms])
qed

theorem virtio_disk_rw_terminates_witness:
  "(\<exists>q s. virtio_disk_rw (device (\<lambda>n. n = 3 \<or> n = 5)) 2 True (demo_vdisk, demo_boot_cache) = Some (Inr (q, s)) \<and> ring_idle q) \<and>
   virtio_disk_rw (device (\<lambda>n. False)) 2 True (demo_vdisk, demo_boot_cache) = None"
proof
  have idle: "ring_idle demo_vdisk" by (simp add: ring_idle_def demo_vdisk_def)
  have "unat (blockno (bufs demo_boot_cache 2)) < disk_blocks demo_boot_cache" by (simp add: demo_boot_cache_def)
  then show "\<exists>q s. virtio_disk_rw (device (\<lambda>n. n = 3 \<or> n = 5)) 2 True (demo_vdisk, demo_boot_cache) = Some (Inr (q, s)) \<and> ring_idle q"
    using virtio_disk_rw_terminates [OF idle, of "\<lambda>n. n = 3 \<or> n = 5" 2 True demo_boot_cache] by (auto split: if_splits)
  show "virtio_disk_rw (device (\<lambda>n. False)) 2 True (demo_vdisk, demo_boot_cache) = None"
    using virtio_disk_rw_terminates [OF idle, of "\<lambda>n. False" 2 True demo_boot_cache] by simp
qed

end
