(* ===== verification/Boot.thy ===== *)
theory Boot
  imports Trap Virtio
begin

text \<open>
  The boot: machine mode in \<open>kernel/boot/start.c\<close>, its timer handler \<open>timervec\<close> in
  \<open>kernel/trap/kernelvec.S\<close>, and \<open>start_main\<close> of \<open>kernel/boot/main.c\<close>, with \<open>uartinit\<close> of
  \<open>kernel/driver/uart.c\<close> and the machine-mode registers of \<open>kernel/include/riscv.h\<close>.
\<close>

section \<open>State\<close>

text \<open>
  \<open>sie\<close> is the part of \<open>mie\<close> that is delegated, as in the hardware; \<open>sstatus\<close> and \<open>mstatus\<close> share
  no bit that the code of this theory touches.  \<open>clint\<close> is the timer, by address, \<open>uart_reg\<close> what has
  been written to the registers of the serial port, \<open>queue\<close> the driver's ring, and \<open>virtio_writes\<close>
  what has been written to the registers of the disk.
\<close>

record machine_state = traps +
  m_mode :: bool
  mstatus :: u64
  mepc :: u64
  medeleg :: u64
  mideleg :: u64
  mie :: u64
  mtvec :: u64
  mscratch :: u64
  pmpaddr0 :: u64
  pmpcfg0 :: u64
  mhartid :: u64
  clint :: "u64 \<Rightarrow> u64"
  uart_reg :: "nat \<Rightarrow> u8"
  queue :: vdisk
  virtio_writes :: "(nat \<times> u32) list"

text \<open>Addresses of two entry points and of \<open>timer_scratch\<close>.\<close>

record boot_symbols =
  start_main_addr :: u64
  timervec_addr :: u64
  timer_scratch :: u64

definition MSTATUS_MPP_MASK :: u64 where "MSTATUS_MPP_MASK = push_bit 11 3"
definition MSTATUS_MPP_S :: u64 where "MSTATUS_MPP_S = push_bit 11 1"
definition MSTATUS_MIE :: u64 where "MSTATUS_MIE = push_bit 3 1"
definition MIE_MTIE :: u64 where "MIE_MTIE = push_bit 7 1"
definition SIE_SEIE :: u64 where "SIE_SEIE = push_bit 9 1"
definition SIE_STIE :: u64 where "SIE_STIE = push_bit 5 1"
definition SIE_SSIE :: u64 where "SIE_SSIE = push_bit 1 1"
definition CLINT :: u64 where "CLINT = 0x2000000"
definition CLINT_MTIMECMP :: "i32 \<Rightarrow> u64" where "CLINT_MTIMECMP hartid = CLINT + 0x4000 + scast (8 * hartid)"
definition CLINT_MTIME :: u64 where "CLINT_MTIME = CLINT + 0xBFF8"
definition NCPU :: nat where "NCPU = 1"

text \<open>\<open>MPIE\<close>, which only the hardware uses, and the interrupts of supervisor mode, the only ones it delegates.\<close>

definition MSTATUS_MPIE :: u64 where "MSTATUS_MPIE = push_bit 7 1"
definition S_INTERRUPTS :: u64 where "S_INTERRUPTS = SIE_SEIE OR SIE_STIE OR SIE_SSIE"

section \<open>Registers: riscv.h\<close>

definition r_mstatus :: "'a machine_state_scheme \<Rightarrow> u64" where "r_mstatus s = mstatus s"
definition w_mstatus :: "u64 \<Rightarrow> 'a machine_state_scheme \<Rightarrow> 'a machine_state_scheme" where "w_mstatus x s = s\<lparr>mstatus := x\<rparr>"
definition w_mepc :: "u64 \<Rightarrow> 'a machine_state_scheme \<Rightarrow> 'a machine_state_scheme" where "w_mepc x s = s\<lparr>mepc := x\<rparr>"
text \<open>Bit 11 of \<open>medeleg\<close>, the call from machine mode, is wired to 0.\<close>

definition w_medeleg :: "u64 \<Rightarrow> 'a machine_state_scheme \<Rightarrow> 'a machine_state_scheme" where
  "w_medeleg x s = s\<lparr>medeleg := x AND NOT 0x800\<rparr>"
definition w_mideleg :: "u64 \<Rightarrow> 'a machine_state_scheme \<Rightarrow> 'a machine_state_scheme" where
  "w_mideleg x s = s\<lparr>mideleg := x AND S_INTERRUPTS\<rparr>"
definition r_sie :: "'a machine_state_scheme \<Rightarrow> u64" where "r_sie s = mie s AND mideleg s"
definition w_sie :: "u64 \<Rightarrow> 'a machine_state_scheme \<Rightarrow> 'a machine_state_scheme" where
  "w_sie x s = s\<lparr>mie := (mie s AND NOT (mideleg s)) OR (x AND mideleg s)\<rparr>"
definition r_mie :: "'a machine_state_scheme \<Rightarrow> u64" where "r_mie s = mie s"
definition w_mie :: "u64 \<Rightarrow> 'a machine_state_scheme \<Rightarrow> 'a machine_state_scheme" where "w_mie x s = s\<lparr>mie := x\<rparr>"
definition w_mtvec :: "u64 \<Rightarrow> 'a machine_state_scheme \<Rightarrow> 'a machine_state_scheme" where "w_mtvec x s = s\<lparr>mtvec := x\<rparr>"
definition w_mscratch :: "u64 \<Rightarrow> 'a machine_state_scheme \<Rightarrow> 'a machine_state_scheme" where "w_mscratch x s = s\<lparr>mscratch := x\<rparr>"
definition w_pmpaddr0 :: "u64 \<Rightarrow> 'a machine_state_scheme \<Rightarrow> 'a machine_state_scheme" where "w_pmpaddr0 x s = s\<lparr>pmpaddr0 := x\<rparr>"
definition w_pmpcfg0 :: "u64 \<Rightarrow> 'a machine_state_scheme \<Rightarrow> 'a machine_state_scheme" where "w_pmpcfg0 x s = s\<lparr>pmpcfg0 := x\<rparr>"
definition w_satp :: "u64 \<Rightarrow> 'a machine_state_scheme \<Rightarrow> 'a machine_state_scheme" where "w_satp x s = s\<lparr>satp := x\<rparr>"
definition r_mhartid :: "'a machine_state_scheme \<Rightarrow> u64" where "r_mhartid s = mhartid s"
definition w_tp :: "u64 \<Rightarrow> 'a machine_state_scheme \<Rightarrow> 'a machine_state_scheme" where "w_tp x s = s\<lparr>tp_reg := x\<rparr>"

lemmas register_defs = r_mstatus_def w_mstatus_def w_mepc_def w_medeleg_def w_mideleg_def r_sie_def w_sie_def
  r_mie_def w_mie_def w_mtvec_def w_mscratch_def w_pmpaddr0_def w_pmpcfg0_def w_satp_def r_mhartid_def w_tp_def

section \<open>The hardware in machine mode\<close>

definition mret :: "'a machine_state_scheme \<Rightarrow> 'a machine_state_scheme" where
  "mret s =
     (let x = mstatus s AND NOT (MSTATUS_MIE OR MSTATUS_MPIE OR MSTATUS_MPP_MASK);
          y = (if mstatus s AND MSTATUS_MPIE \<noteq> 0 then x OR MSTATUS_MIE else x)
      in s\<lparr>m_mode := (mstatus s AND MSTATUS_MPP_MASK = MSTATUS_MPP_MASK),
           user_mode := (mstatus s AND MSTATUS_MPP_MASK = 0), pc := mepc s, mstatus := y OR MSTATUS_MPIE\<rparr>)"

definition m_trap :: "'a machine_state_scheme \<Rightarrow> 'a machine_state_scheme" where
  "m_trap s =
     (let x = mstatus s AND NOT (MSTATUS_MIE OR MSTATUS_MPIE OR MSTATUS_MPP_MASK);
          y = (if mstatus s AND MSTATUS_MIE \<noteq> 0 then x OR MSTATUS_MPIE else x);
          z = (if m_mode s then y OR MSTATUS_MPP_MASK else if user_mode s then y else y OR MSTATUS_MPP_S)
      in s\<lparr>m_mode := True, user_mode := False, mepc := pc s, pc := mtvec s, mstatus := z\<rparr>)"

text \<open>The timer of the hart interrupts machine mode: always below it, in it only with \<open>MIE\<close>.\<close>

definition timer_fires :: "i32 \<Rightarrow> 'a machine_state_scheme \<Rightarrow> bool" where
  "timer_fires hart s \<longleftrightarrow> clint s (CLINT_MTIMECMP hart) \<le> clint s CLINT_MTIME \<and> mie s AND MIE_MTIE \<noteq> 0 \<and>
     (m_mode s \<longrightarrow> mstatus s AND MSTATUS_MIE \<noteq> 0)"

section \<open>start.c\<close>

text \<open>An index past the one row of \<open>timer_scratch\<close> is undefined.\<close>

definition timerinit :: "boot_symbols \<Rightarrow> 'a machine_state_scheme \<Rightarrow> 'a machine_state_scheme res" where
  "timerinit ba s =
     (let hartid = ucast (r_mhartid s) :: i32;
          interval = 1000000 :: i32;
          s1 = s\<lparr>clint := (clint s)(CLINT_MTIMECMP hartid := clint s CLINT_MTIME + scast interval)\<rparr> in
      if sint hartid < 0 \<or> int NCPU \<le> sint hartid then Inl (Fault ''timer_scratch'')
      else
        let scratch = timer_scratch ba + 40 * scast hartid;
            s2 = s1\<lparr>memory := store64 (memory s1) (scratch + 24) (CLINT_MTIMECMP hartid)\<rparr>;
            s3 = s2\<lparr>memory := store64 (memory s2) (scratch + 32) (scast interval)\<rparr>;
            s4 = w_mscratch scratch s3;
            s5 = w_mtvec (timervec_addr ba) s4;
            s6 = w_mie (r_mie s5 OR MIE_MTIE) s5
        in Inr (w_mstatus (r_mstatus s6 OR MSTATUS_MIE) s6))"

definition start :: "boot_symbols \<Rightarrow> 'a machine_state_scheme \<Rightarrow> 'a machine_state_scheme res" where
  "start ba s =
     (let x = r_mstatus s AND NOT MSTATUS_MPP_MASK;
          s1 = w_mstatus (x OR MSTATUS_MPP_S) s;
          s2 = w_mepc (start_main_addr ba) s1;
          s3 = w_medeleg 0xffff s2;
          s4 = w_mideleg 0xffff s3;
          s5 = w_sie (r_sie s4 OR SIE_SEIE OR SIE_STIE OR SIE_SSIE) s4;
          s6 = w_pmpaddr0 0x3fffffffffffff s5;
          s7 = w_pmpcfg0 0xf s6;
          s8 = w_satp 0 s7 in
      bindE (timerinit ba s8) (\<lambda>s9. Inr (mret (w_tp (r_mhartid s9) s9))))"

section \<open>timervec\<close>

text \<open>The handler, on the registers \<open>x0\<close> to \<open>x31\<close>: \<open>a0\<close> is 10, \<open>a1\<close> 11, \<open>a2\<close> 12.\<close>

definition timervec :: "(nat \<Rightarrow> u64) \<Rightarrow> 'a machine_state_scheme \<Rightarrow> (nat \<Rightarrow> u64) \<times> 'a machine_state_scheme" where
  "timervec r s =
     (let (r1, s1) = (r(10 := mscratch s), s\<lparr>mscratch := r 10\<rparr>);
          s2 = s1\<lparr>memory := store64 (memory s1) (r1 10 + 8) (r1 11)\<rparr>;
          s3 = s2\<lparr>memory := store64 (memory s2) (r1 10 + 16) (r1 12)\<rparr>;
          r2 = r1(11 := load64 (memory s3) (r1 10 + 24));
          r3 = r2(12 := load64 (memory s3) (r2 10 + 32));
          r4 = r3(11 := clint s3 (r3 11));
          r5 = r4(11 := r4 11 + r4 12);
          r6 = r5(12 := load64 (memory s3) (r5 10 + 24));
          s4 = s3\<lparr>clint := (clint s3)(r6 12 := r6 11)\<rparr>;
          r7 = r6(11 := 2);
          s5 = s4\<lparr>sip := sip s4 AND NOT SIE_SSIE OR (r7 11 AND SIE_SSIE)\<rparr>;
          r8 = r7(12 := load64 (memory s5) (r7 10 + 16));
          r9 = r8(11 := load64 (memory s5) (r8 10 + 8));
          (r10, s6) = (r9(10 := mscratch s5), s5\<lparr>mscratch := r9 10\<rparr>)
      in (r10, mret s6))"

section \<open>main.c\<close>

text \<open>\<open>uartinit\<close>: the registers it writes, the divisor latch and the interrupt enable register share their place.\<close>

definition uartinit :: "'a machine_state_scheme \<Rightarrow> 'a machine_state_scheme" where
  "uartinit s = fold (\<lambda>(r, v) s. s\<lparr>uart_reg := (uart_reg s)(r := v)\<rparr>)
     [(1, 0x00), (3, 0x80), (0, 0x03), (1, 0x00), (3, 0x03), (2, 0x07), (4, 0x0B), (1, 1)] s"

text \<open>\<open>scheduler\<close> from its call to its first look at the table.\<close>

definition scheduler_enter :: "'a machine_state_scheme \<Rightarrow> 'a machine_state_scheme" where
  "scheduler_enter s = intr_on (scheduler_start s)"

text \<open>
  \<open>start_main\<close> without the interrupts that may come in after \<open>intr_on\<close>; what \<open>virtio_disk_init\<close> reads
  from the device (\<open>regs\<close>) and the page of the ring are parameters.
\<close>

definition start_main :: "symbols \<Rightarrow> u8 list \<Rightarrow> (nat \<Rightarrow> u32) \<Rightarrow> u32 \<Rightarrow> 'a machine_state_scheme \<Rightarrow> 'a machine_state_scheme res" where
  "start_main lk code regs desc_page s =
     bindE (clear_screen s) (\<lambda>s.
     bindE (printf (Some (ascii ''Welcome to WHU OS Lab!'' @ [0x0a])) [] s) (\<lambda>s.
     bindE (kinit lk s) (\<lambda>s.
     bindE (kvmininit lk s) (\<lambda>s.
     let s = intr_on (plicinithart (plicinit (uartinit (trapinithart lk (kvminithart s))))) in
     bindE (clear_screen s) (\<lambda>s.
     bindE (printf (Some (ascii ''Paging enabled! Interrupts on.'' @ [0x0a])) [] s) (\<lambda>s.
     let s = binit (procinit s) in
     bindE (virtio_disk_init regs desc_page (queue s)) (\<lambda>(w, q).
     bindE (fsinit ROOTDEV (s\<lparr>queue := q, virtio_writes := virtio_writes s @ w\<rparr>)) (\<lambda>s.
     bindE (userinit lk code s) (\<lambda>s.
     Inr (scheduler_enter s))))))))))"

end
