(* ===== verification/User_Trap.thy ===== *)
theory User_Trap
  imports Trap
begin

text \<open>
  A system call seen from the user program: \<open>ecall\<close>, the entry code, \<open>usertrap\<close> and \<open>usertrapret\<close>
  (\<open>kernel/trap/trap.c\<close>, \<open>kernel/trap/kernelvec.S\<close>) bring the program back behind the \<open>ecall\<close> with
  its registers as they were, but for the result in \<open>a0\<close>.
\<close>

section \<open>Trap frames\<close>

lemma load64_entry_store:
  assumes "page_aligned tf" "i < 512" "j < 512"
  shows "load64 (store64 m (entry tf i) v) (entry tf j) = (if i = j then v else load64 m (entry tf j))"
  using load64_entry_other [of tf tf i j m v] assms by auto

lemma load64_saved:
  assumes "page_aligned tf" "i < 512" "distinct rs" "\<forall>r \<in> set rs. r < 500"
  shows "load64 (fold (\<lambda>r m. store64 m (entry tf (4 + r)) (g r)) rs m) (entry tf i) =
    (if 4 \<le> i \<and> i - 4 \<in> set rs then g (i - 4) else load64 m (entry tf i))"
  using assms(3,4)
proof (induction rs arbitrary: m)
  case (Cons r rs)
  then have r: "4 + r < 512" by simp
  show ?case using Cons load64_entry_store [OF assms(1) r assms(2), of m "g r"] by auto
qed simp

lemma saved_order_set: "set saved_order = {1..<32}" "distinct saved_order"
  unfolding saved_order_def set_append set_upt by auto

text \<open>A user program that runs as process \<open>p\<close>, with the trap frame the kernel gave it.\<close>

definition user_running :: "nat \<Rightarrow> 'a traps_scheme \<Rightarrow> bool" where
  "user_running p s \<longleftrightarrow> user_mode s \<and> cpu_proc s = Some p \<and> sscratch s = p_trapframe (proc s p) \<and>
     page_aligned (p_trapframe (proc s p))"

text \<open>The state in which \<open>usertrap\<close> starts after an \<open>ecall\<close>, and the one in which it calls \<open>syscall\<close>.\<close>

definition ecall_entry :: "'a traps_scheme \<Rightarrow> 'a traps_scheme" where
  "ecall_entry s = user_trap_entry (take_trap 8 0 s)"

definition at_syscall :: "symbols \<Rightarrow> nat \<Rightarrow> 'a traps_scheme \<Rightarrow> 'a traps_scheme" where
  "at_syscall lk p s =
     (let e = (ecall_entry s)\<lparr>stvec := sys_trap_vector_addr lk\<rparr>
      in intr_on (tf_store p TF_epc (tf_load p TF_epc e + 4) e))"

lemma ecall_entry_sel:
  "cpu_proc (ecall_entry s) = cpu_proc s" "proc (ecall_entry s) = proc s" "scause (ecall_entry s) = 8"
  "console_out (ecall_entry s) = console_out s" "at (ecall_entry s) = at s"
  "cpu_proc (at_syscall lk p s) = cpu_proc s" "proc (at_syscall lk p s) = proc s"
  "at (at_syscall lk p s) = at s" "console_out (at_syscall lk p s) = console_out s"
  by (simp_all add: ecall_entry_def user_trap_entry_def take_trap_def at_syscall_def tf_store_def intr_on_def Let_def)

lemma ecall_frame:
  assumes "user_running p s" "i < 512"
  shows "tf_load p i (ecall_entry s) =
    (if i = TF_epc then pc s else if 5 \<le> i \<and> i < 36 then user_reg s (i - 4) else tf_load p i s)"
proof -
  have tf: "page_aligned (p_trapframe (proc s p))" "sscratch s = p_trapframe (proc s p)"
    using assms(1) by (auto simp: user_running_def)
  have "\<forall>r \<in> set saved_order. r < 500" by (simp add: saved_order_set)
  from load64_saved [OF tf(1) assms(2) saved_order_set(2) this, of "user_reg s" "memory s"]
  show ?thesis
    using tf assms(2)
    by (auto simp: ecall_entry_def user_trap_entry_def take_trap_def tf_load_def Let_def load64_entry_store
        TF_epc_def saved_order_set)
qed

lemma at_syscall_frame:
  assumes "user_running p s" "i < 512"
  shows "tf_load p i (at_syscall lk p s) =
    (if i = TF_epc then pc s + 4 else if 5 \<le> i \<and> i < 36 then user_reg s (i - 4) else tf_load p i s)"
proof -
  have tf: "page_aligned (p_trapframe (proc s p))" using assms(1) by (auto simp: user_running_def)
  have "tf_load p i (at_syscall lk p s) =
      (if TF_epc = i then tf_load p TF_epc (ecall_entry s) + 4 else tf_load p i (ecall_entry s))"
    using load64_entry_store [OF tf _ assms(2), of TF_epc]
    by (simp add: at_syscall_def tf_store_def tf_load_def intr_on_def Let_def ecall_entry_sel TF_epc_def)
  then show ?thesis using ecall_frame [OF assms(1)] assms(2) by (auto simp: TF_epc_def)
qed

lemma usertrap_ecall:
  assumes "cpu_proc s = Some p"
  shows "usertrap lk (ecall_entry s) = bindE (syscall lk (at_syscall lk p s))
    (\<lambda>(kept, s1). if kept then bindE (usertrapret lk s1) (\<lambda>s2. Inr (True, s2)) else Inr (False, s1))"
proof -
  have p: "cpu_proc (ecall_entry s) = Some p" using assms by (simp add: ecall_entry_sel)
  show ?thesis
    by (simp add: usertrap_def ecall_entry_sel running_def myproc_def assms at_syscall_def Let_def)
qed

section \<open>The return\<close>

text \<open>\<open>s'\<close> is user mode behind the \<open>ecall\<close> executed in \<open>s\<close>, with \<open>v\<close> in \<open>a0\<close>.\<close>

definition back_in_user :: "symbols \<Rightarrow> nat \<Rightarrow> u64 \<Rightarrow> 'a traps_scheme \<Rightarrow> 'a traps_scheme \<Rightarrow> bool" where
  "back_in_user lk p v s s' \<longleftrightarrow> user_running p s' \<and> pc s' = pc s + 4 \<and> user_reg s' 10 = v \<and>
     (\<forall>r. 1 \<le> r \<and> r < 32 \<and> r \<noteq> 10 \<longrightarrow> user_reg s' r = user_reg s r) \<and>
     sstatus s' AND SSTATUS_SIE \<noteq> 0 \<and> stvec s' = user_trap_entry_addr lk"

lemma bit_sstatus: "bit SSTATUS_SPP n \<longleftrightarrow> n = 8" "bit SSTATUS_SPIE n \<longleftrightarrow> n = 5" "bit SSTATUS_SIE n \<longleftrightarrow> n = 1"
  unfolding SSTATUS_SPP_def SSTATUS_SPIE_def SSTATUS_SIE_def bit_push_bit_iff bit_1_iff by auto

lemma bit_not_zero: "bit (x :: u64) n \<Longrightarrow> x \<noteq> 0"
  by auto

lemma sstatus_return:
  fixes x :: u64
  shows "(x AND NOT SSTATUS_SPP OR SSTATUS_SPIE) AND SSTATUS_SPP = 0"
    "(x AND NOT SSTATUS_SPP OR SSTATUS_SPIE) AND SSTATUS_SPIE \<noteq> 0"
    "((x OR SSTATUS_SIE) OR SSTATUS_SPIE) AND SSTATUS_SIE \<noteq> 0"
proof -
  show "(x AND NOT SSTATUS_SPP OR SSTATUS_SPIE) AND SSTATUS_SPP = 0"
    by (rule bit_word_eqI) (auto simp: bit_sstatus bit_and_iff bit_or_iff bit_not_iff)
  show "(x AND NOT SSTATUS_SPP OR SSTATUS_SPIE) AND SSTATUS_SPIE \<noteq> 0"
    by (rule bit_not_zero [of _ 5]) (simp add: bit_sstatus bit_and_iff bit_or_iff)
  show "((x OR SSTATUS_SIE) OR SSTATUS_SPIE) AND SSTATUS_SIE \<noteq> 0"
    by (rule bit_not_zero [of _ 1]) (simp only: bit_sstatus bit_and_iff bit_or_iff simp_thms)
qed

lemma usertrapret_spec:
  assumes p: "cpu_proc s = Some p" and tf: "page_aligned (p_trapframe (proc s p))"
  shows "\<exists>s'. usertrapret lk s = Inr s' \<and> user_running p s' \<and> pc s' = tf_load p TF_epc s \<and>
    (\<forall>r. 1 \<le> r \<and> r < 32 \<longrightarrow> user_reg s' r = tf_load p (4 + r) s) \<and>
    sstatus s' AND SSTATUS_SIE \<noteq> 0 \<and> stvec s' = user_trap_entry_addr lk \<and> proc s' = proc s \<and>
    tf_load p TF_kernel_sp s' = p_kstack (proc s p) + PGSIZE \<and> tf_load p TF_kernel_trap s' = usertrap_addr lk \<and>
    tf_load p TF_kernel_hartid s' = tp_reg s \<and> tf_load p TF_kernel_satp s' = satp s"
proof -
  let ?tf = "p_trapframe (proc s p)"
  define m where "m = store64 (store64 (store64 (store64 (memory s) (entry ?tf TF_kernel_sp) (p_kstack (proc s p) + PGSIZE))
    (entry ?tf TF_kernel_trap) (usertrap_addr lk)) (entry ?tf TF_kernel_hartid) (tp_reg s)) (entry ?tf TF_kernel_satp) (satp s)"
  define x where "x = (sstatus s AND NOT SSTATUS_SIE) AND NOT SSTATUS_SPP OR SSTATUS_SPIE"
  have r: "usertrapret lk s = Inr (return_to_user ?tf (s\<lparr>sstatus := x, stvec := user_trap_entry_addr lk, memory := m\<rparr>))"
    using p by (cases s) (simp add: usertrapret_def running_def myproc_def intr_off_def tf_store_def m_def x_def Let_def)
  have e: "load64 m (entry ?tf i) = (if i = TF_kernel_satp then satp s else if i = TF_kernel_hartid then tp_reg s
      else if i = TF_kernel_trap then usertrap_addr lk else if i = TF_kernel_sp then p_kstack (proc s p) + PGSIZE
      else load64 (memory s) (entry ?tf i))" if "i < 512" for i
    using that unfolding m_def by (simp add: load64_entry_store [OF tf] TF_defs del: entry_0)
  have bits: "x AND SSTATUS_SPP = 0" "x AND SSTATUS_SPIE \<noteq> 0" unfolding x_def by (rule sstatus_return)+
  show ?thesis
    unfolding r
    by (intro exI [of _ "return_to_user ?tf (s\<lparr>sstatus := x, stvec := user_trap_entry_addr lk, memory := m\<rparr>)"])
      (simp add: return_to_user_def sret_def Let_def user_running_def p tf bits tf_load_def e TF_defs sstatus_return(3) del: entry_0)
qed

lemma usertrapret_back:
  assumes u: "user_running p s" and p: "cpu_proc t = Some p" "p_trapframe (proc t p) = p_trapframe (proc s p)"
    and f: "\<And>i. i < 36 \<Longrightarrow> i \<noteq> TF_a0 \<Longrightarrow> tf_load p i t = tf_load p i (at_syscall lk p s)" and v: "tf_load p TF_a0 t = v"
  shows "\<exists>s'. usertrapret lk t = Inr s' \<and> back_in_user lk p v s s' \<and> proc s' = proc t"
proof -
  have "page_aligned (p_trapframe (proc t p))" using u p(2) by (simp add: user_running_def)
  from usertrapret_spec [OF p(1) this, of lk] obtain s' where s': "usertrapret lk t = Inr s'" "user_running p s'"
    "pc s' = tf_load p TF_epc t" "\<And>r. 1 \<le> r \<Longrightarrow> r < 32 \<Longrightarrow> user_reg s' r = tf_load p (4 + r) t"
    "sstatus s' AND SSTATUS_SIE \<noteq> 0" "stvec s' = user_trap_entry_addr lk" "proc s' = proc t" by blast
  have "tf_load p TF_epc t = pc s + 4"
    using f [of TF_epc] at_syscall_frame [OF u, of TF_epc lk] by (simp add: TF_defs)
  moreover have "user_reg s' r = user_reg s r" if "1 \<le> r" "r < 32" "r \<noteq> 10" for r
    using s'(4) [OF that(1,2)] f [of "4 + r"] at_syscall_frame [OF u, of "4 + r" lk] that by (simp add: TF_defs)
  moreover have "user_reg s' 10 = v" using s'(4) [of 10] v by (simp add: TF_defs)
  ultimately show ?thesis using s' by (intro exI [of _ s']) (simp add: back_in_user_def)
qed

section \<open>Calls that leave the trap frame alone\<close>

lemma tf_load_store:
  assumes "page_aligned (p_trapframe (proc s p))" "i < 512" "j < 512"
  shows "tf_load p j (tf_store p i v s) = (if i = j then v else tf_load p j s)"
  using load64_entry_store [OF assms] by (simp add: tf_load_def tf_store_def)

lemma tf_store_sel [simp]:
  "cpu_proc (tf_store p i v s) = cpu_proc s" "proc (tf_store p i v s) = proc s"
  by (simp_all add: tf_store_def)

text \<open>\<open>syscall\<close> with a result \<open>v\<close> in a state \<open>u\<close> that has the trap frame of the call brings the user back.\<close>

lemma ecall_back:
  assumes u: "user_running p s" and p: "cpu_proc t = Some p" "p_trapframe (proc t p) = p_trapframe (proc s p)"
    and f: "\<And>i. i < 36 \<Longrightarrow> i \<noteq> TF_a0 \<Longrightarrow> tf_load p i t = tf_load p i (at_syscall lk p s)"
    and call: "syscall lk (at_syscall lk p s) = Inr (True, tf_store p TF_a0 v t)"
  shows "\<exists>s'. usertrap lk (ecall_entry s) = Inr (True, s') \<and> back_in_user lk p v s s' \<and> proc s' = proc t"
proof -
  have c: "cpu_proc s = Some p" and tf: "page_aligned (p_trapframe (proc t p))"
    using u p(2) by (simp_all add: user_running_def)
  have "\<exists>s'. usertrapret lk (tf_store p TF_a0 v t) = Inr s' \<and> back_in_user lk p v s s' \<and> proc s' = proc (tf_store p TF_a0 v t)"
    by (rule usertrapret_back [OF u]) (use p f tf_load_store [OF tf] in \<open>auto simp: TF_a0_def\<close>)
  then show ?thesis unfolding usertrap_ecall [OF c] call by auto
qed

text \<open>What \<open>a7\<close> asks for, and the calls answered without touching anything but the console.\<close>

definition call_number :: "'a traps_scheme \<Rightarrow> int" where
  "call_number s = sint (ucast (user_reg s 17) :: i32)"

definition quick_result :: "nat \<Rightarrow> 'a traps_scheme \<Rightarrow> u64" where
  "quick_result p s = (if call_number s = 11 then scast (p_pid (proc s p)) else -1)"

text \<open>The refusal of an unknown number prints it, which is undefined when it, or the process id, is the least integer.\<close>

definition refusal_undefined :: "nat \<Rightarrow> 'a traps_scheme \<Rightarrow> bool" where
  "refusal_undefined p s \<longleftrightarrow> call_number s \<noteq> 11 \<and> call_number s \<noteq> 12 \<and>
     (call_number s = -2147483648 \<or> p_pid (proc s p) = 0x80000000)"

lemma call_number_least: "call_number s = -2147483648 \<longleftrightarrow> (ucast (user_reg s 17) :: i32) = 0x80000000"
  unfolding call_number_def least_int_32 [symmetric] least_int_def by simp

lemma syscall_refused:
  assumes u: "user_running p s" and n: "call_number s \<notin> {1, 2, 3, 11, 12, 13, 15, 16, 17}"
  shows "syscall lk (at_syscall lk p s) = bindE (printf (Some (ascii ''syscall: unknown syscall num=%d pid=%d'' @ [0x0a]))
      [VInt (ucast (user_reg s 17)), VInt (p_pid (proc s p))] (at_syscall lk p s)) (\<lambda>t. Inr (True, tf_store p TF_a0 (-1) t))"
proof -
  let ?e = "at_syscall lk p s" and ?num = "ucast (user_reg s 17) :: i32"
  have c: "cpu_proc ?e = Some p" "proc ?e = proc s" using u by (simp_all add: ecall_entry_sel user_running_def)
  have a7: "tf_load p TF_a7 ?e = user_reg s 17" using at_syscall_frame [OF u, of TF_a7 lk] by (simp add: TF_defs)
  have no: "(if 0 < sint ?num \<and> sint ?num < 18 then syscalls lk (sint ?num) else None) = None"
    using n by (simp add: call_number_def syscalls_def)
  show ?thesis unfolding syscall_def running_def myproc_def c option.case Let_def a7 no ..
qed

lemma syscall_quick:
  assumes u: "user_running p s" and n: "call_number s \<notin> {1, 2, 3, 13, 15, 16, 17}" and ok: "\<not> refusal_undefined p s"
  shows "\<exists>c. syscall lk (at_syscall lk p s) = Inr (True, tf_store p TF_a0 (quick_result p s) ((at_syscall lk p s)\<lparr>console_out := c\<rparr>))"
proof -
  let ?e = "at_syscall lk p s"
  have c: "cpu_proc ?e = Some p" "proc ?e = proc s" using u by (simp_all add: ecall_entry_sel user_running_def)
  have a7: "tf_load p TF_a7 ?e = user_reg s 17" using at_syscall_frame [OF u, of TF_a7 lk] by (simp add: TF_defs)
  let ?num = "ucast (user_reg s 17) :: i32"
  have sel: "?e\<lparr>console_out := console_out ?e\<rparr> = ?e" by simp
  consider "call_number s = 11" | "call_number s = 12" | "call_number s \<noteq> 11" "call_number s \<noteq> 12" by blast
  then show ?thesis
  proof cases
    case 1
    then have "syscall lk ?e = Inr (True, tf_store p TF_a0 (quick_result p s) ?e)"
      by (simp add: syscall_def running_def myproc_def c a7 Let_def call_number_def syscalls_def sys_getpid_def quick_result_def)
    then show ?thesis using sel by metis
  next
    case 2
    then have "syscall lk ?e = Inr (True, tf_store p TF_a0 (quick_result p s) ?e)"
      by (simp add: syscall_def running_def myproc_def c a7 Let_def call_number_def syscalls_def sys_sbrk_def quick_result_def)
    then show ?thesis using sel by metis
  next
    case 3
    then have "?num \<noteq> 0x80000000 \<and> p_pid (proc s p) \<noteq> 0x80000000"
      using ok by (simp add: refusal_undefined_def call_number_least)
    then obtain c1 where pr: "printf (Some (ascii ''syscall: unknown syscall num=%d pid=%d'' @ [0x0a]))
        [VInt ?num, VInt (p_pid (proc s p))] ?e = Inr (?e\<lparr>console_out := c1\<rparr>)"
      using printf_ok [OF kernel_formats(3) [THEN iffD2]] by blast
    have "syscall lk ?e = Inr (True, tf_store p TF_a0 (-1) (?e\<lparr>console_out := c1\<rparr>))"
      using syscall_refused [OF u, of lk] n 3 pr by simp
    then show ?thesis using 3 by (auto simp: quick_result_def)
  qed
qed

text \<open>
  C19: \<open>getpid\<close>, \<open>sbrk\<close> and every number that is no system call, from the user's \<open>ecall\<close> to its next
  instruction: whatever the registers hold, the program goes on in user mode with interrupts
  enabled behind the \<open>ecall\<close>, its process id or -1 in \<open>a0\<close>, all other 30 registers as they were,
  and the next trap set up to find the same trap frame.  The one exception is a refused call whose number
  (or process id) is the least integer: the kernel prints it, and negates it as a signed number.
\<close>

theorem ecall_preserves_registers:
  assumes "user_running p s" and "call_number s \<notin> {1, 2, 3, 13, 15, 16, 17}"
  shows "if refusal_undefined p s then usertrap lk (ecall_entry s) = Inl (Fault ''signed overflow'') else
    \<exists>s'. usertrap lk (ecall_entry s) = Inr (True, s') \<and> back_in_user lk p (quick_result p s) s s' \<and> proc s' = proc s"
proof (cases "refusal_undefined p s")
  case True
  then have n: "call_number s \<notin> {1, 2, 3, 11, 12, 13, 15, 16, 17}"
    and least: "(ucast (user_reg s 17) :: i32) = 0x80000000 \<or> p_pid (proc s p) = 0x80000000"
    using assms(2) by (auto simp: refusal_undefined_def call_number_least)
  have "syscall lk (at_syscall lk p s) = Inl (Fault ''signed overflow'')"
    unfolding syscall_refused [OF assms(1) n] printf_least [OF least] by simp
  moreover have "cpu_proc s = Some p" using assms(1) by (simp add: user_running_def)
  ultimately show ?thesis using True by (simp add: usertrap_ecall)
next
  case False
  obtain c where c: "syscall lk (at_syscall lk p s) = Inr (True, tf_store p TF_a0 (quick_result p s) ((at_syscall lk p s)\<lparr>console_out := c\<rparr>))"
    using syscall_quick [OF assms False] by blast
  have "\<exists>s'. usertrap lk (ecall_entry s) = Inr (True, s') \<and> back_in_user lk p (quick_result p s) s s' \<and>
      proc s' = proc ((at_syscall lk p s)\<lparr>console_out := c\<rparr>)"
    by (rule ecall_back [OF assms(1) _ _ _ c]) (use assms(1) in \<open>simp_all add: ecall_entry_sel user_running_def tf_load_def\<close>)
  then show ?thesis using False by (simp add: ecall_entry_sel)
qed

text \<open>A user program of process 0 about to call \<open>getpid\<close>.\<close>

definition demo_user :: traps where
  "demo_user = procs.extend (demo_procs\<lparr>cpu_proc := Some 0, at := Kernel 0, proc := (proc demo_procs)(0 := demo_pcb\<lparr>p_status := TASK_RUNNING, p_pid := 1, p_trapframe := 0x87FFE000\<rparr>)\<rparr>)
     (traps.fields True 0x87000000 ((\<lambda>_. 0)(17 := 11)) 0 0 0 0 0 0 0 0 0x87FFE000 0 (\<lambda>_. 0) 0 0)"

theorem ecall_preserves_registers_witness:
  "\<exists>s'. usertrap demo_symbols (ecall_entry demo_user) = Inr (True, s') \<and> user_reg s' 10 = 1 \<and> pc s' = 0x87000004"
proof -
  have u: "user_running 0 demo_user"
    by (simp add: user_running_def demo_user_def procs.defs traps.defs page_aligned_def demo_pcb_def)
  have n: "call_number demo_user = 11" by (simp add: call_number_def demo_user_def procs.defs traps.defs)
  have r: "quick_result 0 demo_user = 1" "pc demo_user = 0x87000000"
    unfolding quick_result_def n by (simp_all add: demo_user_def procs.defs traps.defs demo_pcb_def)
  have "\<not> refusal_undefined 0 demo_user" by (simp add: refusal_undefined_def n)
  then have "\<exists>s'. usertrap demo_symbols (ecall_entry demo_user) = Inr (True, s') \<and>
      back_in_user demo_symbols 0 (quick_result 0 demo_user) demo_user s' \<and> proc s' = proc demo_user"
    using ecall_preserves_registers [OF u, of demo_symbols] by (simp add: n)
  then show ?thesis unfolding r by (auto simp: back_in_user_def r)
qed

end
