(* ===== verification/Boot_Timer.thy ===== *)
theory Boot_Timer
  imports Boot User_Trap
begin

text \<open>
  What the boot in machine mode (\<open>kernel/boot/start.c\<close>) hands over to \<open>start_main\<close>, and the timer
  handler \<open>timervec\<close> (\<open>kernel/trap/kernelvec.S\<close>) as the interrupted code sees it.
\<close>

section \<open>Bits of the status register\<close>

lemma bit_power64: "bit ((2 :: u64) ^ k) n \<longleftrightarrow> k < 64 \<and> n = k"
  by (auto simp: bit_simps)

lemma status_bits:
  "bit MSTATUS_MPP_MASK n \<longleftrightarrow> n = 11 \<or> n = 12" "bit MSTATUS_MPP_S n \<longleftrightarrow> n = 11"
  "bit MSTATUS_MIE n \<longleftrightarrow> n = 3" "bit MSTATUS_MPIE n \<longleftrightarrow> n = 7"
proof -
  have "MSTATUS_MPP_MASK = 2 ^ 11 OR 2 ^ 12" by (simp add: MSTATUS_MPP_MASK_def)
  then have "bit MSTATUS_MPP_MASK n \<longleftrightarrow> bit ((2 :: u64) ^ 11) n \<or> bit ((2 :: u64) ^ 12) n" by (rule ssubst) (rule bit_or_iff)
  then show "bit MSTATUS_MPP_MASK n \<longleftrightarrow> n = 11 \<or> n = 12" unfolding bit_power64 by simp
  have e: "MSTATUS_MPP_S = 2 ^ 11" "MSTATUS_MIE = 2 ^ 3" "MSTATUS_MPIE = 2 ^ 7"
    by (simp_all add: MSTATUS_MPP_S_def MSTATUS_MIE_def MSTATUS_MPIE_def)
  show "bit MSTATUS_MPP_S n \<longleftrightarrow> n = 11" "bit MSTATUS_MIE n \<longleftrightarrow> n = 3" "bit MSTATUS_MPIE n \<longleftrightarrow> n = 7"
    unfolding e bit_power64 by simp_all
qed

lemma mpp_supervisor:
  "((x AND NOT MSTATUS_MPP_MASK OR MSTATUS_MPP_S) OR MSTATUS_MIE) AND MSTATUS_MPP_MASK = MSTATUS_MPP_S"
  by (rule bit_word_eqI) (auto simp: bit_and_iff bit_or_iff bit_not_iff status_bits)

lemma mpp_kinds: "MSTATUS_MPP_S \<noteq> 0" "MSTATUS_MPP_S \<noteq> MSTATUS_MPP_MASK" "MSTATUS_MPP_MASK \<noteq> 0"
  by (simp_all add: MSTATUS_MPP_MASK_def MSTATUS_MPP_S_def)

text \<open>A trap into machine mode and \<open>mret\<close> come back to the mode that was interrupted.\<close>

lemma mpp_roundtrip:
  assumes "\<not> m_mode s"
  shows "mstatus (m_trap s) AND MSTATUS_MPP_MASK = (if user_mode s then 0 else MSTATUS_MPP_S)"
  using assms unfolding m_trap_def Let_def
  by (intro bit_word_eqI) (auto simp: bit_and_iff bit_or_iff bit_not_iff status_bits)

section \<open>The scratch area of the handler\<close>

text \<open>What \<open>timerinit\<close> leaves for \<open>timervec\<close>, on the first hart.\<close>

definition timer_ready :: "boot_symbols \<Rightarrow> 'a machine_state_scheme \<Rightarrow> bool" where
  "timer_ready ba s \<longleftrightarrow> mscratch s = timer_scratch ba \<and> mtvec s = timervec_addr ba \<and>
     load64 (memory s) (timer_scratch ba + 24) = CLINT_MTIMECMP 0 \<and> load64 (memory s) (timer_scratch ba + 32) = 1000000"

lemma aligned8_add:
  assumes "unat (a :: u64) mod 8 = 0"
  shows "unat (a + 8) mod 8 = 0" "unat (a + 16) mod 8 = 0" "unat (a + 24) mod 8 = 0" "unat (a + 32) mod 8 = 0"
proof -
  obtain k where k: "unat a = 8 * k" using assms by (auto simp: mod_eq_0_iff_dvd)
  show "unat (a + 8) mod 8 = 0" "unat (a + 16) mod 8 = 0" "unat (a + 24) mod 8 = 0" "unat (a + 32) mod 8 = 0"
    by (simp_all add: unat_add64 k mod_mod_cancel)
qed

text \<open>The doublewords of the scratch area do not overlap.\<close>

lemma scratch_load:
  assumes "unat a mod 8 = 0" "i \<in> {8, 16, 24, 32}" "j \<in> {8, 16, 24, 32}" "i \<noteq> j"
  shows "load64 (store64 m (a + i) v) (a + j) = load64 m (a + j)"
  using assms aligned8_add [OF assms(1)] by (intro load64_store64_other) auto

lemma store64_outside: "\<not> unat (x - a) < 8 \<Longrightarrow> store64 m a v x = m x"
  by (rule store_le_outside)

lemma store64_two_outside:
  assumes "16 \<le> unat (x - a)" "b = a + 8"
  shows "store64 (store64 m a v) b w x = m x"
proof -
  have "x - b = (x - a) - 8" using assms(2) by simp
  then have "unat (x - b) = unat (x - a) - 8" using assms(1) unat_sub64 [of "x - a" 8] by (simp only:) simp
  then have "\<not> unat (x - b) < 8" using assms(1) by simp
  then show ?thesis using assms(1) by (simp add: store64_outside)
qed

section \<open>Properties\<close>

text \<open>C21: On the first hart \<open>start\<close> ends in supervisor mode at \<open>start_main\<close> with paging off, \<open>tp\<close> the number of the
  hart, all exceptions but the call from machine mode and the three supervisor interrupts delegated and enabled and all memory open.  The timer is armed: its
  interrupt comes, whatever the kernel does with its own interrupt switch, exactly from 1000000 cycles after the boot on, and
  goes to \<open>timervec\<close>, whose scratch area is prepared.  Nothing else in memory has changed.\<close>

theorem start_hands_over:
  assumes "ucast (mhartid s) = (0 :: i32)" and "unat (timer_scratch ba) mod 8 = 0"
  shows "\<exists>s'. start ba s = Inr s' \<and> \<not> m_mode s' \<and> \<not> user_mode s' \<and> pc s' = start_main_addr ba \<and>
    satp s' = 0 \<and> tp_reg s' = mhartid s \<and> medeleg s' = 0xf7ff \<and> mideleg s' = S_INTERRUPTS \<and> r_sie s' = S_INTERRUPTS \<and>
    pmpaddr0 s' = 0x3fffffffffffff \<and> pmpcfg0 s' = 0xf \<and> timer_ready ba s' \<and>
    (\<forall>t. timer_fires 0 (s'\<lparr>clint := (clint s')(CLINT_MTIME := t)\<rparr>) = (clint s CLINT_MTIME + 1000000 \<le> t)) \<and>
    (\<forall>x. 16 \<le> unat (x - (timer_scratch ba + 24)) \<longrightarrow> memory s' x = memory s x)"
proof -
  let ?x = "mstatus s AND NOT MSTATUS_MPP_MASK OR MSTATUS_MPP_S OR MSTATUS_MIE"
  let ?mie = "(mie s AND NOT S_INTERRUPTS OR (mie s AND S_INTERRUPTS OR S_INTERRUPTS) AND S_INTERRUPTS) OR MIE_MTIE"
  let ?m = "store64 (store64 (memory s) (timer_scratch ba + 24) (CLINT_MTIMECMP 0)) (timer_scratch ba + 32) 1000000"
  note scr = scratch_load [OF assms(2)]
  have si: "0xffff AND S_INTERRUPTS = S_INTERRUPTS" by (simp add: S_INTERRUPTS_def SIE_SEIE_def SIE_STIE_def SIE_SSIE_def)
  have ie: "?mie AND S_INTERRUPTS = S_INTERRUPTS" "?mie AND MIE_MTIE \<noteq> 0"
  proof -
    have d: "MIE_MTIE AND S_INTERRUPTS = 0" "MIE_MTIE AND MIE_MTIE \<noteq> 0"
      by (simp_all add: S_INTERRUPTS_def SIE_SEIE_def SIE_STIE_def SIE_SSIE_def MIE_MTIE_def)
    show "?mie AND S_INTERRUPTS = S_INTERRUPTS"
      using d(1) by (auto intro!: bit_word_eqI simp: bit_and_iff bit_or_iff bit_not_iff dest!: arg_cong [where f = "\<lambda>w. bit w _"])
    show "?mie AND MIE_MTIE \<noteq> 0" using d(2) by (metis bit.conj_disj_distrib2 or_eq_0_iff)
  qed
  obtain s' where s': "start ba s = Inr s'" "m_mode s' = (?x AND MSTATUS_MPP_MASK = MSTATUS_MPP_MASK)"
    "user_mode s' = (?x AND MSTATUS_MPP_MASK = 0)" "pc s' = start_main_addr ba" "satp s' = 0" "tp_reg s' = mhartid s"
    "medeleg s' = 0xf7ff" "mideleg s' = 0xffff AND S_INTERRUPTS" "mie s' = ?mie" "pmpaddr0 s' = 0x3fffffffffffff"
    "pmpcfg0 s' = 0xf" "mscratch s' = timer_scratch ba" "mtvec s' = timervec_addr ba" "memory s' = ?m"
    "clint s' = (clint s)(CLINT_MTIMECMP 0 := clint s CLINT_MTIME + 1000000)"
    using assms(1) si unfolding start_def timerinit_def Let_def register_defs bindE_def mret_def
    by (simp add: NCPU_def S_INTERRUPTS_def [symmetric] or.assoc)
  have ne: "CLINT_MTIMECMP 0 \<noteq> CLINT_MTIME" by (simp add: CLINT_MTIMECMP_def CLINT_MTIME_def CLINT_def)
  have modes: "\<not> m_mode s'" "\<not> user_mode s'" using s'(2,3) mpp_supervisor [of "mstatus s"] mpp_kinds by (simp_all only: or.assoc not_False_eq_True)
  have ready: "timer_ready ba s'" unfolding timer_ready_def s' by (simp add: scr)
  have fires: "timer_fires 0 (s'\<lparr>clint := (clint s')(CLINT_MTIME := t)\<rparr>) = (clint s CLINT_MTIME + 1000000 \<le> t)" for t
    using ne modes(1) ie(2) s'(9,15) by (simp add: timer_fires_def)
  have mem: "memory s' x = memory s x" if "16 \<le> unat (x - (timer_scratch ba + 24))" for x
    unfolding s'(14) by (rule store64_two_outside [OF that]) simp
  have sie: "r_sie s' = S_INTERRUPTS" "mideleg s' = S_INTERRUPTS" using ie(1) s'(8,9) si by (simp_all add: r_sie_def)
  show ?thesis using s'(1,4-7,10,11) modes ready fires mem sie by blast
qed

text \<open>C20: A timer interrupt is invisible to the code it interrupts, in supervisor or user mode: trap, \<open>timervec\<close> and
  \<open>mret\<close> leave the program counter, the mode, all registers and all memory but the save slots of the scratch area as they
  were.  The next deadline is exactly one interval after the last one, so the clock does not drift; the software interrupt
  that tells the kernel of the tick is pending; and the handler is ready for the next interrupt.\<close>

theorem timer_tick_transparent:
  assumes "timer_ready ba s" and "\<not> m_mode s" and "unat (timer_scratch ba) mod 8 = 0"
  shows "\<exists>s'. timervec r (m_trap s) = (r, s') \<and> pc s' = pc s \<and> user_mode s' = user_mode s \<and> \<not> m_mode s' \<and>
    clint s' = (clint s)(CLINT_MTIMECMP 0 := clint s (CLINT_MTIMECMP 0) + 1000000) \<and>
    sip s' AND SIE_SSIE \<noteq> 0 \<and> sip s' AND NOT SIE_SSIE = sip s AND NOT SIE_SSIE \<and> timer_ready ba s' \<and>
    (\<forall>x. 16 \<le> unat (x - (timer_scratch ba + 8)) \<longrightarrow> memory s' x = memory s x)"
proof -
  let ?a = "timer_scratch ba"
  let ?m = "store64 (store64 (memory s) (?a + 8) (r 11)) (?a + 16) (r 12)"
  note scr = scratch_load [OF assms(3)]
  have t: "mscratch s = ?a" "mtvec s = timervec_addr ba" "load64 (memory s) (?a + 24) = CLINT_MTIMECMP 0"
    "load64 (memory s) (?a + 32) = 1000000" using assms(1) by (simp_all add: timer_ready_def)
  have l: "load64 ?m (?a + 24) = CLINT_MTIMECMP 0" "load64 ?m (?a + 32) = 1000000" "load64 ?m (?a + 16) = r 12"
    "load64 ?m (?a + 8) = r 11" using t by (simp_all add: scr)
  have tr: "mscratch (m_trap s) = ?a" "memory (m_trap s) = memory s" "clint (m_trap s) = clint s" "mepc (m_trap s) = pc s"
    "sip (m_trap s) = sip s" "mtvec (m_trap s) = mtvec s" using t(1) by (simp_all add: m_trap_def Let_def)
  have r: "r(10 := ?a, 11 := 2, 12 := r 12, 11 := r 11, 10 := r 10) = r" by (rule ext) simp
  obtain s' where s': "timervec r (m_trap s) = (r, s')" "pc s' = pc s" "memory s' = ?m" "mscratch s' = ?a" "mtvec s' = mtvec s"
    "m_mode s' = (mstatus (m_trap s) AND MSTATUS_MPP_MASK = MSTATUS_MPP_MASK)"
    "user_mode s' = (mstatus (m_trap s) AND MSTATUS_MPP_MASK = 0)"
    "clint s' = (clint s)(CLINT_MTIMECMP 0 := clint s (CLINT_MTIMECMP 0) + 1000000)"
    "sip s' = sip s AND NOT SIE_SSIE OR (2 AND SIE_SSIE)"
    using l tr r by (simp add: timervec_def Let_def mret_def)
  have ss: "SIE_SSIE = 2" by (simp add: SIE_SSIE_def)
  have sip: "sip s' AND SIE_SSIE \<noteq> 0" "sip s' AND NOT SIE_SSIE = sip s AND NOT SIE_SSIE"
  proof -
    have u: "sip s' = sip s AND NOT SIE_SSIE OR SIE_SSIE" using s'(9) by (simp add: ss)
    show "sip s' AND NOT SIE_SSIE = sip s AND NOT SIE_SSIE"
      unfolding u by (rule bit_word_eqI) (auto simp: bit_and_iff bit_or_iff bit_not_iff)
    have "sip s' AND SIE_SSIE = SIE_SSIE" unfolding u by (rule bit_word_eqI) (auto simp: bit_and_iff bit_or_iff bit_not_iff)
    then show "sip s' AND SIE_SSIE \<noteq> 0" by (simp add: ss)
  qed
  have modes: "\<not> m_mode s'" "user_mode s' = user_mode s"
    unfolding s'(6,7) mpp_roundtrip [OF assms(2)] using mpp_kinds by auto
  have ready: "timer_ready ba s'" unfolding timer_ready_def s'(3-5) using l t(2) by simp
  have mem: "memory s' x = memory s x" if "16 \<le> unat (x - (?a + 8))" for x
    unfolding s'(3) by (rule store64_two_outside [OF that]) simp
  show ?thesis using s'(1,2,8) sip modes ready mem by blast
qed

section \<open>Witnesses\<close>

text \<open>A hart at reset.\<close>

definition demo_reset :: machine_state where
  "demo_reset = traps.extend (demo_user\<lparr>user_mode := False\<rparr>)
     (machine_state.fields True 0 0 0 0 0 0 0 0 0 0 (\<lambda>_. 0) (\<lambda>_. 0) demo_vdisk [])"

definition demo_boot_symbols :: boot_symbols where
  "demo_boot_symbols = \<lparr>start_main_addr = 0x80000100, timervec_addr = 0x80000200, timer_scratch = 0x80010000\<rparr>"

theorem start_hands_over_witness:
  "\<exists>s'. start demo_boot_symbols demo_reset = Inr s' \<and> \<not> m_mode s' \<and> pc s' = 0x80000100 \<and> timer_ready demo_boot_symbols s'"
proof -
  have "ucast (mhartid demo_reset) = (0 :: i32)" "unat (timer_scratch demo_boot_symbols) mod 8 = 0" "start_main_addr demo_boot_symbols = 0x80000100"
    by (simp_all add: demo_reset_def traps.defs machine_state.defs demo_boot_symbols_def)
  from start_hands_over [OF this(1,2)] this(3) show ?thesis by auto
qed

text \<open>The hart after \<open>start\<close>, in the kernel, and its first tick.\<close>

definition demo_armed :: machine_state where
  "demo_armed = demo_reset\<lparr>m_mode := False, mscratch := 0x80010000, mtvec := 0x80000200,
     memory := store64 (store64 (\<lambda>_. 0) 0x80010018 (CLINT_MTIMECMP 0)) 0x80010020 1000000\<rparr>"

theorem timer_tick_transparent_witness:
  "\<exists>s'. timervec (\<lambda>i. of_nat i) (m_trap demo_armed) = (\<lambda>i. of_nat i, s') \<and> pc s' = pc demo_armed \<and> \<not> m_mode s'"
proof -
  have m: "load64 (store64 (store64 (\<lambda>_. 0) 0x80010018 (CLINT_MTIMECMP 0)) 0x80010020 1000000) 0x80010018 = CLINT_MTIMECMP 0"
    by (subst load64_store64_other) simp_all
  have "timer_ready demo_boot_symbols demo_armed" "\<not> m_mode demo_armed" "unat (timer_scratch demo_boot_symbols) mod 8 = 0"
    using m by (simp_all add: timer_ready_def demo_armed_def demo_boot_symbols_def)
  from timer_tick_transparent [OF this, of "\<lambda>i. of_nat i"] show ?thesis by blast
qed

end
