(* ===== verification/Boot_Main.thy ===== *)
theory Boot_Main
  imports First_Process Mount Boot_Timer
begin

text \<open>
  \<open>start_main\<close> (\<open>kernel/boot/main.c\<close>) from a machine fresh out of \<open>start\<close> to the scheduler, and on to the first
  instruction in user mode: the invariants of the allocator, the page table, the buffer cache, the file system and the process
  table all hold at the end.
\<close>

section \<open>What the steps leave alone\<close>

lemma kinit_loop_only_memory: "kinit_loop lk p s = Inr s' \<Longrightarrow> only_memory s s'"
proof (induction lk p s rule: kinit_loop.induct)
  case (1 lk p s)
  show ?case
  proof (cases "p + PGSIZE \<le> PHYSTOP")
    case False
    then show ?thesis using "1.prems" by (simp add: kinit_loop.simps [of lk p s] only_memory_refl)
  next
    case True
    then obtain s1 where s1: "kfree lk p s = Inr s1" "kinit_loop lk (p + PGSIZE) s1 = Inr s'"
      using "1.prems" by (auto simp: kinit_loop.simps [of lk p s] bindE_eq_Inr)
    have "only_memory s s1" using s1(1) by (cases s) (auto simp: kfree_eq_Inr only_memory_def)
    then show ?thesis using "1.IH" [OF True s1] only_memory_trans by blast
  qed
qed

lemma kinit_only_memory: "kinit lk s = Inr s' \<Longrightarrow> only_memory s s'"
  unfolding kinit_def by (rule kinit_loop_only_memory)

lemma kvmininit_frame:
  assumes "kvmininit lk s = Inr s'"
  shows "s' = s\<lparr>memory := memory s', free_mem_list := free_mem_list s', kernel_pagetable := kernel_pagetable s'\<rparr>"
proof -
  obtain r s1 where k: "kalloc s = (r, s1)" by fastforce
  have o1: "only_memory s s1" using kalloc_only_memory [of s] k by simp
  let ?s2 = "s1\<lparr>kernel_pagetable := r\<rparr>"
  let ?s2 = "?s2\<lparr>memory := zero_page r (memory ?s2)\<rparr>"
  have r0: "r \<noteq> 0" using assms k by (auto simp: kvmininit_def)
  obtain v3 s3 v4 s4 v5 s5 v6 s6 v7 where m: "mappages r UART0 UART0 PGSIZE 6 ?s2 = Inr (v3, s3)"
    "mappages r PLIC PLIC 0x400000 6 s3 = Inr (v4, s4)" "mappages r VIRTIO0 VIRTIO0 PGSIZE 6 s4 = Inr (v5, s5)"
    "mappages r KERNBASE KERNBASE (etext lk - KERNBASE) 10 s5 = Inr (v6, s6)"
    "mappages r (etext lk) (etext lk) (PHYSTOP - etext lk) 6 s6 = Inr (v7, s')"
    using assms r0 unfolding kvmininit_def k Let_def prod.case if_not_P [OF r0]
    by (auto simp only: bindE_eq_Inr prod.case split_paired_Ex sum.inject split: prod.splits)
  have "only_memory ?s2 s'"
    using m mappages_only_memory only_memory_trans by meson
  then show ?thesis using o1 by (cases s; cases s1; cases s') (simp add: only_memory_def)
qed

lemma fsinit_frame:
  assumes "fsinit dev s = Inr s'"
  shows "s' = s\<lparr>disk := disk s', bufs := bufs s', sb := sb s', icache := icache s'\<rparr>"
proof -
  obtain b s1 where r: "bread dev 1 s = Inr (b, s1)" using assms by (auto simp: fsinit_def bindE_eq_Inr)
  have o1: "only_cache s s1" by (rule bread_only_cache [OF r])
  let ?t = "s1\<lparr>sb := superblock_of (b_data (bufs s1 b))\<rparr>"
  have o2: "only_cache ?t (brelse b ?t)" by (rule only_cache_brelse)
  have "\<exists>ic. s' = (brelse b ?t)\<lparr>icache := ic\<rparr>"
    using assms unfolding fsinit_def r bindE_Inr prod.case Let_def by (auto split: if_splits)
  then show ?thesis using o1 o2 by (cases s; cases s1; cases "brelse b ?t") (auto simp: only_cache_def)
qed

lemma procinit_frame: "procinit s = s\<lparr>proc := \<lambda>p. if p < NPROC then (proc s p)\<lparr>p_status := TASK_FREE\<rparr> else proc s p\<rparr>"
proof -
  have "fold (\<lambda>p. upd_proc p (\<lambda>f. f\<lparr>p_status := TASK_FREE\<rparr>)) [0..<n] s =
      s\<lparr>proc := \<lambda>p. if p < n then (proc s p)\<lparr>p_status := TASK_FREE\<rparr> else proc s p\<rparr>" for n
  proof (induction n)
    case (Suc n)
    then show ?case by (cases s) (auto simp: upd_proc_def fun_eq_iff less_Suc_eq)
  qed (cases s, simp)
  then show ?thesis unfolding procinit_def by blast
qed

section \<open>Memory\<close>

lemma boot_memory:
  fixes s :: "'a vm_scheme"
  assumes lk: "linked_ok lk" and free: "free_mem_list s = 0" and ram: "unat (end_address lk) + 4096 * 74 \<le> unat PHYSTOP"
  obtains s1 s2 tf ks cp sp ps where "kinit lk s = Inr s1" "kvmininit lk s1 = Inr s2"
    "s2 = s\<lparr>memory := memory s2, free_mem_list := free_mem_list s2, kernel_pagetable := kernel_pagetable s2\<rparr>"
    "kspace lk s2 (tf # ks # cp # sp # ps) (kernel_pagetable s2) (kernel_map lk) {}"
proof -
  have ok: "text_ok lk"
    using lk ram by (auto simp: linked_ok_def text_ok_def page_aligned_def word_le_nat_alt word_less_nat_alt word_unat_eq_iff unat_mod_distrib)
  obtain s1 ps where k: "kinit lk s = Inr s1" "kmem_inv lk s1 ps" "set ps = {p. page_ok lk p}"
    using kinit_fills [OF lk free] by blast
  have len: "74 \<le> length ps" by (rule pool_length [OF k(3) ram])
  then have ne: "ps \<noteq> []" by auto
  obtain s2 qs where v: "kvmininit lk s1 = Inr s2" "kernel_pagetable s2 = hd ps" "described lk (hd ps) s2 qs (kernel_map lk)"
    by (rule kvmininit_builds [OF k(2) ne ok])
  have inv: "pt_inv lk s2 qs (hd ps)" using v(3) by (simp add: described_def)
  have "length ps \<le> length qs + 70" by (rule kvmininit_takes [OF k(2) ne ok v(1) pt_inv_kmem [OF inv]])
  then have "4 \<le> length qs" using len by simp
  then obtain tf ks cp sp rest where qs: "qs = tf # ks # cp # sp # rest"
    by (auto simp: numeral_eq_Suc Suc_le_length_iff)
  have "kspace lk s2 qs (kernel_pagetable s2) (kernel_map lk) {}"
    using v qs by (simp add: kspace_def described_def)
  moreover have "s2 = s\<lparr>memory := memory s2, free_mem_list := free_mem_list s2, kernel_pagetable := kernel_pagetable s2\<rparr>"
    using kinit_only_memory [OF k(1)] kvmininit_frame [OF v(1)] by (cases s; cases s1; cases s2) (simp add: only_memory_def)
  ultimately show thesis using that [OF k(1) v(1)] qs by blast
qed

section \<open>start\_main\<close>

text \<open>What the boot asks of the machine: RAM for 74 pages behind the kernel, a disk device that answers, a file system on it, and the
  variables of the kernel as the data segment has them: zeros, and the first process id.\<close>

definition bootable :: "symbols \<Rightarrow> u8 list \<Rightarrow> (nat \<Rightarrow> u32) \<Rightarrow> 'a machine_state_scheme \<Rightarrow> bool" where
  "bootable lk code regs s \<longleftrightarrow> linked_ok lk \<and> unat (end_address lk) + 4096 * 74 \<le> unat PHYSTOP \<and> length code \<le> 4096 \<and>
     regs 0x000 = 0x74726976 \<and> regs 0x004 = 1 \<and> regs 0x008 = 2 \<and> regs 0x00c = 0x554d4551 \<and> NUM \<le> unat (regs 0x034) \<and>
     1 < disk_blocks s \<and> sb_magic (superblock_of (disk s 1)) = FSMAGIC \<and> fresh_bufs s \<and> free_mem_list s = 0 \<and> nextpid s = 1"

text \<open>The kernel when the scheduler starts: process 0 has the pages \<open>tf\<close>, \<open>ks\<close>, \<open>cp\<close> and \<open>sp\<close>, and \<open>ps\<close> is the pool.\<close>

definition booted :: "symbols \<Rightarrow> u8 list \<Rightarrow> u64 \<Rightarrow> u64 \<Rightarrow> u64 \<Rightarrow> u64 \<Rightarrow> u64 list \<Rightarrow> 'a machine_state_scheme \<Rightarrow> bool" where
  "booted lk code tf ks cp sp ps s \<longleftrightarrow>
     at s = Scheduler 0 \<and> sched_inv s \<and> boot_table s \<and>
     kspace lk s ps (kernel_pagetable s) (first_map lk cp sp) {tf, ks, cp, sp} \<and> distinct [tf, ks, cp, sp] \<and>
     (\<forall>p \<in> {tf, ks, cp, sp}. page_ok lk p) \<and> satp s = MAKE_SATP (kernel_pagetable s) \<and>
     stvec s = sys_trap_vector_addr lk \<and> sstatus s AND SSTATUS_SIE \<noteq> 0 \<and>
     bcache_ok s {#} \<and> sb s = superblock_of (disk s 1) \<and> sb_magic (sb s) = FSMAGIC \<and> (\<forall>i < NINODE. i_ref (icache s i) = 0) \<and>
     p_status (proc s 0) = TASK_READY \<and> p_pid (proc s 0) = 1 \<and> nextpid s = 2 \<and> resume s 0 = Forkret \<and> (\<forall>j < NPROC. j \<noteq> 0 \<longrightarrow> p_status (proc s j) = TASK_FREE) \<and>
     p_trapframe (proc s 0) = tf \<and> p_kstack (proc s 0) = ks \<and> p_pagetable (proc s 0) = kernel_pagetable s \<and>
     ctx_ra (p_context (proc s 0)) = forkret_addr lk \<and> ctx_sp (p_context (proc s 0)) = ks + PGSIZE \<and>
     loaded cp code (memory s) \<and> (\<forall>x. in_page sp x \<longrightarrow> memory s x = 0) \<and>
     (\<forall>i < 512. tf_load 0 i s = (if i = TF_epc then cp else if i = TF_sp then sp + PGSIZE else 0))"

lemma console_formats: "fmt_ok (0x1b # ascii ''[2J'') []" "fmt_ok (0x1b # ascii ''[H'') []"
  by (simp_all add: ascii_def of_char_def)

lemma clear_screen_ok: "\<exists>c. clear_screen s = Inr (s\<lparr>console_out := c\<rparr>)"
proof -
  obtain c1 where c1: "printf (Some (0x1b # ascii ''[2J'')) [] s = Inr (s\<lparr>console_out := c1\<rparr>)"
    using printf_ok [OF console_formats(1)] by blast
  obtain c2 where "printf (Some (0x1b # ascii ''[H'')) [] (s\<lparr>console_out := c1\<rparr>) = Inr (s\<lparr>console_out := c1\<rparr>\<lparr>console_out := c2\<rparr>)"
    using printf_ok [OF console_formats(2)] by blast
  then show ?thesis by (intro exI [of _ c2]) (simp add: clear_screen_def c1)
qed

lemma virtio_init_ok:
  assumes "regs 0x000 = 0x74726976" "regs 0x004 = 1" "regs 0x008 = 2" "regs 0x00c = 0x554d4551" "NUM \<le> unat (regs 0x034)"
  shows "\<exists>w q'. virtio_disk_init regs pg q = Inr (w, q')"
proof -
  have "regs 0x034 \<noteq> 0" using assms(5) by auto
  then show ?thesis using assms by (simp add: virtio_disk_init_def Let_def)
qed

text \<open>Everything before \<open>userinit\<close>.\<close>

lemma start_main_until_user:
  fixes s :: "'a machine_state_scheme"
  assumes b: "bootable lk code regs s"
  obtains s6 tf ks cp sp ps where
    "start_main lk code regs pg s = bindE (userinit lk code s6) (\<lambda>s. Inr (scheduler_enter s))"
    "kspace lk s6 (tf # ks # cp # sp # ps) (kernel_pagetable s6) (kernel_map lk) {}"
    "satp s6 = MAKE_SATP (kernel_pagetable s6)" "stvec s6 = sys_trap_vector_addr lk" "sstatus s6 = sstatus s OR SSTATUS_SIE"
    "\<And>j. j < NPROC \<Longrightarrow> p_status (proc s6 j) = TASK_FREE" "disk s6 = disk s" "sb s6 = superblock_of (disk s 1)"
    "bcache_ok s6 {#}" "\<forall>i < NINODE. i_ref (icache s6 i) = 0" "nextpid s6 = 1"
proof -
  note b = b [unfolded bootable_def]
  obtain c1 where c1: "clear_screen s = Inr (s\<lparr>console_out := c1\<rparr>)" using clear_screen_ok by blast
  obtain c2 where c2: "printf (Some (ascii ''Welcome to WHU OS Lab!'' @ [0x0a])) [] (s\<lparr>console_out := c1\<rparr>) =
      Inr (s\<lparr>console_out := c1\<rparr>\<lparr>console_out := c2\<rparr>)" using printf_ok [OF kernel_formats(10)] by blast
  let ?s0 = "s\<lparr>console_out := c1\<rparr>\<lparr>console_out := c2\<rparr>"
  have free: "free_mem_list ?s0 = 0" using b by simp
  obtain s1 s2 tf ks cp sp ps where k: "kinit lk ?s0 = Inr s1" and v: "kvmininit lk s1 = Inr s2"
    and e2: "s2 = ?s0\<lparr>memory := memory s2, free_mem_list := free_mem_list s2, kernel_pagetable := kernel_pagetable s2\<rparr>"
    and sp2: "kspace lk s2 (tf # ks # cp # sp # ps) (kernel_pagetable s2) (kernel_map lk) {}"
    by (rule boot_memory [OF _ free]) (use b in blast)+
  define s3 where "s3 = intr_on (plicinithart (plicinit (uartinit (trapinithart lk (kvminithart s2)))))"
  have f3: "memory s3 = memory s2" "free_mem_list s3 = free_mem_list s2" "kernel_pagetable s3 = kernel_pagetable s2"
    "satp s3 = MAKE_SATP (kernel_pagetable s2)" "stvec s3 = sys_trap_vector_addr lk" "sstatus s3 = sstatus s2 OR SSTATUS_SIE" "nextpid s3 = nextpid s2"
    "disk s3 = disk s2" "disk_blocks s3 = disk_blocks s2" "bufs s3 = bufs s2"
    by (simp_all add: s3_def intr_on_def plicinithart_def plicinit_def plic_write_def uartinit_def trapinithart_def kvminithart_def)
  have f2: "disk s2 = disk s" "disk_blocks s2 = disk_blocks s" "bufs s2 = bufs s" "nextpid s2 = 1" by (subst e2, use b in simp)+
  obtain c3 where c3: "clear_screen s3 = Inr (s3\<lparr>console_out := c3\<rparr>)" using clear_screen_ok by blast
  obtain c4 where c4: "printf (Some (ascii ''Paging enabled! Interrupts on.'' @ [0x0a])) [] (s3\<lparr>console_out := c3\<rparr>) =
      Inr (s3\<lparr>console_out := c3\<rparr>\<lparr>console_out := c4\<rparr>)" using printf_ok [OF kernel_formats(11)] by blast
  define s4 where "s4 = binit (procinit (s3\<lparr>console_out := c3\<rparr>\<lparr>console_out := c4\<rparr>))"
  have f4: "memory s4 = memory s2" "free_mem_list s4 = free_mem_list s2" "kernel_pagetable s4 = kernel_pagetable s2"
    "satp s4 = MAKE_SATP (kernel_pagetable s2)" "stvec s4 = sys_trap_vector_addr lk" "sstatus s4 = sstatus s2 OR SSTATUS_SIE" "nextpid s4 = 1"
    "disk s4 = disk s" "disk_blocks s4 = disk_blocks s" "\<And>j. j < NPROC \<Longrightarrow> p_status (proc s4 j) = TASK_FREE"
    by (simp_all add: s4_def binit_def procinit_frame f3 f2)
  have "fresh_bufs (procinit (s3\<lparr>console_out := c3\<rparr>\<lparr>console_out := c4\<rparr>))"
    using b by (simp add: fresh_bufs_def procinit_frame f3 f2)
  then have bc4: "bcache_ok s4 {#}" unfolding s4_def by (rule binit_ok)
  obtain w q where w: "virtio_disk_init regs pg (queue s4) = Inr (w, q)" using virtio_init_ok b by blast
  define s5 where "s5 = s4\<lparr>queue := q, virtio_writes := virtio_writes s4 @ w\<rparr>"
  have f5: "memory s5 = memory s2" "free_mem_list s5 = free_mem_list s2" "kernel_pagetable s5 = kernel_pagetable s2"
    "satp s5 = MAKE_SATP (kernel_pagetable s2)" "stvec s5 = sys_trap_vector_addr lk" "sstatus s5 = sstatus s2 OR SSTATUS_SIE" "nextpid s5 = 1"
    "disk s5 = disk s" "disk_blocks s5 = disk_blocks s" "\<And>j. j < NPROC \<Longrightarrow> p_status (proc s5 j) = TASK_FREE"
    by (simp_all add: s5_def f4)
  have bc5: "bcache_ok s5 {#}" using bc4 by (simp add: bcache_ok_def s5_def)
  obtain s6 where i: "fsinit ROOTDEV s5 = Inr s6" "disk s6 = disk s" "sb s6 = superblock_of (disk s 1)" "bcache_ok s6 {#}"
    "\<forall>i < NINODE. i_ref (icache s6 i) = 0"
    using fsinit_mounts [OF bc5] b unfolding f5 by auto
  note e6 = fsinit_frame [OF i(1)]
  have f6: "memory s6 = memory s2" "free_mem_list s6 = free_mem_list s2" "kernel_pagetable s6 = kernel_pagetable s2"
    "satp s6 = MAKE_SATP (kernel_pagetable s2)" "stvec s6 = sys_trap_vector_addr lk" "sstatus s6 = sstatus s2 OR SSTATUS_SIE" "nextpid s6 = 1"
    "\<And>j. j < NPROC \<Longrightarrow> p_status (proc s6 j) = TASK_FREE"
    by (subst e6, simp add: f5)+
  have sp6: "kspace lk s6 (tf # ks # cp # sp # ps) (kernel_pagetable s6) (kernel_map lk) {}"
    unfolding f6(3) by (rule kspace_same [OF sp2]) (simp_all add: f6)
  have ss: "sstatus s2 = sstatus s" by (subst e2, simp)
  have run: "start_main lk code regs pg s = bindE (userinit lk code s6) (\<lambda>s. Inr (scheduler_enter s))"
    unfolding start_main_def c1 bindE_Inr c2 k v Let_def s3_def [symmetric] c3 c4 s4_def [symmetric] w prod.case
      s5_def [symmetric] i(1) ..
  show thesis by (rule that [OF run sp6]) (simp_all add: f6 i ss)
qed

lemma start_main_ok:
  fixes s :: "'a machine_state_scheme"
  assumes b: "bootable lk code regs s"
  shows "\<exists>s' tf ks cp sp ps. start_main lk code regs pg s = Inr s' \<and> booted lk code tf ks cp sp ps s' \<and>
    disk s' = disk s \<and> sstatus s' = sstatus s OR SSTATUS_SIE"
proof -
  obtain s6 tf ks cp sp ps where run6: "start_main lk code regs pg s = bindE (userinit lk code s6) (\<lambda>s. Inr (scheduler_enter s))"
    and sp6: "kspace lk s6 (tf # ks # cp # sp # ps) (kernel_pagetable s6) (kernel_map lk) {}"
    and f6: "satp s6 = MAKE_SATP (kernel_pagetable s6)" "stvec s6 = sys_trap_vector_addr lk" "sstatus s6 = sstatus s OR SSTATUS_SIE"
      "\<And>j. j < NPROC \<Longrightarrow> p_status (proc s6 j) = TASK_FREE"
    and i: "disk s6 = disk s" "sb s6 = superblock_of (disk s 1)" "bcache_ok s6 {#}" "\<forall>i < NINODE. i_ref (icache s6 i) = 0" "nextpid s6 = 1"
    by (rule start_main_until_user [OF b, of pg], rule that; assumption)
  have slot: "free_slot s6 = Some 0"
    using f6(4) [of 0] by (simp add: free_slot_def upt_conv_Cons)
  have len: "length code \<le> 4096" using b by (simp add: bootable_def)
  obtain m fl c where u: "userinit lk code s6 = Inr (s6\<lparr>memory := m, free_mem_list := fl, console_out := c,
      nextpid := nextpid s6 + 1, proc := (proc s6)(0 := first_pcb lk (nextpid s6) (kernel_pagetable s6) tf ks (proc s6 0)),
      resume := (resume s6)(0 := Forkret), point := (point s6)(0 := Running_code)\<rparr>)"
    and sp7: "\<And>t :: 'a machine_state_scheme. memory t = m \<Longrightarrow> free_mem_list t = fl \<Longrightarrow>
       kspace lk t ps (kernel_pagetable s6) (first_map lk cp sp) {tf, ks, cp, sp}"
    and m7: "loaded cp code m" "\<And>x. in_page sp x \<Longrightarrow> m x = 0" "distinct [tf, ks, cp, sp]" "\<forall>p \<in> {tf, ks, cp, sp}. page_ok lk p"
      "\<And>i. i < 512 \<Longrightarrow> load64 m (entry tf i) = (if i = TF_epc then cp else if i = TF_sp then sp + PGSIZE else 0)"
    by (rule userinit_ok [OF sp6 slot len i(5)], rule that; assumption)
  define s7 where "s7 = s6\<lparr>memory := m, free_mem_list := fl, console_out := c,
      nextpid := nextpid s6 + 1, proc := (proc s6)(0 := first_pcb lk (nextpid s6) (kernel_pagetable s6) tf ks (proc s6 0)),
      resume := (resume s6)(0 := Forkret), point := (point s6)(0 := Running_code)\<rparr>"
  let ?s' = "scheduler_enter s7"
  have run: "start_main lk code regs pg s = Inr ?s'"
    unfolding run6 u s7_def [symmetric] bindE_Inr ..
  have bt: "boot_table s7" using f6(4) by (auto simp: boot_table_def s7_def first_pcb_def)
  have sie: "(x OR SSTATUS_SIE) AND SSTATUS_SIE \<noteq> 0" for x :: u64
    by (rule bit_not_zero [of _ 1]) (simp only: bit_sstatus bit_and_iff bit_or_iff simp_thms)
  have g: "at ?s' = Scheduler 0" "memory ?s' = m" "free_mem_list ?s' = fl" "kernel_pagetable ?s' = kernel_pagetable s6"
    "satp ?s' = satp s6" "stvec ?s' = stvec s6" "sstatus ?s' = sstatus s6 OR SSTATUS_SIE" "sb ?s' = sb s6" "disk ?s' = disk s6" "icache ?s' = icache s6"
    "proc ?s' = (proc s6)(0 := first_pcb lk (nextpid s6) (kernel_pagetable s6) tf ks (proc s6 0))" "resume ?s' 0 = Forkret"
    "nextpid ?s' = nextpid s6 + 1" by (simp_all add: scheduler_enter_def intr_on_def scheduler_start_def s7_def)
  have "booted lk code tf ks cp sp ps ?s'"
    unfolding booted_def
  proof (intro conjI)
    show "sched_inv ?s'" using boot_inv [OF bt] by (simp add: sched_inv_def scheduler_enter_def intr_on_def)
    show "boot_table ?s'" using bt by (simp add: boot_table_def scheduler_enter_def intr_on_def scheduler_start_def)
    show "bcache_ok ?s' {#}" using i(3) by (simp add: bcache_ok_def scheduler_enter_def intr_on_def scheduler_start_def s7_def)
    show "kspace lk ?s' ps (kernel_pagetable ?s') (first_map lk cp sp) {tf, ks, cp, sp}"
      unfolding g(4) by (rule sp7) (rule g)+
    show "sb_magic (sb ?s') = FSMAGIC" using b i(2) by (simp add: g bootable_def)
    show "\<forall>i < 512. tf_load 0 i ?s' = (if i = TF_epc then cp else if i = TF_sp then sp + PGSIZE else 0)"
      using m7(5) by (simp add: tf_load_def g first_pcb_def)
  qed (use m7 i f6 sie in \<open>simp_all add: g first_pcb_def new_context_def\<close>)
  moreover have "disk ?s' = disk s" by (simp add: g i)
  moreover have "sstatus ?s' = sstatus s OR SSTATUS_SIE" by (simp add: g f6 or.assoc)
  ultimately show ?thesis using run by blast
qed

section \<open>The first instruction of the first process\<close>

definition forkret :: "symbols \<Rightarrow> 'a traps_scheme \<Rightarrow> 'a traps_scheme res" where
  "forkret lk s = usertrapret lk s"

lemma usertrapret_frame:
  fixes s :: "'a traps_scheme"
  assumes "usertrapret lk s = Inr s'" "cpu_proc s = Some p" "page_aligned (p_trapframe (proc s p))"
  shows "\<not> in_page (p_trapframe (proc s p)) x \<Longrightarrow> memory s' x = memory s x"
    "free_mem_list s' = free_mem_list s" "kernel_pagetable s' = kernel_pagetable s" "satp s' = satp s" "at s' = at s"
    "bit (sstatus s') 18 = bit (sstatus s) 18"
proof -
  note out = store64_entry_outside [OF assms(3)]
  have i: "TF_kernel_sp < 512" "TF_kernel_trap < 512" "TF_kernel_hartid < 512" "TF_kernel_satp < 512" by (simp_all add: TF_defs)
  show "memory s' x = memory s x" if "\<not> in_page (p_trapframe (proc s p)) x"
    using assms(1,2) out [OF i(1) that] out [OF i(2) that] out [OF i(3) that] out [OF i(4) that]
    by (auto simp: usertrapret_def running_def myproc_def intr_off_def tf_store_def return_to_user_def sret_def Let_def)
  show "free_mem_list s' = free_mem_list s" "kernel_pagetable s' = kernel_pagetable s" "satp s' = satp s" "at s' = at s"
    using assms(1,2) by (auto simp: usertrapret_def running_def myproc_def intr_off_def tf_store_def return_to_user_def sret_def Let_def)
  have "bit (sstatus (return_to_user tf t)) 18 = bit (sstatus t) 18" for tf and t :: "'a traps_scheme"
    by (simp add: return_to_user_def sret_def Let_def bit_or_iff bit_and_iff bit_not_iff bit_sstatus)
  then show "bit (sstatus s') 18 = bit (sstatus s) 18"
    using assms(1,2) by (auto simp: usertrapret_def running_def myproc_def intr_off_def tf_store_def Let_def
      bit_or_iff bit_and_iff bit_not_iff bit_sstatus)
qed

text \<open>Process 0 at \<open>cp\<close> in user mode, with a fresh stack that ends at \<open>sp + PGSIZE\<close>.\<close>

definition first_user :: "symbols \<Rightarrow> u8 list \<Rightarrow> u64 \<Rightarrow> u64 \<Rightarrow> 'a machine_state_scheme \<Rightarrow> bool" where
  "first_user lk code cp sp s \<longleftrightarrow> user_running 0 s \<and> at s = Kernel 0 \<and> pc s = cp \<and>
     (\<forall>r. 1 \<le> r \<and> r < 32 \<longrightarrow> user_reg s r = (if r = 2 then sp + PGSIZE else 0)) \<and>
     loaded cp code (memory s) \<and> (\<forall>x. in_page sp x \<longrightarrow> memory s x = 0) \<and>
     satp s = MAKE_SATP (kernel_pagetable s) \<and> stvec s = user_trap_entry_addr lk \<and> sstatus s AND SSTATUS_SIE \<noteq> 0 \<and>
     (\<forall>va. va < MAXVA \<longrightarrow> leaf (memory s) (kernel_pagetable s) va = first_map lk cp sp va)"

lemma first_dispatch:
  assumes b: "booted lk code tf ks cp sp ps s" and len: "length code \<le> 4096"
  obtains s2 s3 where "sched_round 0 s = Inr s2" "forkret lk s2 = Inr s3" "first_user lk code cp sp s3"
    "bit (sstatus s3) 18 = bit (sstatus s) 18"
proof -
  note b = b [unfolded booted_def]
  let ?s2 = "(upd_proc 0 (\<lambda>f. f\<lparr>p_status := TASK_RUNNING\<rparr>) s)\<lparr>cpu_proc := Some 0, at := Kernel 0\<rparr>"
  have r: "sched_round 0 s = Inr ?s2" using b by (simp add: sched_round_def swtch_in_def)
  have pages: "page_ok lk tf" "page_ok lk cp" "page_ok lk sp" "tf \<noteq> cp" "tf \<noteq> sp" using b by auto
  then have tf: "page_aligned (p_trapframe (proc ?s2 0))" and cpu: "cpu_proc ?s2 = Some 0" and tfe: "p_trapframe (proc ?s2 0) = tf"
    using b page_ok_aligned [OF pages(1)] by simp_all
  obtain s3 where u: "usertrapret lk ?s2 = Inr s3" "user_running 0 s3" "pc s3 = tf_load 0 TF_epc ?s2"
    "\<And>r. 1 \<le> r \<Longrightarrow> r < 32 \<Longrightarrow> user_reg s3 r = tf_load 0 (4 + r) ?s2" "sstatus s3 AND SSTATUS_SIE \<noteq> 0"
    "stvec s3 = user_trap_entry_addr lk"
    using usertrapret_spec [OF cpu tf, of lk] by blast
  have us: "satp ?s2 = satp s" "sstatus ?s2 = sstatus s" "free_mem_list ?s2 = free_mem_list s" "kernel_pagetable ?s2 = kernel_pagetable s"
    "memory ?s2 = memory s" by (simp_all add: upd_proc_def)
  note fr = usertrapret_frame [OF u(1) cpu tf, unfolded tfe us]
  have other: "memory s3 x = memory s x" if "in_page p x" "p \<in> {cp, sp}" for p x
    using fr(1) [of x] that pages other_page [of lk tf p x] by auto
  have tl: "tf_load 0 i ?s2 = (if i = TF_epc then cp else if i = TF_sp then sp + PGSIZE else 0)" if "i < 512" for i
  proof -
    have "tf_load 0 i ?s2 = tf_load 0 i s" by (simp add: tf_load_def)
    then show ?thesis using b that by metis
  qed
  have "kspace lk (s\<lparr>memory := memory s3\<rparr>) ps (kernel_pagetable s) (first_map lk cp sp) {tf, ks, cp, sp}"
    by (rule kspace_write [of _ _ _ _ _ _ tf]) (use b fr(1) in auto)
  then have "leaf (memory s3) (kernel_pagetable s3) va = first_map lk cp sp va" if "va < MAXVA" for va
    using that fr(3) by (simp add: kspace_def)
  moreover have "loaded cp code (memory s3)" by (rule loaded_cong [OF _ len other]) (use b in auto)
  ultimately have "first_user lk code cp sp s3"
    unfolding first_user_def using u b fr tl other by (simp add: TF_defs)
  moreover have "bit (sstatus s3) 18 = bit (sstatus s) 18" using fr(6) by simp
  ultimately show thesis using that [OF r] u(1) by (simp add: forkret_def)
qed

section \<open>What user mode can reach\<close>

definition user_may :: "u64 \<Rightarrow> 'a vm_scheme \<Rightarrow> u64 \<Rightarrow> bool" where
  "user_may flag s va \<longleftrightarrow> (case leaf (memory s) (kernel_pagetable s) va of None \<Rightarrow> False
     | Some e \<Rightarrow> e AND PTE_U \<noteq> 0 \<and> e AND flag \<noteq> 0)"

lemma kernel_map_entry:
  assumes "kernel_map lk va = Some e"
  shows "e AND PTE_U = 0"
  using assms by (auto simp: kernel_map_def PA2PTE_flag split: if_splits)

lemma first_map_user:
  assumes lk: "linked_ok lk" and p: "page_ok lk cp" "page_ok lk sp" "cp \<noteq> sp"
    and s: "leaf (memory s) (kernel_pagetable s) va = first_map lk cp sp va"
  shows "user_may PTE_R s va \<longleftrightarrow> PGROUNDDOWN va = cp \<or> PGROUNDDOWN va = sp"
    "user_may PTE_W s va \<longleftrightarrow> PGROUNDDOWN va = cp \<or> PGROUNDDOWN va = sp"
    "user_may PTE_X s va \<longleftrightarrow> PGROUNDDOWN va = cp"
proof -
  note c = kernel_map_pool_page(2) [OF p(1) lk, of va] kernel_map_pool_page(2) [OF p(2) lk, of va]
  consider "PGROUNDDOWN va = cp" | "PGROUNDDOWN va = sp" | "PGROUNDDOWN va \<noteq> cp" "PGROUNDDOWN va \<noteq> sp" by blast
  then show "user_may PTE_R s va \<longleftrightarrow> PGROUNDDOWN va = cp \<or> PGROUNDDOWN va = sp"
    "user_may PTE_W s va \<longleftrightarrow> PGROUNDDOWN va = cp \<or> PGROUNDDOWN va = sp"
    "user_may PTE_X s va \<longleftrightarrow> PGROUNDDOWN va = cp"
  proof (atomize (full), cases)
    case 1
    then show "(user_may PTE_R s va \<longleftrightarrow> PGROUNDDOWN va = cp \<or> PGROUNDDOWN va = sp) \<and>
      (user_may PTE_W s va \<longleftrightarrow> PGROUNDDOWN va = cp \<or> PGROUNDDOWN va = sp) \<and> (user_may PTE_X s va \<longleftrightarrow> PGROUNDDOWN va = cp)"
      using c(1) by (simp add: user_may_def s first_map_def or.assoc PA2PTE_flag)
  next
    case 2
    then show "(user_may PTE_R s va \<longleftrightarrow> PGROUNDDOWN va = cp \<or> PGROUNDDOWN va = sp) \<and>
      (user_may PTE_W s va \<longleftrightarrow> PGROUNDDOWN va = cp \<or> PGROUNDDOWN va = sp) \<and> (user_may PTE_X s va \<longleftrightarrow> PGROUNDDOWN va = cp)"
      using c(2) p(3) by (simp add: user_may_def s first_map_def or.assoc PA2PTE_flag)
  next
    case 3
    then show "(user_may PTE_R s va \<longleftrightarrow> PGROUNDDOWN va = cp \<or> PGROUNDDOWN va = sp) \<and>
      (user_may PTE_W s va \<longleftrightarrow> PGROUNDDOWN va = cp \<or> PGROUNDDOWN va = sp) \<and> (user_may PTE_X s va \<longleftrightarrow> PGROUNDDOWN va = cp)"
      using kernel_map_entry [of lk va] by (auto simp: user_may_def s first_map_def split: option.splits)
  qed
qed

section \<open>Properties\<close>

text \<open>C1: A machine with enough RAM, a disk that answers and a file system on it boots: \<open>start_main\<close> neither panics nor
  faults and ends at the scheduler, where the invariants of all components hold together: the page table and the pool of free
  pages, the idle buffer cache, the mounted superblock and the empty inode cache, and the process table, in which the slot of
  process 0 is the only one in use, ready to run in its own pages with process id 1.  Nothing on the disk has changed.\<close>

theorem boot_reaches_scheduler:
  assumes "bootable lk code regs s"
  shows "\<exists>s' tf ks cp sp ps. start_main lk code regs pg s = Inr s' \<and> booted lk code tf ks cp sp ps s' \<and> disk s' = disk s"
  using start_main_ok [OF assms] by blast

text \<open>C2: The boot goes on to user mode: the first round of the scheduler dispatches process 0, and \<open>forkret\<close> returns to
  user mode at the first byte of the loaded program, with an empty stack, all other registers 0 and interrupts on.  Of the whole
  address space it can read and write its page of code and its page of stack, run the code, and nothing else; the supervisor's
  right to such pages (\<open>SUM\<close>, bit 18 of \<open>sstatus\<close>) is still what it was at the start.\<close>

theorem boot_enters_user_mode:
  assumes "bootable lk code regs s"
  shows "\<exists>s1 s2 s3 cp sp. start_main lk code regs pg s = Inr s1 \<and> sched_round 0 s1 = Inr s2 \<and> forkret lk s2 = Inr s3 \<and>
    first_user lk code cp sp s3 \<and> bit (sstatus s3) 18 = bit (sstatus s) 18 \<and>
    (\<forall>va. va < MAXVA \<longrightarrow> (user_may PTE_R s3 va \<longleftrightarrow> PGROUNDDOWN va = cp \<or> PGROUNDDOWN va = sp) \<and>
       (user_may PTE_W s3 va \<longleftrightarrow> PGROUNDDOWN va = cp \<or> PGROUNDDOWN va = sp) \<and>
       (user_may PTE_X s3 va \<longleftrightarrow> PGROUNDDOWN va = cp))"
proof -
  have lk: "linked_ok lk" and len: "length code \<le> 4096" using assms by (simp_all add: bootable_def)
  obtain s1 tf ks cp sp ps where 1: "start_main lk code regs pg s = Inr s1" "booted lk code tf ks cp sp ps s1"
    "sstatus s1 = sstatus s OR SSTATUS_SIE" using start_main_ok [OF assms] by blast
  obtain s2 s3 where 2: "sched_round 0 s1 = Inr s2" "forkret lk s2 = Inr s3" "first_user lk code cp sp s3"
    "bit (sstatus s3) 18 = bit (sstatus s1) 18" by (rule first_dispatch [OF 1(2) len])
  have p: "page_ok lk cp" "page_ok lk sp" "cp \<noteq> sp" using 1(2) by (auto simp: booted_def)
  have "leaf (memory s3) (kernel_pagetable s3) va = first_map lk cp sp va" if "va < MAXVA" for va
    using 2(3) that by (simp add: first_user_def)
  note u = first_map_user [OF lk p this]
  have "bit (sstatus s3) 18 = bit (sstatus s) 18" using 2(4) 1(3) by (simp add: bit_or_iff bit_sstatus)
  then show ?thesis using 1(1) 2(1-3) u by blast
qed

text \<open>A machine of 128 MB with the 200 bytes of a program, and what its disk answers.\<close>

definition demo_machine :: machine_state where
  "demo_machine = demo_reset\<lparr>disk := (\<lambda>_ _. 0)(1 := put_superblock demo_sb (\<lambda>_. 0)), disk_blocks := 1000, free_mem_list := 0, nextpid := 1,
     bufs := \<lambda>_. \<lparr>b_valid = 0, b_disk = 0, b_dev = 0, blockno = 0, refcnt = 0, b_prev = 0, b_next = 0, b_data = \<lambda>_. 0\<rparr>\<rparr>"

definition demo_regs :: "nat \<Rightarrow> u32" where
  "demo_regs r = (if r = 0 then 0x74726976 else if r = 4 then 1 else if r = 8 then 2 else if r = 0xc then 0x554d4551 else 8)"

lemma demo_bootable: "bootable demo_layout (replicate 200 0x13) demo_regs demo_machine"
proof -
  show ?thesis using demo_layout_linked
    by (simp add: bootable_def demo_layout_def demo_regs_def demo_machine_def superblock_of_put demo_sb_def fresh_bufs_def)
qed

theorem boot_reaches_scheduler_witness:
  "\<exists>s' tf ks cp sp ps. start_main demo_layout (replicate 200 0x13) demo_regs 0x80010 demo_machine = Inr s' \<and>
     booted demo_layout (replicate 200 0x13) tf ks cp sp ps s'"
  using boot_reaches_scheduler [OF demo_bootable] by blast

theorem boot_enters_user_mode_witness:
  "\<exists>s1 s2 s3 cp sp. start_main demo_layout (replicate 200 0x13) demo_regs 0x80010 demo_machine = Inr s1 \<and>
     sched_round 0 s1 = Inr s2 \<and> forkret demo_layout s2 = Inr s3 \<and> pc s3 = cp \<and> user_mode s3 \<and> user_reg s3 2 = sp + PGSIZE"
proof -
  obtain s1 s2 s3 cp sp where h: "start_main demo_layout (replicate 200 0x13) demo_regs 0x80010 demo_machine = Inr s1"
    "sched_round 0 s1 = Inr s2" "forkret demo_layout s2 = Inr s3" "first_user demo_layout (replicate 200 0x13) cp sp s3"
    using boot_enters_user_mode [OF demo_bootable] by blast
  then have "pc s3 = cp" "user_mode s3" "user_reg s3 2 = sp + PGSIZE" by (auto simp: first_user_def user_running_def)
  then show ?thesis using h(1-3) by blast
qed

end
