(* ===== verification/Spec2Isabelle.thy ===== *)
theory Spec2Isabelle
  imports Lost_Wakeup User_Program File_Bounds File_Calls Dir_Link Boot_Main
begin

text \<open>
  A model of riscv-os-lab, a small Unix-like teaching kernel for RISC-V (one hart, Sv39, virtio disk),
  with the program that builds its disk image and its first user program, and the theorems that make
  the parts correct.

  Parts and theories.  Every definition keeps the name of the C function, macro or struct it stands
  for, as far as HOL allows; a state is one record that grows with the layers.

  \<^item> \<open>Prelude\<close>: machine integers (\<open>kernel/include/types.h\<close>, \<open>param.h\<close>), the errors \<open>Panic\<close> and \<open>Fault\<close>
    (undefined behaviour of C, signed overflow included, is a value, so no theorem can hide it), sequencing with \<open>bindE\<close>.
    \<open>Bytes\<close>: little-endian integers in memory and in disk blocks.
  \<^item> \<open>Machine\<close>: physical memory as a map from 64-bit addresses to bytes, the characters sent to the
    UART, \<open>memlayout.h\<close>.  The kernel maps its memory one to one, so kernel pointers are physical
    addresses.
  \<^item> \<open>Kalloc\<close> (\<open>kernel/mm/kalloc.c\<close>): the free list lives in the free pages themselves; \<open>kmem_inv\<close> is its
    invariant.  \<open>Vm\<close> and \<open>Kernel_Space\<close> (\<open>kernel/mm/vm.c\<close>, \<open>riscv.h\<close>): \<open>walk\<close>, \<open>mappages\<close>, \<open>kvmininit\<close>
    over the same memory; the page-table walk of the hardware is the reference.
  \<^item> \<open>Bio\<close> (\<open>kernel/fs/bio.c\<close>): the doubly linked LRU list of 30 buffers, the multiset \<open>H\<close> of blocks
    that callers hold, and the locale \<open>block_cache\<close> through which the file system uses the cache.
  \<^item> \<open>Virtio\<close> (\<open>kernel/driver/virtio_disk.c\<close>): descriptors, rings and the device registers; the device
    acts only when it has been notified.  \<open>virtio_disk_rw\<close> refines \<open>disk_request\<close>, the step that \<open>Bio\<close> uses.
  \<^item> \<open>Memops\<close>, \<open>Fs_Alloc\<close>, \<open>Inode\<close>, \<open>File_Data\<close>, \<open>Dir\<close>, \<open>Path\<close> (\<open>kernel/fs/fs.c\<close>, \<open>fs.h\<close>, \<open>file.h\<close>): the block
    bitmap, inodes in memory and on disk, \<open>bmap\<close>, \<open>readi\<close>, \<open>writei\<close>, directories and paths.
    \<open>File_Write\<close> and \<open>File_Roundtrip\<close> show what a write does to the bytes of a file and to everybody
    else's blocks, \<open>File_Bounds\<close> that \<open>writei\<close> stays in bounds in any state, \<open>Dir_Link\<close> that \<open>dirlink\<close> inserts into the
    directory as a list and \<open>dirlookup\<close> finds the entry.  \<open>File\<close>, \<open>File_Calls\<close> (\<open>kernel/fs/file.c\<close>): the table
    of open files, reading and writing through them.
  \<^item> \<open>Console\<close> (\<open>kernel/driver/console.c\<close>, \<open>uart.c\<close>): \<open>printf\<close> over typed arguments.  Printing the least integer
    negates it and is a \<open>Fault\<close>; what follows from that (a program can ask for it with the number of an \<open>ecall\<close>
    or its exit status) is in the statements of the calls that print.
  \<^item> \<open>Proc\<close>, \<open>Sched\<close>, \<open>Lost_Wakeup\<close>, \<open>Proc_Pages\<close> (\<open>kernel/proc/proc.c\<close>, \<open>proc.h\<close>): the process table; the
    scheduler, \<open>yield\<close>, \<open>sleep\<close>, \<open>exit\<close> and \<open>wait\<close> as an inductive step relation in which a handler that
    switches in the middle is split at its switch (\<open>exit_begin\<close> and \<open>exit_end\<close>, one round of \<open>wait\<close>);
    \<open>fork\<close> and \<open>wait\<close> with the page allocator.
  \<^item> \<open>Syscall\<close> (\<open>kernel/syscall/*.c\<close>), \<open>Trap\<close>, \<open>User_Trap\<close> (\<open>kernel/trap/trap.c\<close>, \<open>kernelvec.S\<close>): arguments,
    dispatch, the calls; the path of an \<open>ecall\<close> through entry code, handler and return.
  \<^item> \<open>Boot\<close>, \<open>Boot_Timer\<close> (\<open>kernel/boot/start.c\<close>, \<open>main.c\<close>, \<open>timervec\<close> of \<open>kernelvec.S\<close>): machine mode, the
    hand-over to supervisor mode, the timer interrupt, and all the initialisations in order.  \<open>Pool_Count\<close>
    bounds the pages \<open>kvmininit\<close> takes and shows the protection of the address space it has built when it
    returns, \<open>First_Process\<close> follows \<open>userinit\<close> through the page table, and \<open>Boot_Main\<close>
    composes the components: \<open>start_main\<close> ends at the scheduler with the invariants of all of them, and
    the first process starts in user mode in its own two pages.
  \<^item> \<open>Mkfs\<close>, \<open>Mount\<close> (\<open>mkfs/mkfs.c\<close>): the image maker, and that the kernel mounts what it makes.
    \<open>User_Program\<close> (\<open>user/proczero.c\<close>): the user program as the sequence of its system calls; \<open>char_calls\<close> says
    that it writes one character per call.

  What the lemmas show.  \<open>kmem_inv\<close> and \<open>pool_frame\<close>: pages are never handed out twice while nobody
  frees twice (and what happens when somebody does).  \<open>bcache_ok s H\<close>: the cache is a cache, a held
  block is never replaced; \<open>cache_step\<close> and \<open>fs_step\<close> say what an operation may change.  \<open>alloc_ok\<close>:
  the bitmap covers the disk and its own blocks.  \<open>file_wf\<close>: a file has its blocks to itself, and
  \<open>file_step\<close> that an allocation or a write keeps it so and leaves foreign blocks alone.  \<open>dir_ok\<close>,
  \<open>tree_ok\<close>: resolution of paths agrees with a lookup in the tree of directories on the disk.
  \<open>sched_inv\<close>: one process runs, a process is running exactly when it has the processor.
  \<open>kspace\<close>: a page table, the pool and the pages that other parts own are apart; \<open>booted\<close> joins these
  invariants for the state in which the scheduler starts, and \<open>bootable\<close> is what that takes: among the rest
  74 free pages, 70 for the page table (\<open>kvmininit_takes\<close>) and 4 for the first process.

  Bounds and fuel.  The walks along the buffer list have fuel \<open>NBUF + 1\<close>, which a well-linked list
  of 30 buffers never uses up; a list that does not return to its head is a \<open>Fault\<close>.  \<open>poll\<close>, the
  wait for the disk, may run forever: it is a partial function, and \<open>virtio_disk_rw_terminates\<close> says
  that it ends with the first look after the device has come to the queue, and never when the device does not.
  The kernel functions that do not return by themselves (\<open>scheduler\<close>, \<open>wait\<close>) are one
  round per step.  Every other loop is a total function with its own measure.

  Parameters.  Code that is not in the repository, or not C, is an argument: the virtio device (a
  function from its state and memory to its answer), the addresses the linker assigns
  (\<open>etext\<close>, \<open>end\<close>, the handlers), the bytes of the compiled user program (\<open>usercode.h\<close>).
  \<open>take_trap\<close>, \<open>sret\<close>, \<open>mret\<close>, \<open>m_trap\<close> are the documented effect of the hardware on the registers.

  Reference counts, the tick counter and the other integers the kernel only counts with are words: a count would
  have to pass \<open>2 ^ 31\<close> to overflow, and the theorems about references bound it.  The process ids are
  not bounded by anything but the time the machine runs: \<open>allocpid\<close> is a \<open>Fault\<close> at the last one.

  Not modelled.  The check of the kernel's own accesses against the page table: all pages of the pool are mapped one to one, but
  those of a program have \<open>PTE_U\<close>, which supervisor mode may only use with the bit \<open>SUM\<close> of \<open>sstatus\<close> set, and
  no code sets it.  The instruction sequences of \<open>entry.S\<close> (boot stack) and \<open>swtch.S\<close> (callee-saved
  registers): the switch is a change of the running thread.  The TLB, caches and memory ordering.
  Interrupts between two statements of a kernel function: they are taken at the points where the
  model switches or enters a trap; a timer interrupt in the loop of \<open>scheduler\<close> finds no process and changes no
  table, and the \<open>intr_on\<close> at the start of each of its passes is in the model for the first one only
  (\<open>scheduler_enter\<close>).  More than one hart.  The wait of \<open>uart_putc\<close> for the transmitter
  to be ready: a character is taken at once.  Receiving
  on the UART (the code has no reader).  The messages of \<open>mkfs\<close>, and its access to the host's files.
\<close>

end
